(* ===== verification/Prelude.thy ===== *)
theory Prelude
  imports Main "HOL-Library.Word" "HOL-Library.Char_ord" "HOL-Library.List_Lexorder"
    "HOL-Library.Multiset" "HOL-Library.Sublist"
begin

text \<open>
  Shared vocabulary of the development: characters as bytes, C strings and raw buffers,
  the index loops that scan them, and the hint collections the component theories extend.
  A C string is modelled by the list of its characters up to (and without) the terminating
  NUL; a raw buffer (a received request) is a list that may contain NUL anywhere.
\<close>

named_theorems scan_simps "index loops over buffers, rewritten to list functions"
named_theorems nul_free "facts that keep a C string free of NUL"

section \<open>Characters\<close>

abbreviation NUL :: char where "NUL \<equiv> CHR 0x00"
abbreviation TAB :: char where "TAB \<equiv> CHR 0x09"
abbreviation LF :: char where "LF \<equiv> CHR 0x0A"
abbreviation CR :: char where "CR \<equiv> CHR 0x0D"
abbreviation DQUOTE :: char where "DQUOTE \<equiv> CHR 0x22"
abbreviation QUOTE :: char where "QUOTE \<equiv> CHR 0x27"

text \<open>The value of a character as \<^verbatim>\<open>unsigned char\<close> and as (two's complement)
  \<^verbatim>\<open>signed char\<close>, the signedness of plain \<^verbatim>\<open>char\<close> on the usual targets.\<close>

definition byte :: "char \<Rightarrow> nat" where
  "byte c = of_char c"

definition schar :: "char \<Rightarrow> int" where
  "schar c = (if byte c < 128 then int (byte c) else int (byte c) - 256)"

lemma byte_less [simp]: "byte c < 256"
  by (simp add: byte_def)

lemma byte_inj [simp]: "byte a = byte b \<longleftrightarrow> a = b"
  by (simp add: byte_def)

lemma char_of_byte [simp]: "char_of (byte c) = c"
  by (simp add: byte_def)

lemma byte_char_of: "n < 256 \<Longrightarrow> byte (char_of n) = n"
  by (simp add: byte_def)

lemma byte_NUL_iff [simp]: "byte c = 0 \<longleftrightarrow> c = NUL"
proof -
  have "byte NUL = 0" by (simp add: byte_def)
  then show ?thesis by (metis byte_inj)
qed

lemma byte_Char [simp]:
  "byte (Char b0 b1 b2 b3 b4 b5 b6 b7) = of_char (Char b0 b1 b2 b3 b4 b5 b6 b7)"
  by (simp add: byte_def)

lemma byte_NUL: "byte NUL = 0"
  by simp

section \<open>C strings\<close>

type_synonym fd = int

definition cstr :: "string \<Rightarrow> string" where
  "cstr s = takeWhile (\<lambda>c. c \<noteq> NUL) s"

text \<open>Reading a NUL-terminated buffer at an index up to its terminator.\<close>

definition c_at :: "string \<Rightarrow> nat \<Rightarrow> char" where
  "c_at s i = (if i < length s then s ! i else NUL)"

abbreviation nul_free_str :: "string \<Rightarrow> bool" where
  "nul_free_str s \<equiv> NUL \<notin> set s"

lemma cstr_Nil [simp]: "cstr [] = []"
  by (simp add: cstr_def)

lemma cstr_Cons: "cstr (c # s) = (if c = NUL then [] else c # cstr s)"
  by (simp add: cstr_def)

lemma cstr_nul_free [simp, nul_free]: "nul_free_str (cstr s)"
  by (auto simp: cstr_def dest: set_takeWhileD)

lemma cstr_id [simp]: "nul_free_str s \<Longrightarrow> cstr s = s"
  by (auto simp: cstr_def takeWhile_eq_all_conv)

lemma cstr_append_NUL [simp]: "nul_free_str s \<Longrightarrow> cstr (s @ NUL # t) = s"
  by (induction s) (auto simp: cstr_Cons)

lemma set_cstr: "set (cstr s) \<subseteq> set s"
  by (auto simp: cstr_def dest: set_takeWhileD)

lemma length_cstr: "length (cstr s) \<le> length s"
  by (simp add: cstr_def length_takeWhile_le)

lemma c_at_simps [simp]:
  "c_at [] i = NUL" "c_at (c # s) 0 = c" "c_at (c # s) (Suc i) = c_at s i"
  by (auto simp: c_at_def)

lemma c_at_numeral [simp]: "c_at (c # s) (numeral n) = c_at s (pred_numeral n)"
  by (simp add: numeral_eq_Suc)

lemma c_at_drop: "c_at (drop i s) j = c_at s (i + j)"
  by (auto simp: c_at_def)

lemma c_at_not_NUL: "c_at s i \<noteq> NUL \<Longrightarrow> i < length s"
  by (auto simp: c_at_def split: if_splits)

lemma c_at_append_NUL: "c_at (s @ [NUL]) i = c_at s i"
  by (auto simp: c_at_def nth_append)

section \<open>Scanning loops\<close>

text \<open>
  \<open>scan p s i\<close> is the loop
  \<^verbatim>\<open>for (; (i < length) && p(s[i]); i++) ;\<close>
  that most of the parsing code is made of.
\<close>

function scan :: "(char \<Rightarrow> bool) \<Rightarrow> string \<Rightarrow> nat \<Rightarrow> nat" where
  "scan p s i = (if i < length s \<and> p (s ! i) then scan p s (Suc i) else i)"
  by pat_completeness auto
termination
  by (relation "measure (\<lambda>(p, s, i). length s - i)") auto

declare scan.simps [simp del]

lemma scan_takeWhile [scan_simps]:
  "i \<le> length s \<Longrightarrow> scan p s i = i + length (takeWhile p (drop i s))"
proof (induction p s i rule: scan.induct)
  case (1 p s i)
  show ?case
  proof (cases "i < length s \<and> p (s ! i)")
    case True
    then have "drop i s = s ! i # drop (Suc i) s" by (simp add: Cons_nth_drop_Suc)
    with 1 True show ?thesis by (simp add: scan.simps [of p s i])
  next
    case False
    then show ?thesis
      using 1 by (cases "i < length s")
        (auto simp: scan.simps [of p] Cons_nth_drop_Suc [symmetric])
  qed
qed

lemma drop_scan [scan_simps]: "i \<le> length s \<Longrightarrow> drop (scan p s i) s = dropWhile p (drop i s)"
  by (simp add: scan_takeWhile dropWhile_eq_drop add.commute)

lemma scan_ge: "i \<le> scan p s i"
proof (induction p s i rule: scan.induct)
  case (1 p s i)
  then show ?case by (cases "i < length s \<and> p (s ! i)") (auto simp: scan.simps [of p s i])
qed

lemma scan_le: "i \<le> length s \<Longrightarrow> scan p s i \<le> length s"
  by (simp add: scan_takeWhile) (metis add_le_cancel_left le_add_diff_inverse length_drop length_takeWhile_le)

lemma scan_outside: "length s \<le> i \<Longrightarrow> scan p s i = i"
  by (simp add: scan.simps [of p s i])

lemma scan_stop: "scan p s i < length s \<Longrightarrow> \<not> p (s ! scan p s i)"
proof (induction p s i rule: scan.induct)
  case (1 p s i)
  then show ?case
    by (cases "i < length s \<and> p (s ! i)") (auto simp: scan.simps [of p s i])
qed

lemma scan_between: "i \<le> j \<Longrightarrow> j < scan p s i \<Longrightarrow> j < length s \<and> p (s ! j)"
proof (induction p s i rule: scan.induct)
  case (1 p s i)
  show ?case
  proof (cases "i < length s \<and> p (s ! i)")
    case True
    with 1 have "j < scan p s (Suc i)" by (simp add: scan.simps [of p s i])
    with 1 True show ?thesis by (cases "j = i") auto
  next
    case False
    with 1 show ?thesis by (simp add: scan.simps [of p s i])
  qed
qed

section \<open>Generic list lemmas\<close>

lemma take_Suc_update: "i < length xs \<Longrightarrow> take (Suc i) (xs[i := x]) = take i xs @ [x]"
  by (simp add: take_Suc_conv_app_nth)

lemma drop_update_lower: "i < j \<Longrightarrow> drop j (xs[i := x]) = drop j xs"
  by (simp add: drop_update_cancel)

lemma drop_suffix: "suffix d s \<Longrightarrow> drop (length s - length d) s = d"
  by (auto simp: suffix_def)

lemma last_neq: "xs \<noteq> [] \<Longrightarrow> x \<notin> set xs \<Longrightarrow> last xs \<noteq> x"
  by (metis last_in_set)

lemma takeWhile_append_stop:
  "\<forall>x \<in> set xs. P x \<Longrightarrow> ys = [] \<or> \<not> P (hd ys) \<Longrightarrow> takeWhile P (xs @ ys) = xs"
  by (cases ys) (induction xs; auto)+

lemma dropWhile_append_stop:
  "\<forall>x \<in> set xs. P x \<Longrightarrow> ys = [] \<or> \<not> P (hd ys) \<Longrightarrow> dropWhile P (xs @ ys) = ys"
  by (cases ys) (induction xs; auto)+

lemma concat_map_filter_le:
  "(\<And>x. x \<in> set xs \<Longrightarrow> length (f x) \<le> k) \<Longrightarrow> length (concat (map f xs)) \<le> k * length xs"
  by (induction xs) (auto, fastforce)

end
