(* ===== verification/SafeUrl.thy ===== *)
theory SafeUrl
  imports Prelude
begin

text \<open>
  \<^verbatim>\<open>make_safe_url\<close>: resolution of \<^verbatim>\<open>/./\<close>, \<^verbatim>\<open>/../\<close> and repeated slashes, in place.
  The model keeps the buffer (with its terminator) and the two cursors \<^verbatim>\<open>src\<close> and \<^verbatim>\<open>dst\<close> as
  indices.  It is refined, through a version over the remaining input and an output stack, to a
  specification on path components.
\<close>

section \<open>The in-place routine\<close>

definition ends :: "char \<Rightarrow> bool" where
  "ends c \<longleftrightarrow> c = CHR ''/'' \<or> c = NUL"

text \<open>The fast case: skip until the first double slash or dot directory.\<close>

function fast_skip :: "string \<Rightarrow> nat \<Rightarrow> nat" where
  "fast_skip b src =
     (if c_at b src = NUL then src
      else if c_at b src = CHR ''/'' then
        (if c_at b (src + 1) = CHR ''/'' then src
         else if c_at b (src + 1) = CHR ''.'' then
           (if ends (c_at b (src + 2)) then src
            else if c_at b (src + 2) = CHR ''.'' \<and> ends (c_at b (src + 3)) then src
            else fast_skip b (Suc src))
         else fast_skip b (Suc src))
      else fast_skip b (Suc src))"
  by pat_completeness auto
termination
  by (relation "measure (\<lambda>(b, src). length b - src)") (auto simp: c_at_def split: if_splits)

declare fast_skip.simps [simp del]

text \<open>\<^verbatim>\<open>while (*--dst != '/' && dst > url) ;\<close>\<close>

fun backtrack :: "string \<Rightarrow> nat \<Rightarrow> nat" where
  "backtrack b dst =
     (let dst = dst - 1 in
      if c_at b dst \<noteq> CHR ''/'' \<and> 0 < dst then backtrack b dst else dst)"

declare backtrack.simps [simp del]

text \<open>The copying loop; \<open>None\<close> is the early \<^verbatim>\<open>return NULL\<close>.\<close>

function copy_loop :: "string \<Rightarrow> nat \<Rightarrow> nat \<Rightarrow> (string \<times> nat) option" where
  "copy_loop b src dst =
     (if c_at b src = NUL then Some (b, dst)
      else if c_at b src \<noteq> CHR ''/'' then
        copy_loop (b[dst := c_at b src]) (Suc src) (Suc dst)
      else if c_at b (Suc src) = CHR ''/'' then copy_loop b (Suc src) dst
      else if c_at b (Suc src) \<noteq> CHR ''.'' then
        copy_loop (b[dst := CHR ''/'']) (Suc src) (Suc dst)
      else if ends (c_at b (src + 2)) then copy_loop b (src + 2) dst
      else if c_at b (src + 2) = CHR ''.'' \<and> ends (c_at b (src + 3)) then
        (if dst = 0 then None else copy_loop b (src + 3) (backtrack b dst))
      else copy_loop (b[dst := CHR ''/'']) (Suc src) (Suc dst))"
  by pat_completeness auto
termination
  by (relation "measure (\<lambda>(b, src, dst). length b - src)") (auto simp: c_at_def split: if_splits)

declare copy_loop.simps [simp del]

definition make_safe_url :: "string \<Rightarrow> string option" where
  "make_safe_url url =
     (let b = url @ [NUL] in
      if c_at b 0 \<noteq> CHR ''/'' then None
      else
        (let src = fast_skip b 0 in
         case copy_loop b src src of
           None \<Rightarrow> None
         | Some (b, dst) \<Rightarrow>
             (let dst = (if dst = 0 then dst + 1 else dst) in
              Some (cstr (b[dst := NUL])))))"

section \<open>The same loop over the remaining input and an output stack\<close>

function resolve :: "string \<Rightarrow> string \<Rightarrow> string option" where
  "resolve out s =
     (if s = [] then Some out
      else if c_at s 0 \<noteq> CHR ''/'' then resolve (c_at s 0 # out) (tl s)
      else if c_at s 1 = CHR ''/'' then resolve out (tl s)
      else if c_at s 1 \<noteq> CHR ''.'' then resolve (CHR ''/'' # out) (tl s)
      else if ends (c_at s 2) then resolve out (drop 2 s)
      else if c_at s 2 = CHR ''.'' \<and> ends (c_at s 3) then
        (if out = [] then None
         else resolve (tl (dropWhile (\<lambda>c. c \<noteq> CHR ''/'') out)) (drop 3 s))
      else resolve (CHR ''/'' # out) (tl s))"
  by pat_completeness auto
termination
  by (relation "measure (\<lambda>(out, s). length s)") auto

declare resolve.simps [simp del]

lemma resolve_Nil [simp]: "resolve out [] = Some out"
  by (simp add: resolve.simps)

lemma backtrack_stack:
  assumes "0 < dst" "dst \<le> length b"
  shows "backtrack b dst < dst
    \<and> rev (take (backtrack b dst) b) = tl (dropWhile (\<lambda>c. c \<noteq> CHR ''/'') (rev (take dst b)))"
  using assms
proof (induction dst)
  case 0
  then show ?case by simp
next
  case (Suc n)
  then have t: "take (Suc n) b = take n b @ [b ! n]" and c: "c_at b n = b ! n"
    by (simp_all add: take_Suc_conv_app_nth c_at_def)
  show ?case
  proof (cases "c_at b n \<noteq> CHR ''/'' \<and> 0 < n")
    case True
    then have "backtrack b (Suc n) = backtrack b n" by (simp add: backtrack.simps [of b "Suc n"])
    with Suc True t c show ?thesis by auto
  next
    case False
    then have "backtrack b (Suc n) = n" by (auto simp: backtrack.simps [of b "Suc n"])
    with False t c show ?thesis by auto
  qed
qed

text \<open>
  The state of the loop: the cursors never cross, so the unread part of the buffer is still
  the unread input, and what was written is the output stack.
\<close>

definition cursors :: "string \<Rightarrow> nat \<Rightarrow> nat \<Rightarrow> string \<Rightarrow> string \<Rightarrow> bool" where
  "cursors b src dst out s \<longleftrightarrow>
     dst \<le> src \<and> drop src b = s @ [NUL] \<and> rev (take dst b) = out \<and> nul_free_str s \<and>
     nul_free_str out \<and> b ! 0 = CHR ''/'' \<and> (out = [] \<longrightarrow> ends (c_at s 0))"

lemma cursors_at: "cursors b src dst out s \<Longrightarrow> c_at b (src + k) = c_at s k"
  by (metis c_at_append_NUL c_at_drop cursors_def)

lemma cursors_length: "cursors b src dst out s \<Longrightarrow> length b = src + length s + 1"
proof -
  assume "cursors b src dst out s"
  then have "drop src b = s @ [NUL]" by (simp add: cursors_def)
  then have "length (drop src b) = length s + 1" by simp
  then show ?thesis by simp
qed

lemma cursors_empty: "cursors b src dst out s \<Longrightarrow> c_at s 0 = NUL \<longleftrightarrow> s = []"
  by (cases s) (auto simp: cursors_def)

lemma cursors_dst: "cursors b src dst out s \<Longrightarrow> dst < length b"
proof -
  assume c: "cursors b src dst out s"
  then have "dst \<le> src" by (simp add: cursors_def)
  with cursors_length [OF c] show ?thesis by simp
qed

lemma cursors_skip:
  "cursors b src dst out s \<Longrightarrow> k \<le> length s \<Longrightarrow> ends (c_at s k) \<Longrightarrow>
   cursors b (src + k) dst out (drop k s)"
  by (auto simp: cursors_def c_at_drop add.commute simp flip: drop_drop dest: in_set_dropD)

lemma cursors_push:
  assumes "cursors b src dst out s" "s \<noteq> []" "x \<noteq> NUL" "x = CHR ''/'' \<or> out \<noteq> []"
  shows "cursors (b[dst := x]) (Suc src) (Suc dst) (x # out) (tl s)"
proof -
  note len = cursors_dst [OF assms(1)]
  from assms have "drop (Suc src) b = tl s @ [NUL]"
    by (cases s) (auto simp: cursors_def drop_Suc drop_tl tl_append)
  moreover have "b[dst := x] ! 0 = CHR ''/''"
    using assms len by (cases dst) (auto simp: cursors_def)
  ultimately show ?thesis using assms len
    by (simp add: cursors_def take_Suc_update) (meson list.set_sel(2))
qed

lemma cursors_pop:
  assumes "cursors b src dst out s" "dst \<noteq> 0" "ends (c_at s 0)"
  shows "cursors b src (backtrack b dst) (tl (dropWhile (\<lambda>c. c \<noteq> CHR ''/'') out)) s"
proof -
  have "dst \<le> length b" using cursors_dst [OF assms(1)] by simp
  with assms(2) have "backtrack b dst < dst"
    "rev (take (backtrack b dst) b) = tl (dropWhile (\<lambda>c. c \<noteq> CHR ''/'') (rev (take dst b)))"
    using backtrack_stack [of dst b] by simp_all
  with assms(1,3) show ?thesis
    by (simp add: cursors_def) (metis list.set_sel(2) set_dropWhileD tl_Nil)
qed

lemma cursors_out_Nil: "cursors b src dst out s \<Longrightarrow> out = [] \<longleftrightarrow> dst = 0"
proof -
  assume c: "cursors b src dst out s"
  then have "rev (take dst b) = out" by (simp add: cursors_def)
  moreover from cursors_dst [OF c] have "take dst b = [] \<longleftrightarrow> dst = 0" by auto
  ultimately show ?thesis by auto
qed

text \<open>At the end of the loop the string cut at \<open>dst\<close> is what is on the stack.\<close>

lemma cursors_final:
  assumes c: "cursors b src dst out []"
  shows "cstr (b[(if dst = 0 then dst + 1 else dst) := NUL])
    = (if out = [] then ''/'' else rev out)"
proof (cases "out = []")
  case True
  with cursors_out_Nil [OF c] have "dst = 0" by simp
  have "b ! 0 = CHR ''/''" "drop src b = [NUL]" using c by (simp_all add: cursors_def)
  moreover have "1 < length b"
  proof (rule ccontr)
    assume "\<not> 1 < length b"
    with \<open>drop src b = [NUL]\<close> have "src = 0" "b = [NUL]" by (cases b; cases src; simp)+
    with \<open>b ! 0 = CHR ''/''\<close> show False by simp
  qed
  ultimately obtain x xs where "b = CHR ''/'' # x # xs" by (cases b; cases "tl b") auto
  with True \<open>dst = 0\<close> show ?thesis by (simp add: cstr_Cons)
next
  case False
  with cursors_out_Nil [OF c] have "dst \<noteq> 0" by simp
  have "b[dst := NUL] = take dst b @ NUL # drop (Suc dst) b"
    using cursors_dst [OF c] by (simp add: upd_conv_take_nth_drop)
  moreover have "take dst b = rev out" "nul_free_str (rev out)"
    using c by (auto simp: cursors_def)
  ultimately show ?thesis using \<open>dst \<noteq> 0\<close> False by simp
qed

definition copied :: "nat \<Rightarrow> string option \<Rightarrow> (string \<times> nat) option \<Rightarrow> bool" where
  "copied n r c \<longleftrightarrow> (case r of None \<Rightarrow> c = None
     | Some out \<Rightarrow> \<exists>b' src' dst'. c = Some (b', dst') \<and> cursors b' src' dst' out [] \<and> length b' = n)"

lemma copy_loop_resolve:
  assumes "cursors b src dst out s"
  shows "copied (length b) (resolve out s) (copy_loop b src dst)"
  using assms
proof (induction out s arbitrary: b src dst rule: resolve.induct)
  case (1 out s)
  note c = "1.prems"
  note at = cursors_at [OF c]
  note at0 = at [of 0, simplified] and at1 = at [of 1, simplified] and at2 = at [of 2]
    and at3 = at [of 3]
  show ?case
  proof (cases "s = []")
    case True
    with at0 c show ?thesis by (auto simp: copy_loop.simps [of b src dst] copied_def)
  next
    case False
    then have n0: "c_at b src \<noteq> NUL" using cursors_empty [OF c] at0 by simp
    have len: "k \<le> length s" if "c_at s (k - 1) \<noteq> NUL" for k
      using c_at_not_NUL [OF that] by simp
    have out: "out \<noteq> []" if "c_at s 0 \<noteq> CHR ''/''"
      using c that False cursors_empty [OF c] by (auto simp: cursors_def ends_def)
    have push: "cursors (b[dst := x]) (Suc src) (Suc dst) (x # out) (tl s)"
      if "x \<noteq> NUL" "x = CHR ''/'' \<or> out \<noteq> []" for x
      using cursors_push [OF c False that] .
    note push_slash = push [of "CHR ''/''", simplified]
    show ?thesis
    proof (cases "c_at s 0 \<noteq> CHR ''/''")
      case True
      from cursors_empty [OF c] False push [of "c_at s 0"] out [OF True]
      have "cursors (b[dst := c_at s 0]) (Suc src) (Suc dst) (c_at s 0 # out) (tl s)" by simp
      with 1(1) [OF False True this] True n0 at0 False show ?thesis
        by (simp add: copy_loop.simps [of b src dst] resolve.simps [of out s])
    next
      case sl: False
      consider (slash) "c_at s 1 = CHR ''/''" | (plain) "c_at s 1 \<noteq> CHR ''/''" "c_at s 1 \<noteq> CHR ''.''"
        | (dot) "c_at s 1 = CHR ''.''" "ends (c_at s 2)"
        | (dotdot) "c_at s 1 = CHR ''.''" "\<not> ends (c_at s 2)" "c_at s 2 = CHR ''.''" "ends (c_at s 3)"
        | (other) "c_at s 1 = CHR ''.''" "\<not> ends (c_at s 2)" "\<not> (c_at s 2 = CHR ''.'' \<and> ends (c_at s 3))"
        by blast
      then show ?thesis
      proof cases
        case slash
        then have skip1: "cursors b (Suc src) dst out (tl s)"
          using cursors_skip [OF c, of 1] False by (simp add: Suc_leI drop_Suc ends_def)
        with slash 1(2) [OF False sl slash skip1] n0 at0 at1 False sl show ?thesis
          by (simp add: copy_loop.simps [of b src dst] resolve.simps [of out s])
      next
        case plain
        with 1(3) [OF False sl plain push_slash] n0 at0 at1 False sl show ?thesis
          by (simp add: copy_loop.simps [of b src dst] resolve.simps [of out s])
      next
        case dot
        with len [of 2] have "cursors b (src + 2) dst out (drop 2 s)"
          by (intro cursors_skip [OF c]) simp_all
        with 1(4) [OF False sl _ _ dot(2) this] dot n0 at0 at1 at2 False sl show ?thesis
          by (simp add: copy_loop.simps [of b src dst] resolve.simps [of out s])
      next
        case dotdot
        with len [of 3] have c3: "cursors b (src + 3) dst out (drop 3 s)"
          by (intro cursors_skip [OF c]) simp_all
        from dotdot(4) have e: "ends (c_at (drop 3 s) 0)" by (simp add: c_at_drop)
        show ?thesis
        proof (cases "out = []")
          case True
          with dotdot n0 at0 at1 at2 at3 False sl cursors_out_Nil [OF c] show ?thesis
            by (simp add: copy_loop.simps [of b src 0] resolve.simps [of "[]" s] copied_def)
        next
          case ne: False
          with cursors_out_Nil [OF c] have "dst \<noteq> 0" by simp
          from 1(5) [OF False sl _ _ dotdot(2) _ ne cursors_pop [OF c3 this e]]
            dotdot n0 at0 at1 at2 at3 False sl \<open>dst \<noteq> 0\<close> ne cursors_length [OF c]
          show ?thesis
            by (simp add: copy_loop.simps [of b src dst] resolve.simps [of out s])
        qed
      next
        case other
        with 1(6) [OF False sl _ _ other(2,3) push_slash] n0 at0 at1 at2 at3 False sl show ?thesis
          by (auto simp: copy_loop.simps [of b src dst] resolve.simps [of out s])
      qed
    qed
  qed
qed

lemma fast_skip_resolve:
  assumes "nul_free_str url" "src \<le> length url"
  shows "fast_skip (url @ [NUL]) src \<le> length url \<and>
    resolve (rev (take src url)) (drop src url) =
    resolve (rev (take (fast_skip (url @ [NUL]) src) url)) (drop (fast_skip (url @ [NUL]) src) url)"
  using assms(2)
proof (induction "length url - src" arbitrary: src)
  case 0
  then have "fast_skip (url @ [NUL]) src = src" by (simp add: fast_skip.simps c_at_def nth_append)
  with 0 show ?case by simp
next
  case (Suc n)
  then have lt: "src < length url" by simp
  then have d: "drop src url = url ! src # drop (Suc src) url"
    and t: "url ! src # rev (take src url) = rev (take (Suc src) url)"
    by (simp_all add: Cons_nth_drop_Suc take_Suc_conv_app_nth)
  have at: "c_at (drop src url) k = c_at url (src + k)" for k by (simp add: c_at_drop)
  have n0: "c_at url src \<noteq> NUL" using lt assms(1) by (metis c_at_def nth_mem)
  have u: "c_at url src = url ! src" using lt by (simp add: c_at_def)
  have eq: "fast_skip (url @ [NUL]) src = src \<or>
    (fast_skip (url @ [NUL]) src = fast_skip (url @ [NUL]) (Suc src) \<and>
     resolve (rev (take src url)) (drop src url)
       = resolve (rev (take (Suc src) url)) (drop (Suc src) url))"
    using n0 lt unfolding fast_skip.simps [of "url @ [NUL]" src]
      resolve.simps [of "rev (take src url)" "drop src url"]
    by (auto simp: at t [symmetric] u c_at_append_NUL drop_Suc tl_drop ends_def)
  with Suc.hyps(1) [of "Suc src"] Suc.hyps(2) lt show ?case by auto
qed

lemma make_safe_url_resolve:
  assumes "nul_free_str url"
  shows "make_safe_url url = (if c_at url 0 \<noteq> CHR ''/'' then None
    else map_option (\<lambda>out. if out = [] then ''/'' else rev out) (resolve [] url))"
proof (cases "c_at url 0 = CHR ''/''")
  case False
  then show ?thesis by (simp add: make_safe_url_def c_at_append_NUL)
next
  case True
  let ?b = "url @ [NUL]" and ?src = "fast_skip (url @ [NUL]) 0"
  have skip: "?src \<le> length url"
    "resolve [] url = resolve (rev (take ?src url)) (drop ?src url)"
    using fast_skip_resolve [OF assms, of 0] by simp_all
  from True have ne: "url \<noteq> []" "url ! 0 = CHR ''/''" by (auto simp: c_at_def split: if_splits)
  have "cursors ?b ?src ?src (rev (take ?src url)) (drop ?src url)"
    using assms skip(1) ne True
    by (auto simp: cursors_def nth_append c_at_drop ends_def dest: in_set_takeD in_set_dropD)
  from copy_loop_resolve [OF this]
  have "copied (length ?b) (resolve [] url) (copy_loop ?b ?src ?src)" by (simp add: skip(2))
  with True show ?thesis
    using cursors_final
    by (cases "resolve [] url")
      (fastforce simp: make_safe_url_def copied_def c_at_append_NUL Let_def)+
qed

section \<open>Specification on path components\<close>

text \<open>
  A path is a list of components separated by slashes; empty components and \<^verbatim>\<open>.\<close> are dropped,
  \<^verbatim>\<open>..\<close> removes the component before it, and there is no result if there is none.
\<close>

fun chunks :: "string \<Rightarrow> string list" where
  "chunks [] = [[]]"
| "chunks (c # s) = (if c = CHR ''/'' then [] # chunks s
     else (c # hd (chunks s)) # tl (chunks s))"

definition components :: "string \<Rightarrow> string list" where
  "components url = filter (\<lambda>c. c \<noteq> []) (chunks url)"

fun walk :: "string list \<Rightarrow> string list \<Rightarrow> string list option" where
  "walk st [] = Some st"
| "walk st (c # cs) =
     (if c = ''.'' then walk st cs
      else if c = ''..'' then (case st of [] \<Rightarrow> None | _ # st \<Rightarrow> walk st cs)
      else walk (c # st) cs)"

definition join :: "string list \<Rightarrow> string" where
  "join st = concat (map ((#) (CHR ''/'')) (rev st))"

definition safe_path :: "string \<Rightarrow> string option" where
  "safe_path url =
     (if url = [] \<or> hd url \<noteq> CHR ''/'' then None
      else map_option (\<lambda>st. join st @ (if st = [] \<or> last url = CHR ''/'' then ''/'' else []))
             (walk [] (components url)))"

definition proper :: "string \<Rightarrow> bool" where
  "proper c \<longleftrightarrow> c \<noteq> [] \<and> CHR ''/'' \<notin> set c"

lemma join_Nil [simp]: "join [] = []"
  by (simp add: join_def)

lemma join_Cons: "join (c # st) = join st @ CHR ''/'' # c"
  by (simp add: join_def)

lemma chunks_ne [simp]: "chunks s \<noteq> []"
  by (cases s) auto

lemma chunks_append:
  "CHR ''/'' \<notin> set c \<Longrightarrow> chunks (c @ s) = (c @ hd (chunks s)) # tl (chunks s)"
  by (induction c) auto

lemma chunks_slash_append: "chunks (a @ CHR ''/'' # b) = chunks a @ chunks b"
  by (induction a) auto

lemma chunks_single: "CHR ''/'' \<notin> set c \<Longrightarrow> chunks c = [c]"
  using chunks_append [of c "[]"] by simp

lemma components_slash [simp]: "components (CHR ''/'' # s) = components s"
  by (simp add: components_def)

lemma components_Nil [simp]: "components [] = []"
  by (simp add: components_def)

lemma components_append:
  assumes "CHR ''/'' \<notin> set c" "s = [] \<or> hd s = CHR ''/''"
  shows "components (c @ s) = (if c = [] then [] else [c]) @ components s"
  using assms chunks_append [of c s] by (cases s) (auto simp: components_def)

lemma chunks_no_slash: "c \<in> set (chunks s) \<Longrightarrow> CHR ''/'' \<notin> set c"
proof (induction s arbitrary: c)
  case (Cons a s)
  then show ?case
    by (cases "chunks s") (auto split: if_splits)
qed simp

lemma components_proper: "c \<in> set (components s) \<Longrightarrow> proper c"
  by (auto simp: components_def proper_def dest: chunks_no_slash)

lemma resolve_char: "a \<noteq> CHR ''/'' \<Longrightarrow> resolve out (a # s) = resolve (a # out) s"
  by (simp add: resolve.simps [of out "a # s"])

lemma resolve_slash:
  "resolve out (CHR ''/'' # s) =
     (if c_at s 0 = CHR ''/'' then resolve out s
      else if c_at s 0 \<noteq> CHR ''.'' then resolve (CHR ''/'' # out) s
      else if ends (c_at s 1) then resolve out (tl s)
      else if c_at s 1 = CHR ''.'' \<and> ends (c_at s 2) then
        (if out = [] then None
         else resolve (tl (dropWhile (\<lambda>c. c \<noteq> CHR ''/'') out)) (drop 2 s))
      else resolve (CHR ''/'' # out) s)"
  by (simp add: resolve.simps [of out "CHR ''/'' # s"] drop_Suc numeral_3_eq_3 numeral_2_eq_2)

lemma resolve_plain:
  "CHR ''/'' \<notin> set c \<Longrightarrow> resolve out (c @ s) = resolve (rev c @ out) s"
proof (induction c arbitrary: out)
  case (Cons a c)
  then show ?case using resolve_char [of a out "c @ s"] by auto
qed simp

lemma pop_component:
  "CHR ''/'' \<notin> set c \<Longrightarrow>
   tl (dropWhile (\<lambda>c. c \<noteq> CHR ''/'') (rev (join (c # st)))) = rev (join st)"
proof -
  assume "CHR ''/'' \<notin> set c"
  then have "dropWhile (\<lambda>c. c \<noteq> CHR ''/'') (rev c @ CHR ''/'' # rev (join st))
    = CHR ''/'' # rev (join st)"
    by (intro dropWhile_append_stop) auto
  then show ?thesis by (simp add: join_Cons)
qed

lemma resolve_component:
  assumes "nul_free_str (c @ s)" "CHR ''/'' \<notin> set c" "s = [] \<or> hd s = CHR ''/''"
  shows "resolve out (CHR ''/'' # c @ s) =
    (if c = [] then if s = [] then Some (CHR ''/'' # out) else resolve out s
     else if c = ''.'' then resolve out s
     else if c = ''..'' then (if out = [] then None
       else resolve (tl (dropWhile (\<lambda>c. c \<noteq> CHR ''/'') out)) s)
     else resolve (rev c @ CHR ''/'' # out) s)"
proof -
  have e: "c_at s 0 = CHR ''/'' \<or> s = []" using assms(3) by (cases s) auto
  have n: "c_at s 0 = NUL \<longleftrightarrow> s = []" using assms(1) by (cases s) auto
  show ?thesis
  proof (cases c)
    case Nil
    with e show ?thesis by (auto simp: resolve_slash)
  next
    case a: (Cons x c1)
    show ?thesis
    proof (cases c1)
      case Nil
      with a e n assms show ?thesis by (auto simp: resolve_slash resolve_char ends_def)
    next
      case b: (Cons y c2)
      have p: "resolve (CHR ''/'' # out) (c @ s) = resolve (rev c @ CHR ''/'' # out) s"
        using assms(2) by (rule resolve_plain)
      have x: "x \<noteq> CHR ''/''" "y \<noteq> CHR ''/''" "y \<noteq> NUL" using a b assms by auto
      show ?thesis
      proof (cases "c2")
        case Nil
        with a b e n x p show ?thesis by (simp add: resolve_slash ends_def) auto
      next
        case (Cons z c3)
        then have "z \<noteq> CHR ''/''" "z \<noteq> NUL" using a b assms by auto
        with Cons a b x p show ?thesis by (simp add: resolve_slash ends_def) auto
      qed
    qed
  qed
qed

lemma resolve_walk:
  assumes "nul_free_str s" "s = [] \<or> hd s = CHR ''/''" "\<forall>c \<in> set st. proper c"
  shows "resolve (rev (join st)) s = map_option
    (\<lambda>st. rev (join st @ (if s \<noteq> [] \<and> last s = CHR ''/'' then ''/'' else []))) (walk st (components s))"
  using assms
proof (induction "length s" arbitrary: s st rule: less_induct)
  case less
  show ?case
  proof (cases s)
    case Nil
    then show ?thesis by simp
  next
    case (Cons a u)
    define c where "c = takeWhile (\<lambda>c. c \<noteq> CHR ''/'') u"
    define t where "t = dropWhile (\<lambda>c. c \<noteq> CHR ''/'') u"
    have s: "s = CHR ''/'' # c @ t" using Cons less.prems(2) by (simp add: c_def t_def)
    have c: "CHR ''/'' \<notin> set c" by (auto simp: c_def dest: set_takeWhileD)
    have t: "t = [] \<or> hd t = CHR ''/''" using hd_dropWhile [of "\<lambda>c. c \<noteq> CHR ''/''" u] by (fastforce simp: t_def)
    have nf: "nul_free_str t" "nul_free_str (c @ t)" using less.prems(1) s by simp_all
    note IH = less.hyps [OF _ nf(1) t]
    have len: "length t < length s" by (simp add: s)
    have comps: "components s = (if c = [] then [] else [c]) @ components t"
      using components_append [OF c t] by (simp add: s)
    have lst: "t \<noteq> [] \<Longrightarrow> last s = last t" and lst0: "t = [] \<Longrightarrow> c \<noteq> [] \<Longrightarrow> last s \<noteq> CHR ''/''"
      using c by (auto simp: s last_neq)
    note step = resolve_component [OF nf(2) c t, of "rev (join st)"]
    have out: "rev (join st) = [] \<longleftrightarrow> st = []" by (cases st) (auto simp: join_Cons)
    consider (empty) "c = []" | (dot) "c = ''.''" | (dotdot) "c = ''..''"
      | (plain) "c \<noteq> []" "c \<noteq> ''.''" "c \<noteq> ''..''" by blast
    then show ?thesis
    proof cases
      case empty
      with step IH [OF len less.prems(3)] comps lst show ?thesis by (cases "t = []") (simp_all add: s)
    next
      case dot
      with step IH [OF len less.prems(3)] comps lst lst0 show ?thesis
        by (cases "t = []") (simp_all add: s)
    next
      case dotdot
      show ?thesis
      proof (cases st)
        case Nil
        with dotdot step comps show ?thesis by (simp add: s)
      next
        case st: (Cons d st')
        with less.prems(3) have "CHR ''/'' \<notin> set d" "\<forall>c \<in> set st'. proper c"
          by (auto simp: proper_def)
        with IH [OF len this(2)] pop_component [of d st'] dotdot step comps lst lst0 st out
        show ?thesis by (cases "t = []") (simp_all add: s)
      qed
    next
      case plain
      with c less.prems(3) have "\<forall>c \<in> set (c # st). proper c" by (auto simp: proper_def)
      from IH [OF len this] plain step comps lst lst0 show ?thesis
        by (cases "t = []") (simp_all add: s join_Cons)
    qed
  qed
qed

lemma make_safe_url_safe_path:
  assumes "nul_free_str url"
  shows "make_safe_url url = safe_path url"
proof (cases "c_at url 0 = CHR ''/''")
  case True
  then have ne: "url \<noteq> []" "hd url = CHR ''/''" by (cases url; simp)+
  with resolve_walk [of url "[]"] assms have
    "resolve [] url = map_option (\<lambda>st. rev (join st @ (if last url = CHR ''/'' then ''/'' else [])))
       (walk [] (components url))" by simp
  moreover have "join st = [] \<longleftrightarrow> st = []" for st by (cases st) (auto simp: join_Cons)
  ultimately show ?thesis using True ne
    by (cases "walk [] (components url)")
      (auto simp: make_safe_url_resolve [OF assms] safe_path_def)
next
  case False
  then have "make_safe_url url = None" by (simp add: make_safe_url_resolve [OF assms])
  with False show ?thesis by (cases url) (auto simp: safe_path_def)
qed

lemma make_safe_url_nul_free [nul_free]: "make_safe_url url = Some p \<Longrightarrow> nul_free_str p"
  by (auto simp: make_safe_url_def Let_def split: if_splits option.splits)

section \<open>What a successful result looks like\<close>

definition plain_component :: "string \<Rightarrow> bool" where
  "plain_component c \<longleftrightarrow> proper c \<and> c \<noteq> ''.'' \<and> c \<noteq> ''..''"

lemma walk_plain:
  "walk st cs = Some st' \<Longrightarrow> \<forall>c \<in> set st. plain_component c \<Longrightarrow> \<forall>c \<in> set cs. proper c \<Longrightarrow>
   \<forall>c \<in> set st'. plain_component c"
proof (induction st cs rule: walk.induct)
  case (2 st c cs)
  have c: "proper c" using 2(6) by simp
  show ?case
  proof (cases "c = ''.'' \<or> c = ''..''")
    case True
    show ?thesis
    proof (cases "c = ''.''")
      case True
      with 2(1) [OF True] 2(4-6) show ?thesis by simp
    next
      case dd: False
      with True 2(4) obtain d st2 where "st = d # st2" by (cases st) auto
      with dd True 2(2) [OF dd] 2(4-6) show ?thesis by simp
    qed
  next
    case False
    with c have "plain_component c" by (simp add: plain_component_def)
    with 2(3) False 2(4-6) show ?thesis by simp
  qed
qed simp

lemma walk_plain_components:
  "\<forall>c \<in> set cs. plain_component c \<Longrightarrow> walk st cs = Some (rev cs @ st)"
  by (induction cs arbitrary: st) (auto simp: plain_component_def)

lemma components_join_gen:
  "\<forall>c \<in> set st. proper c \<Longrightarrow> t = [] \<or> hd t = CHR ''/'' \<Longrightarrow>
   components (join st @ t) = rev st @ components t"
proof (induction st arbitrary: t)
  case (Cons c st)
  then have c: "CHR ''/'' \<notin> set c" "c \<noteq> []" by (auto simp: proper_def)
  have "components (join (c # st) @ t) = components (join st @ CHR ''/'' # c @ t)"
    by (simp add: join_Cons)
  also have "\<dots> = rev st @ components (CHR ''/'' # c @ t)"
    using Cons by simp
  also have "components (CHR ''/'' # c @ t) = c # components t"
    using components_append [OF c(1) Cons.prems(2)] c(2) by simp
  finally show ?case by simp
qed simp

lemma chunks_join_gen:
  "\<forall>c \<in> set st. proper c \<Longrightarrow> t = [] \<or> hd t = CHR ''/'' \<Longrightarrow>
   set (chunks (join st @ t)) \<subseteq> insert [] (set st \<union> set (chunks t))"
proof (induction st arbitrary: t)
  case (Cons c st)
  have "set (chunks (join st @ CHR ''/'' # c @ t))
    \<subseteq> insert [] (set st \<union> set (chunks (CHR ''/'' # c @ t)))"
    using Cons.prems by (intro Cons.IH) simp_all
  moreover have "set (chunks (CHR ''/'' # c @ t)) \<subseteq> insert [] (insert c (set (chunks t)))"
    using Cons.prems by (cases t) (auto simp: chunks_append chunks_single proper_def)
  moreover have "join (c # st) @ t = join st @ CHR ''/'' # c @ t" by (simp add: join_Cons)
  ultimately show ?case by auto
qed auto

text \<open>A rendered path: plain components, each after one slash, and maybe a final slash.\<close>

definition safe_form :: "string \<Rightarrow> bool" where
  "safe_form p \<longleftrightarrow> (\<exists>cs sl. (\<forall>c \<in> set cs. plain_component c) \<and> (cs = [] \<longrightarrow> sl) \<and>
     p = join cs @ (if sl then ''/'' else []))"

lemma safe_path_form: "safe_path url = Some p \<Longrightarrow> safe_form p"
proof -
  assume "safe_path url = Some p"
  then obtain st where st: "walk [] (components url) = Some st"
    "p = join st @ (if st = [] \<or> last url = CHR ''/'' then ''/'' else [])"
    by (auto simp: safe_path_def split: if_splits)
  have "\<forall>c \<in> set st. plain_component c"
    by (rule walk_plain [OF st(1)]) (auto dest: components_proper)
  with st(2) show ?thesis
    unfolding safe_form_def by (intro exI [of _ st] exI [of _ "st = [] \<or> last url = CHR ''/''"]) simp
qed

lemma last_join: "\<forall>c \<in> set cs. proper c \<Longrightarrow> cs \<noteq> [] \<Longrightarrow> last (join cs) \<noteq> CHR ''/''"
proof (cases cs)
  case (Cons c cs')
  assume "\<forall>c \<in> set cs. proper c"
  with Cons show ?thesis by (auto simp: join_Cons proper_def last_neq)
qed simp

lemma hd_join: "cs \<noteq> [] \<Longrightarrow> join cs \<noteq> [] \<and> hd (join cs @ t) = CHR ''/''"
  by (cases "rev cs") (auto simp: join_def)

lemma safe_form_hd: "safe_form p \<Longrightarrow> p \<noteq> [] \<and> hd p = CHR ''/''"
  using hd_join unfolding safe_form_def by (metis append_Nil join_Nil list.distinct(1) list.sel(1) append_is_Nil_conv)

lemma safe_form_chunks: "safe_form p \<Longrightarrow> c \<in> set (chunks p) \<Longrightarrow> c \<noteq> ''.'' \<and> c \<noteq> ''..''"
proof -
  assume "safe_form p" "c \<in> set (chunks p)"
  then obtain cs sl where *: "\<forall>c \<in> set cs. plain_component c"
    "p = join cs @ (if sl then ''/'' else [])" by (auto simp: safe_form_def)
  from * \<open>c \<in> _\<close> chunks_join_gen [of cs "if sl then ''/'' else []"] have "c \<in> insert [] (set cs)"
    by (auto simp: plain_component_def split: if_splits)
  with *(1) show ?thesis by (auto simp: plain_component_def)
qed

lemma safe_path_safe_form: "safe_form p \<Longrightarrow> safe_path p = Some p"
proof -
  assume p: "safe_form p"
  then obtain cs sl where *: "\<forall>c \<in> set cs. plain_component c" "cs = [] \<longrightarrow> sl"
    "p = join cs @ (if sl then ''/'' else [])" by (auto simp: safe_form_def)
  from * have pr: "\<forall>c \<in> set cs. proper c" by (auto simp: plain_component_def)
  have "components p = rev cs"
    using components_join_gen [OF pr, of "if sl then ''/'' else []"] * by (cases sl) auto
  then have "walk [] (components p) = Some cs" using walk_plain_components [of "rev cs" "[]"] * by simp
  with safe_form_hd [OF p] * last_join [OF pr] show ?thesis
    by (auto simp: safe_path_def)
qed

text \<open>Two adjacent slashes leave an empty chunk between two others.\<close>

lemma chunks_double_slash:
  "chunks (u @ ''//'' @ v) = butlast (chunks u) @ [last (chunks u), []] @ chunks v"
proof (induction u)
  case (Cons a u)
  then show ?case by (cases "chunks u") (auto split: if_splits)
qed simp

lemma join_snoc: "join (cs @ [c]) = CHR ''/'' # c @ join cs"
  by (simp add: join_def)

lemma chunks_join:
  "\<forall>c \<in> set cs. proper c \<Longrightarrow> chunks (join cs @ (if sl then ''/'' else []))
     = [] # rev cs @ (if sl then [[]] else [])"
proof (induction cs rule: rev_induct)
  case (snoc c cs)
  then have "CHR ''/'' \<notin> set c" by (simp add: proper_def)
  with snoc show ?case by (auto simp: join_snoc chunks_append)
qed simp

lemma safe_form_no_double_slash: "safe_form p \<Longrightarrow> \<not> sublist ''//'' p"
proof
  assume "safe_form p" "sublist ''//'' p"
  then obtain cs sl u v where *: "\<forall>c \<in> set cs. plain_component c" "cs = [] \<longrightarrow> sl"
    "p = join cs @ (if sl then ''/'' else [])" "p = u @ ''//'' @ v"
    by (auto simp: safe_form_def sublist_def)
  then have pr: "\<forall>c \<in> set cs. proper c" by (auto simp: plain_component_def)
  have "[] # rev cs @ (if sl then [[]] else [])
      = butlast (chunks u) @ [last (chunks u), []] @ chunks v"
    using chunks_join [OF pr, of sl] chunks_double_slash [of u v] unfolding *(3) [symmetric] *(4)
    by metis
  then have "tl ([] # rev cs @ (if sl then [[]] else []))
      = tl (butlast (chunks u) @ [last (chunks u), []] @ chunks v)" by simp
  then have e: "rev cs @ (if sl then [[]] else []) = tl (chunks u) @ [] # chunks v"
    by (cases "chunks u" rule: rev_cases) (auto simp: tl_append split: list.splits)
  then have "[] \<in> set (butlast (rev cs @ (if sl then [[]] else [])))"
    by (simp add: butlast_append)
  then have "[] \<in> set cs"
    by (cases cs) (auto simp: butlast_append split: if_splits dest: in_set_butlastD)
  with pr show False by (auto simp: proper_def)
qed

section \<open>Failure\<close>

text \<open>\<open>climb cs\<close>: the directory level after the components \<open>cs\<close>.\<close>

definition climb :: "string list \<Rightarrow> int" where
  "climb cs = int (length (filter plain_component cs)) - int (length (filter ((=) ''..'') cs))"

lemma climb_Nil [simp]: "climb [] = 0"
  by (simp add: climb_def)

lemma climb_Cons: "proper c \<Longrightarrow>
  climb (c # cs) = (if c = ''.'' then 0 else if c = ''..'' then -1 else 1) + climb cs"
  by (auto simp: climb_def plain_component_def)

lemma ex_take_Cons: "(\<exists>k \<le> length (c # cs). P (take k (c # cs))) \<longleftrightarrow>
  P [] \<or> (\<exists>k \<le> length cs. P (c # take k cs))"
  by (metis length_Cons not0_implies_Suc not_less_eq_eq take0 take_Suc_Cons zero_le)

lemma walk_None_iff:
  assumes "\<forall>c \<in> set cs. proper c"
  shows "walk st cs = None \<longleftrightarrow> (\<exists>k \<le> length cs. int (length st) + climb (take k cs) < 0)"
  using assms
proof (induction cs arbitrary: st)
  case (Cons c cs)
  then have c: "proper c" and IH: "walk st cs = None \<longleftrightarrow>
      (\<exists>k \<le> length cs. int (length st) + climb (take k cs) < 0)" for st by auto
  have "(\<exists>k \<le> length (c # cs). int (length st) + climb (take k (c # cs)) < 0) \<longleftrightarrow>
    (\<exists>k \<le> length cs. int (length st) + climb (c # take k cs) < 0)"
    by (subst ex_take_Cons [of _ _ "\<lambda>x. int (length st) + climb x < 0"]) simp
  also have "\<dots> \<longleftrightarrow> walk st (c # cs) = None"
  proof (cases "c = ''..'' \<and> st = []")
    case True
    then show ?thesis using climb_Cons [OF c] by (intro iffI exI [of _ 0]) auto
  next
    case False
    then show ?thesis
      by (cases st) (auto simp: climb_Cons [OF c] IH algebra_simps)
  qed
  finally show ?case by simp
qed simp

section \<open>Properties\<close>

text \<open>C1. On every C string the in-place routine computes the component-wise resolution: it
  fails exactly where \<open>safe_path\<close> does and leaves the same path in the buffer.\<close>

theorem make_safe_url_refines_spec:
  assumes "nul_free_str url"
  shows "make_safe_url url = safe_path url"
  using assms by (rule make_safe_url_safe_path)

theorem make_safe_url_refines_spec_witness:
  "make_safe_url ''/abc/../def/.././'' = Some ''/''"
  by (subst make_safe_url_refines_spec) (simp, code_simp)

text \<open>C6. A URL that is let through starts with a slash and contains no empty, \<^verbatim>\<open>.\<close> or \<^verbatim>\<open>..\<close>
  component: it cannot climb out of the directory it is appended to.\<close>

theorem make_safe_url_no_dot_dirs:
  assumes "nul_free_str url" "make_safe_url url = Some p"
  shows "p \<noteq> [] \<and> hd p = CHR ''/'' \<and> \<not> sublist ''//'' p \<and>
    (\<forall>c \<in> set (chunks p). c \<noteq> ''.'' \<and> c \<noteq> ''..'')"
proof -
  have "safe_form p" using assms by (auto simp: make_safe_url_safe_path dest: safe_path_form)
  then show ?thesis
    using safe_form_hd safe_form_no_double_slash safe_form_chunks by blast+
qed

theorem make_safe_url_no_dot_dirs_witness:
  "make_safe_url ''//a/./b/../c/'' = Some ''/a/c/'' \<and> \<not> sublist ''//'' ''/a/c/''"
proof -
  have m: "make_safe_url ''//a/./b/../c/'' = Some ''/a/c/''"
    by (subst make_safe_url_safe_path) (simp, code_simp)
  show ?thesis using m make_safe_url_no_dot_dirs [OF _ m] by simp
qed

text \<open>Resolving is idempotent: a URL that was made safe is left as it is.\<close>

theorem make_safe_url_idempotent:
  assumes "nul_free_str url" "make_safe_url url = Some p"
  shows "make_safe_url p = Some p"
proof -
  have "safe_form p" using assms by (auto simp: make_safe_url_safe_path dest: safe_path_form)
  moreover have "nul_free_str p" using assms(2) by (rule make_safe_url_nul_free)
  ultimately show ?thesis by (simp add: make_safe_url_safe_path safe_path_safe_form)
qed

theorem make_safe_url_idempotent_witness:
  "make_safe_url ''/a/..//b'' = Some ''/b'' \<and> make_safe_url ''/b'' = Some ''/b''"
proof -
  have m: "make_safe_url ''/a/..//b'' = Some ''/b''"
    by (subst make_safe_url_safe_path) (simp, code_simp)
  show ?thesis using m make_safe_url_idempotent [OF _ m] by simp
qed

text \<open>C15. A URL is refused exactly if it does not start with a slash or if, at some point of the
  path, more \<^verbatim>\<open>..\<close> components than names have been seen.\<close>

theorem make_safe_url_refuses:
  assumes "nul_free_str url"
  shows "make_safe_url url = None \<longleftrightarrow>
    (url = [] \<or> hd url \<noteq> CHR ''/'' \<or>
     (\<exists>k \<le> length (components url). climb (take k (components url)) < 0))"
  using walk_None_iff [of "components url" "[]"] components_proper
  by (auto simp: make_safe_url_safe_path [OF assms] safe_path_def)

theorem make_safe_url_refuses_witness: "make_safe_url ''/abc/../def/../../'' = None"
  by (subst make_safe_url_refuses) (simp, code_simp)

end
