(* ===== verification/SafeUrlOld.thy ===== *)
theory SafeUrlOld
  imports SafeUrl
begin

text \<open>
  The fuzz target of the path resolver (\<^verbatim>\<open>devel/fuzz_make_safe_uri.c\<close>): the older resolver, which
  works on a table of chunks, and the program that runs both on an input and traps when they
  disagree.  Assertion failures and writes past the table are the value \<open>Abort\<close>.
\<close>

datatype 'a run = Abort | Return 'a

section \<open>The older resolver\<close>

text \<open>The buffer includes the NUL; \<open>left\<close> writes where \<open>right\<close> has already read.\<close>

function consolidate_loop :: "string \<Rightarrow> nat \<Rightarrow> nat \<Rightarrow> bool \<Rightarrow> string \<times> nat" where
  "consolidate_loop s left right saw_slash =
     (if right < length s \<and> s ! right \<noteq> NUL then
        (if saw_slash then
           (if s ! right = CHR ''/'' then consolidate_loop s left (right + 1) saw_slash
            else consolidate_loop (s[left := s ! right]) (left + 1) (right + 1) False)
         else consolidate_loop (s[left := s ! right]) (left + 1) (right + 1) (s ! right = CHR ''/''))
      else (s, left))"
  by pat_completeness auto
termination
  by (relation "measure (\<lambda>(s, left, right, saw). length s - right)") auto

declare consolidate_loop.simps [simp del]

definition consolidate_slashes :: "string \<Rightarrow> string" where
  "consolidate_slashes s = (let (s, left) = consolidate_loop s 0 0 False in s[left := NUL])"

text \<open>The table has room for \<open>length table\<close> chunks; each is where it starts and how long it is.\<close>

function split_chunks :: "string \<Rightarrow> nat \<Rightarrow> (nat \<times> nat) list \<Rightarrow> nat \<Rightarrow> ((nat \<times> nat) list \<times> nat) option run" where
  "split_chunks url i table num_chunks =
     (if i < length url then
        (let j = scan (\<lambda>c. c \<noteq> CHR ''/'') url i in
         if j = i + 1 \<and> url ! i = CHR ''.'' then split_chunks url (j + 1) table num_chunks
         else if j = i + 2 \<and> url ! i = CHR ''.'' \<and> url ! (i + 1) = CHR ''.'' then
           (if num_chunks = 0 then Return None else split_chunks url (j + 1) table (num_chunks - 1))
         else if num_chunks < length table then
           split_chunks url (j + 1) (table[num_chunks := (i, j - i)]) (num_chunks + 1)
         else Abort)
      else Return (Some (table, num_chunks)))"
  by pat_completeness auto
termination
  by (relation "measure (\<lambda>(url, i, table, n). length url - i)") (auto simp: less_Suc_eq_le intro!: diff_less_mono2 le_imp_less_Suc scan_ge)

declare split_chunks.simps [simp del]

definition memmove :: "string \<Rightarrow> nat \<Rightarrow> nat \<Rightarrow> nat \<Rightarrow> string" where
  "memmove b dst src n = take dst b @ take n (drop src b) @ drop (dst + n) b"

fun reassemble :: "nat \<Rightarrow> (nat \<times> nat) list \<Rightarrow> string \<Rightarrow> nat \<Rightarrow> (string \<times> nat) run" where
  "reassemble urllen [] url pos = Return (url, pos)"
| "reassemble urllen ((start, len) # cs) url pos =
     (if \<not> pos \<le> urllen then Abort
      else
        (let url = url[pos := CHR ''/'']; pos = pos + 1 in
         if \<not> pos + len \<le> urllen \<or> \<not> pos \<le> start then Abort
         else
           (let url = (if pos < start then memmove url pos start len else url)
            in reassemble urllen cs url (pos + len))))"

definition make_safe_url_old :: "string \<Rightarrow> string option run" where
  "make_safe_url_old url =
     (if c_at url 0 \<noteq> CHR ''/'' then Return None
      else
        (let buf = consolidate_slashes (url @ [NUL]);
             urllen = length (cstr buf);
             ends_in_slash = (if urllen > 0 then buf ! (urllen - 1) = CHR ''/'' else True);
             num_slashes = length (filter (\<lambda>c. c = CHR ''/'') (cstr buf)) in
         if \<not> num_slashes > 0 then Abort
         else
           (case split_chunks (cstr buf) 1 (replicate num_slashes (0, 0)) 0 of
              Abort \<Rightarrow> Abort
            | Return None \<Rightarrow> Return None
            | Return (Some (table, num_chunks)) \<Rightarrow>
                (case reassemble urllen (take num_chunks table) buf 0 of
                   Abort \<Rightarrow> Abort
                 | Return (buf, pos) \<Rightarrow>
                     (let (buf, pos) =
                        (if num_chunks = 0 \<or> ends_in_slash then (buf[pos := CHR ''/''], pos + 1) else (buf, pos))
                      in if \<not> pos \<le> urllen then Abort else Return (Some (cstr (buf[pos := NUL]))))))))"

section \<open>The fuzz target\<close>

definition sdup :: "string \<Rightarrow> string" where
  "sdup data = cstr (data @ [NUL])"

definition check :: "string option \<Rightarrow> bool" where
  "check safe = (case safe of None \<Rightarrow> True | Some s \<Rightarrow> \<not> sublist ''/../'' s \<and> \<not> sublist ''/./'' s)"

definition LLVMFuzzerTestOneInput :: "string \<Rightarrow> int run" where
  "LLVMFuzzerTestOneInput data =
     (case make_safe_url_old (sdup data) of
        Abort \<Rightarrow> Abort
      | Return safe1 \<Rightarrow>
          (let safe2 = make_safe_url (sdup data) in
           if \<not> check safe1 \<or> \<not> check safe2 then Abort
           else
             (case safe1 of
                None \<Rightarrow> if safe2 \<noteq> None then Abort else Return 0
              | Some s1 \<Rightarrow> (case safe2 of None \<Rightarrow> Abort | Some s2 \<Rightarrow> if s1 \<noteq> s2 then Abort else Return 0))))"

section \<open>Slashes are consolidated\<close>

fun collapse :: "bool \<Rightarrow> string \<Rightarrow> string" where
  "collapse saw [] = []"
| "collapse saw (c # s) =
     (if c = CHR ''/'' then (if saw then collapse True s else c # collapse True s) else c # collapse False s)"

lemma consolidate_collapse:
  assumes "left \<le> right" "drop right b = s @ [NUL]" "nul_free_str s"
    "consolidate_loop b left right saw = (b', left')"
  shows "take left' b' = take left b @ collapse saw s \<and> left' < length b'"
  using assms
proof (induction s arbitrary: b left right saw)
  case Nil
  then have "b ! right = NUL" "right < length b"
    by (simp add: nth_via_drop, metis append_Nil drop_all linorder_not_less list.distinct(1))
  with Nil show ?case by (simp add: consolidate_loop.simps)
next
  case (Cons c s)
  have r: "right < length b" using Cons.prems(2) by (metis append_Cons drop_all linorder_not_less list.distinct(1))
  then have c: "b ! right = c" "drop (right + 1) b = s @ [NUL]" "c \<noteq> NUL" "nul_free_str s"
    using Cons.prems(2,3) by (auto simp: Cons_nth_drop_Suc [symmetric])
  have l: "left + 1 \<le> right + 1" using Cons.prems(1) by simp
  have d: "drop (right + 1) (b[left := c]) = s @ [NUL]" using Cons.prems(1) c(2) by simp
  have t: "take (left + 1) (b[left := c]) = take left b @ [c]"
    using r Cons.prems(1) by (simp add: take_Suc_conv_app_nth)
  show ?case
  proof (cases "saw \<and> c = CHR ''/''")
    case True
    with Cons.prems(4) r c have "consolidate_loop b left (right + 1) saw = (b', left')"
      by (simp add: consolidate_loop.simps [of b left right])
    from Cons.IH [OF _ c(2,4) this] Cons.prems(1) True show ?thesis by simp
  next
    case False
    with Cons.prems(4) r c have "consolidate_loop (b[left := c]) (left + 1) (right + 1) (c = CHR ''/'') = (b', left')"
      by (simp add: consolidate_loop.simps [of b left right] split: if_splits)
    from Cons.IH [OF l d c(4) this] False t show ?thesis by auto
  qed
qed

lemma set_collapse: "set (collapse saw s) \<subseteq> set s"
  by (induction saw s rule: collapse.induct) auto

lemma consolidate_slashes_collapse:
  assumes "nul_free_str s"
  shows "\<exists>junk. consolidate_slashes (s @ [NUL]) = collapse False s @ NUL # junk"
proof -
  obtain b' left' where l: "consolidate_loop (s @ [NUL]) 0 0 False = (b', left')" by fastforce
  from consolidate_collapse [OF _ _ assms l] have
    "take left' b' = collapse False s" "left' < length b'" by simp_all
  then have "b'[left' := NUL] = collapse False s @ NUL # drop (Suc left') b'"
    by (simp add: upd_conv_take_nth_drop)
  with l show ?thesis by (auto simp: consolidate_slashes_def)
qed

lemma chunks_collapse:
  "filter (\<lambda>c. c \<noteq> []) (chunks (collapse saw s)) = filter (\<lambda>c. c \<noteq> []) (chunks s) \<and>
   (\<not> saw \<longrightarrow> hd (chunks (collapse saw s)) = hd (chunks s))"
proof (induction saw s rule: collapse.induct)
  case (2 saw c s)
  have e: "filter (\<lambda>c. c \<noteq> []) xs = (if hd xs = [] then [] else [hd xs]) @ filter (\<lambda>c. c \<noteq> []) (tl xs)"
    if "xs \<noteq> []" for xs :: "string list" using that by (cases xs) auto
  show ?case
  proof (cases "c = CHR ''/''")
    case True
    with 2 show ?thesis by auto
  next
    case False
    with 2(3) have IH: "filter (\<lambda>c. c \<noteq> []) (chunks (collapse False s)) = filter (\<lambda>c. c \<noteq> []) (chunks s)"
      "hd (chunks (collapse False s)) = hd (chunks s)" by simp_all
    then have "filter (\<lambda>c. c \<noteq> []) (tl (chunks (collapse False s))) = filter (\<lambda>c. c \<noteq> []) (tl (chunks s))"
      using e [of "chunks (collapse False s)"] e [of "chunks s"] by simp
    with IH(2) False show ?thesis by simp
  qed
qed simp

lemma components_collapse [simp]: "components (collapse False s) = components s"
  using chunks_collapse [of False s] by (simp add: components_def)

lemma collapse_True_hd: "collapse True s = [] \<or> hd (collapse True s) \<noteq> CHR ''/''"
  by (induction s) auto

lemma last_collapse_Cons: "(saw \<longrightarrow> x = CHR ''/'') \<Longrightarrow> last (x # collapse saw s) = last (x # s)"
proof (induction saw s arbitrary: x rule: collapse.induct)
  case (2 saw c s)
  from 2(1) [of "CHR ''/''"] 2(2) [of "CHR ''/''"] 2(3) [of c] 2(4) show ?case
    by (cases "c = CHR ''/''"; cases saw) auto
qed simp

lemma last_collapse: "s \<noteq> [] \<Longrightarrow> last (collapse False s) = last s"
  using last_collapse_Cons [of False _ s] last_collapse_Cons [of "hd s = CHR ''/''" "hd s" "tl s"]
  by (cases s) auto

lemma no_double_slash_collapse: "\<not> sublist ''//'' (collapse saw s)"
proof (induction saw s rule: collapse.induct)
  case (2 saw c s)
  have "\<not> prefix ''//'' (CHR ''/'' # collapse True s)"
    using collapse_True_hd [of s] by (cases "collapse True s") auto
  with 2 show ?case by (auto simp: sublist_Cons_right)
qed simp

section \<open>The table of chunks\<close>

text \<open>Chunks follow each other in the buffer, each after a slash of its own, and end by \<open>e\<close>.\<close>

fun fits :: "nat \<Rightarrow> (nat \<times> nat) list \<Rightarrow> nat \<Rightarrow> bool" where
  "fits p [] e \<longleftrightarrow> p \<le> e"
| "fits p ((start, len) # cs) e \<longleftrightarrow> p + 1 \<le> start \<and> fits (start + len) cs e"

fun piece :: "string \<Rightarrow> nat \<times> nat \<Rightarrow> string" where
  "piece url (start, len) = take len (drop start url)"

lemma fits_le: "fits p cs e \<Longrightarrow> p \<le> e"
  by (induction p cs e rule: fits.induct) auto

lemma fits_mono: "fits p cs e \<Longrightarrow> e \<le> e' \<Longrightarrow> fits p cs e'"
  by (induction p cs e rule: fits.induct) auto

lemma fits_take: "fits p cs e \<Longrightarrow> fits p (take k cs) e"
proof (induction p cs e arbitrary: k rule: fits.induct)
  case (2 p start len cs e)
  then show ?case by (cases k) (auto dest: fits_le)
qed simp

lemma fits_snoc: "fits p cs m \<Longrightarrow> m + 1 \<le> start \<Longrightarrow> start + len \<le> e \<Longrightarrow> fits p (cs @ [(start, len)]) e"
  by (induction p cs m rule: fits.induct) auto

definition slashes :: "string \<Rightarrow> nat" where
  "slashes s = length (filter (\<lambda>c. c = CHR ''/'') s)"

lemma slashes_simps [simp]:
  "slashes [] = 0" "slashes (c # s) = (if c = CHR ''/'' then 1 else 0) + slashes s"
  "slashes (a @ b) = slashes a + slashes b"
  by (simp_all add: slashes_def)

lemma slashes_free: "CHR ''/'' \<notin> set c \<Longrightarrow> slashes c = 0"
  by (auto simp: slashes_def filter_empty_conv)

text \<open>The chunks in the table are the names on the stack, and there is room for the rest.\<close>

definition holds :: "string \<Rightarrow> (nat \<times> nat) list \<Rightarrow> nat \<Rightarrow> string list \<Rightarrow> nat \<Rightarrow> string \<Rightarrow> bool" where
  "holds url table n st e rest \<longleftrightarrow> n + slashes rest \<le> length table \<and> fits 0 (take n table) e \<and>
     map (piece url) (take n table) = rev st"

lemma holds_length: "holds url table n st e rest \<Longrightarrow> n = length st \<and> n \<le> length table"
  unfolding holds_def by (metis add_leE length_map length_rev length_take min.absorb2)

lemma holds_skip:
  "holds url table n st e (CHR ''/'' # c @ rest) \<Longrightarrow> e \<le> e' \<Longrightarrow> holds url table n st e' rest"
  by (auto simp: holds_def intro: fits_mono)

lemma holds_pop:
  assumes "holds url table n (d # st) e rest"
  shows "holds url table (n - 1) st e rest"
proof -
  have n: "n = Suc (length st)" "n \<le> length table" using holds_length [OF assms] by auto
  have "take (n - 1) table = take (n - 1) (take n table)" by (simp add: min_def)
  moreover have "take (n - 1) (rev (d # st)) = rev st" using n by simp
  ultimately show ?thesis using assms unfolding holds_def
    by (metis add_leE add_le_mono1 diff_le_self fits_take le_trans take_map)
qed

lemma holds_push:
  assumes "holds url table n st e (CHR ''/'' # c @ rest)" "e + 1 \<le> i" "i + length c \<le> e'"
    "take (length c) (drop i url) = c"
  shows "n < length table \<and> holds url (table[n := (i, length c)]) (n + 1) (c # st) e' rest"
proof -
  from assms(1) have n: "n < length table" by (simp add: holds_def)
  then have t: "take (n + 1) (table[n := (i, length c)]) = take n table @ [(i, length c)]"
    by (simp add: take_Suc_conv_app_nth)
  show ?thesis using assms n unfolding holds_def t by (auto intro: fits_snoc)
qed

lemma split_done: "length url \<le> i \<Longrightarrow> split_chunks url i table n = Return (Some (table, n))"
  by (simp add: split_chunks.simps)

definition split_into :: "string \<Rightarrow> (nat \<times> nat) list option \<Rightarrow> string list option \<Rightarrow> bool" where
  "split_into url = (\<lambda>r w. rel_option (\<lambda>cs st. \<exists>e. fits 0 cs e \<and> map (piece url) cs = rev st \<and>
     e \<le> length url \<and> (e < length url \<or> last url \<noteq> CHR ''/'')) r w)"

definition table_of :: "((nat \<times> nat) list \<times> nat) option \<Rightarrow> (nat \<times> nat) list option" where
  "table_of r = map_option (\<lambda>(table, n). take n table) r"

lemma split_chunks_walk:
  assumes "url = pre @ CHR ''/'' # rest" "\<not> sublist ''//'' url" "holds url table n st (length pre) (CHR ''/'' # rest)"
  shows "\<exists>r. split_chunks url (length pre + 1) table n = Return r \<and>
    split_into url (table_of r) (walk st (components rest)) \<and> (\<forall>t k. r = Some (t, k) \<longrightarrow> k \<le> length t)"
  using assms
proof (induction "length rest" arbitrary: pre rest table n st rule: less_induct)
  case less
  let ?i = "length pre + 1"
  let ?ok = "\<lambda>x w. \<exists>r. x = Return r \<and> split_into url (table_of r) w \<and> (\<forall>t k. r = Some (t, k) \<longrightarrow> k \<le> length t)"
  show ?case
  proof (cases "rest = []")
    case True
    with less.prems(1,3) have "split_into url (table_of (Some (table, n))) (Some st)"
      by (auto simp: split_into_def table_of_def holds_def intro!: exI [of _ "length pre"])
    moreover have "n \<le> length table" using holds_length [OF less.prems(3)] by simp
    ultimately show ?thesis using True less.prems(1) by (simp add: split_done)
  next
    case False
    define c where "c = takeWhile (\<lambda>c. c \<noteq> CHR ''/'') rest"
    define rest' where "rest' = dropWhile (\<lambda>c. c \<noteq> CHR ''/'') rest"
    have rest: "rest = c @ rest'" by (simp add: c_def rest'_def)
    have c: "CHR ''/'' \<notin> set c" by (auto simp: c_def dest: set_takeWhileD)
    have rest': "rest' = [] \<or> hd rest' = CHR ''/''" using hd_dropWhile [of "\<lambda>c. c \<noteq> CHR ''/''" rest] by (auto simp: rest'_def)
    have "hd rest \<noteq> CHR ''/''"
    proof
      assume "hd rest = CHR ''/''"
      with False have "url = pre @ ''//'' @ tl rest" using less.prems(1) by (cases rest) auto
      with less.prems(2) show False by (auto simp: sublist_def)
    qed
    then have ne: "c \<noteq> []" using False by (cases rest) (auto simp: c_def)
    have i: "?i < length url" "drop ?i url = rest" using False by (simp_all add: less.prems(1))
    have j: "scan (\<lambda>c. c \<noteq> CHR ''/'') url ?i = ?i + length c"
      using i by (simp add: scan_takeWhile c_def)
    have nth: "url ! ?i = c ! 0" "1 < length c \<Longrightarrow> url ! (?i + 1) = c ! 1"
      using ne by (simp_all add: less.prems(1) rest nth_append)
    have comps: "components rest = c # components rest'"
      using components_append [OF c rest'] ne by (simp add: rest)
    have next_comp: "?ok (split_chunks url (?i + length c + 1) t k) (walk stk (components rest'))"
      if h: "holds url t k stk (?i + length c) rest'" for t k stk
    proof (cases rest')
      case Nil
      have l: "length url = ?i + length c" by (simp add: less.prems(1) rest Nil)
      have "last url = last c" using ne by (simp add: less.prems(1) rest Nil)
      then have "last url \<noteq> CHR ''/''" using c ne by (metis last_in_set)
      with h have "split_into url (table_of (Some (t, k))) (Some stk)"
        by (auto simp: split_into_def table_of_def holds_def l intro!: exI [of _ "?i + length c"])
      then show ?thesis using holds_length [OF h] by (simp add: Nil split_done l)
    next
      case (Cons d r)
      with rest' have d: "rest' = CHR ''/'' # r" by simp
      have "url = (pre @ CHR ''/'' # c) @ CHR ''/'' # r" by (simp add: less.prems(1) rest d)
      from less.hyps [OF _ this less.prems(2), of t k stk] h
      show ?thesis by (simp add: d rest)
    qed
    have h: "holds url table n st (length pre) (CHR ''/'' # c @ rest')" using less.prems(3) by (simp add: rest)
    have sk: "holds url table n st (?i + length c) rest'" by (rule holds_skip [OF h]) simp
    have dot: "length c = 1 \<and> c ! 0 = CHR ''.'' \<longleftrightarrow> c = ''.''"
      by (cases c) auto
    have dots: "length c = 2 \<and> c ! 0 = CHR ''.'' \<and> c ! 1 = CHR ''.'' \<longleftrightarrow> c = ''..''"
      by (cases c; cases "tl c") auto
    have conds: "?i + length c = ?i + 1 \<and> url ! ?i = CHR ''.'' \<longleftrightarrow> c = ''.''"
      "?i + length c = ?i + 2 \<and> url ! ?i = CHR ''.'' \<and> url ! (?i + 1) = CHR ''.'' \<longleftrightarrow> c = ''..''"
      "?i + length c - ?i = length c"
      using dot dots nth by auto
    have step: "split_chunks url ?i table n =
      (if c = ''.'' then split_chunks url (?i + length c + 1) table n
       else if c = ''..'' then (if n = 0 then Return None else split_chunks url (?i + length c + 1) table (n - 1))
       else if n < length table then split_chunks url (?i + length c + 1) (table[n := (?i, length c)]) (n + 1)
       else Abort)"
      by (subst split_chunks.simps) (simp only: Let_def j conds i(1) if_True)
    consider "c = ''.''" | "c = ''..''" | "c \<noteq> ''.''" "c \<noteq> ''..''" by blast
    then show ?thesis
    proof cases
      case 1
      then show ?thesis unfolding step comps using next_comp [OF sk] by simp
    next
      case 2
      show ?thesis
      proof (cases st)
        case Nil
        with holds_length [OF h] 2 show ?thesis
          unfolding step comps by (simp add: split_into_def table_of_def)
      next
        case (Cons d st')
        have "n \<noteq> 0" using holds_length [OF h] Cons by auto
        moreover have "holds url table (n - 1) st' (?i + length c) rest'"
          using sk unfolding Cons by (rule holds_pop)
        from next_comp [OF this] calculation 2 Cons show ?thesis unfolding step comps by simp
      qed
    next
      case 3
      have "take (length c) (drop ?i url) = c" unfolding i(2) by (simp add: rest)
      then have p: "n < length table \<and> holds url (table[n := (?i, length c)]) (n + 1) (c # st) (?i + length c) rest'"
        by (intro holds_push [OF h]) simp_all
      with next_comp [OF p [THEN conjunct2]] 3 show ?thesis unfolding step comps by simp
    qed
  qed
qed

section \<open>Reassembly\<close>

lemma reassemble_joins:
  assumes "fits p cs e" "pos \<le> p" "e \<le> urllen" "urllen < length b" "drop p b = drop p b0" "length b = length b0"
  shows "\<exists>b' pos'. reassemble urllen cs b pos = Return (b', pos') \<and> pos' \<le> e \<and> length b' = length b \<and>
    take pos' b' = take pos b @ concat (map ((#) (CHR ''/'')) (map (piece b0) cs))"
  using assms
proof (induction p cs e arbitrary: b pos rule: fits.induct)
  case (2 p start len cs e)
  define b1 where "b1 = b[pos := CHR ''/'']"
  define b2 where "b2 = (if pos + 1 < start then memmove b1 (pos + 1) start len else b1)"
  from 2(2) have f: "p + 1 \<le> start" "start + len \<le> e" by (auto dest: fits_le)
  have l: "start + len < length b" using f 2(4,5) by simp
  have d: "drop start b1 = drop start b0"
  proof -
    have "drop start b1 = drop start b" using f 2(3) by (simp add: b1_def)
    also have "\<dots> = drop (start - p) (drop p b)" using f by simp
    also have "\<dots> = drop start b0" using f by (simp add: 2(6))
    finally show ?thesis .
  qed
  have l1: "length b1 = length b" by (simp add: b1_def)
  have t1: "take (pos + 1) b1 = take pos b @ [CHR ''/'']"
    using l f 2(3) by (simp add: b1_def take_Suc_conv_app_nth)
  have p0: "piece b0 (start, len) = take len (drop start b1)" by (simp add: d)
  have l2: "length b2 = length b" using l l1 f 2(3) by (auto simp: b2_def memmove_def)
  have t2: "take (pos + 1 + len) b2 = take pos b @ CHR ''/'' # piece b0 (start, len)"
  proof (cases "pos + 1 < start")
    case True
    then have "b2 = take (pos + 1) b1 @ piece b0 (start, len) @ drop (pos + 1 + len) b1"
      by (simp add: b2_def memmove_def d)
    moreover have "length (piece b0 (start, len)) = len" "length (take (pos + 1) b1) = pos + 1"
      using l l1 f 2(3,7) by simp_all
    moreover have "take (length x + length y) (x @ y @ z) = x @ y" for x y z :: string by simp
    ultimately have "take (pos + 1 + len) b2 = take (pos + 1) b1 @ piece b0 (start, len)" by metis
    then show ?thesis using t1 by simp
  next
    case False
    then have st: "start = pos + 1" using f 2(3) by simp
    have "take (pos + 1 + len) b1 = take (pos + 1) b1 @ piece b0 (start, len)"
      unfolding p0 unfolding st by (rule take_add)
    with False t1 show ?thesis by (simp add: b2_def)
  qed
  have d2: "drop (start + len) b2 = drop (start + len) b0"
  proof -
    have "drop (start + len) b2 = drop (start + len) b1"
      using l l1 f 2(3) by (auto simp: b2_def memmove_def)
    also have "\<dots> = drop len (drop start b1)" by (simp add: add.commute)
    also have "\<dots> = drop (start + len) b0" by (simp add: d add.commute)
    finally show ?thesis .
  qed
  from 2(2) have "fits (start + len) cs e" by simp
  from 2(1) [OF this, of "pos + 1 + len" b2] 2(3-7) f l2 d2 obtain b' pos' where
    r: "reassemble urllen cs b2 (pos + 1 + len) = Return (b', pos')" "pos' \<le> e" "length b' = length b2"
      "take pos' b' = take (pos + 1 + len) b2 @ concat (map ((#) (CHR ''/'')) (map (piece b0) cs))" by auto
  have "reassemble urllen ((start, len) # cs) b pos = reassemble urllen cs b2 (pos + 1 + len)"
    using f 2(3,4) by (simp add: b2_def b1_def Let_def)
  with r l2 t2 show ?case by simp
qed simp

section \<open>The two resolvers agree\<close>

lemma make_safe_url_old_safe_path:
  assumes "nul_free_str url"
  shows "make_safe_url_old url = Return (safe_path url)"
proof (cases "url \<noteq> [] \<and> hd url = CHR ''/''")
  case False
  then have "c_at url 0 \<noteq> CHR ''/''" by (cases url) auto
  with False show ?thesis by (auto simp: make_safe_url_old_def safe_path_def)
next
  case True
  then obtain s where url: "url = CHR ''/'' # s" by (cases url) auto
  define u where "u = collapse False url"
  define rest where "rest = collapse True s"
  have u: "u = CHR ''/'' # rest" by (simp add: u_def rest_def url)
  have nf: "nul_free_str u" using set_collapse [of False url] assms by (auto simp: u_def)
  obtain junk where buf: "consolidate_slashes (url @ [NUL]) = u @ NUL # junk"
    using consolidate_slashes_collapse [OF assms] by (auto simp: u_def)
  have cs: "cstr (u @ NUL # junk) = u" using nf by simp
  let ?table = "replicate (slashes u) (0, 0) :: (nat \<times> nat) list"
  have lastu: "last u = last url" using last_collapse [of url] by (simp add: u_def url)
  have ends: "(u @ NUL # junk) ! (length u - 1) = CHR ''/'' \<longleftrightarrow> last url = CHR ''/''"
    by (simp add: nth_append u last_conv_nth lastu [symmetric])
  have comps: "components rest = components url"
    using components_collapse [of url] by (simp add: u [symmetric] u_def [symmetric]) (simp add: u)
  have "holds u ?table 0 [] (length ([] :: string)) (CHR ''/'' # rest)" by (simp add: holds_def u)
  from split_chunks_walk [OF _ _ this] obtain r where
    r: "split_chunks u 1 ?table 0 = Return r" "split_into u (table_of r) (walk [] (components url))"
      "\<forall>t k. r = Some (t, k) \<longrightarrow> k \<le> length t"
    using no_double_slash_collapse [of False url] by (auto simp: u comps u_def [symmetric])
  have start: "make_safe_url_old url =
    (case r of None \<Rightarrow> Return None
     | Some (table, n) \<Rightarrow>
        (case reassemble (length u) (take n table) (u @ NUL # junk) 0 of
           Abort \<Rightarrow> Abort
         | Return (buf, pos) \<Rightarrow>
            (let (buf, pos) = (if n = 0 \<or> last url = CHR ''/'' then (buf[pos := CHR ''/''], pos + 1) else (buf, pos))
             in if \<not> pos \<le> length u then Abort else Return (Some (cstr (buf[pos := NUL]))))))"
    unfolding make_safe_url_old_def buf cs Let_def ends slashes_def [symmetric] r(1)
    by (simp add: url u split: option.split)
  show ?thesis
  proof (cases r)
    case None
    with r(2) have "walk [] (components url) = None" by (simp add: split_into_def table_of_def)
    with None start show ?thesis by (simp add: safe_path_def url)
  next
    case (Some p)
    then obtain table n where t: "r = Some (table, n)" by (cases p) auto
    let ?cs = "take n table"
    from r(2) obtain st e where w: "walk [] (components url) = Some st" and f: "fits 0 ?cs e"
      "map (piece u) ?cs = rev st" "e \<le> length u" "e < length u \<or> last u \<noteq> CHR ''/''"
      by (auto simp: t split_into_def table_of_def rel_option_iff split: option.splits)
    have n: "n = 0 \<longleftrightarrow> st = []"
    proof -
      have "length ?cs = n" using r(3) t by simp
      with arg_cong [OF f(2), of length] have "length st = n" by simp
      then show ?thesis by auto
    qed
    obtain b pos where b: "reassemble (length u) ?cs (u @ NUL # junk) 0 = Return (b, pos)" "pos \<le> e"
      "length b = length (u @ NUL # junk)"
      "take pos b = concat (map ((#) (CHR ''/'')) (map (piece (u @ NUL # junk)) ?cs))"
      using reassemble_joins [OF f(1), of 0 "length u" "u @ NUL # junk" "u @ NUL # junk"] f(3) by auto
    have fits_piece: "fits p cs m \<Longrightarrow> m \<le> length u \<Longrightarrow> map (piece (u @ x)) cs = map (piece u) cs" for p cs m x
      by (induction p cs m rule: fits.induct) (auto dest: fits_le)
    have taken: "take pos b = join st"
      by (simp only: b(4) fits_piece [OF f(1,3)] f(2) join_def)
    let ?tail = "if st = [] \<or> last url = CHR ''/'' then ''/'' else []"
    have len: "length u < length b" "0 < length u" using b(3) by (simp_all add: u)
    have "cs = [] \<Longrightarrow> reassemble (length u) cs x 0 = Return (x, 0)" for cs x by simp
    then have pos: "pos + length ?tail \<le> length u"
      using b(1,2) f(3,4) len(2) n by (auto simp: lastu Suc_le_eq)
    have nfj: "nul_free_str (join st)"
    proof -
      have "set (piece u c) \<subseteq> set u" for c by (cases c) (auto dest: in_set_takeD in_set_dropD)
      moreover have "set st = piece u ` set ?cs" by (metis f(2) list.set_map set_rev)
      ultimately show ?thesis using nf by (auto simp: join_def)
    qed
    have cut: "cstr (x[k := NUL]) = take k x" if "k < length x" "nul_free_str (take k x)" for x :: string and k
      using that by (simp add: upd_conv_take_nth_drop)
    have "make_safe_url_old url = Return (Some (join st @ ?tail))"
    proof (cases "st = [] \<or> last url = CHR ''/''")
      case True
      then have "take (pos + 1) (b[pos := CHR ''/'']) = join st @ ''/''"
        using pos len taken by (simp add: take_Suc_conv_app_nth)
      with True show ?thesis using nfj pos len
        by (simp add: start t b(1) n cut)
    next
      case False
      with pos len nfj show ?thesis by (simp add: start t b(1) n cut taken)
    qed
    with w show ?thesis by (simp add: safe_path_def url)
  qed
qed

lemma no_dots:
  assumes "safe_form p"
  shows "\<not> sublist ''/../'' p \<and> \<not> sublist ''/./'' p"
proof -
  have m: "c \<in> set (chunks p)" if "p = a @ CHR ''/'' # c @ CHR ''/'' # b" "CHR ''/'' \<notin> set c" for a b c
    by (simp add: that(1) chunks_slash_append chunks_single [OF that(2)])
  have "\<not> sublist (CHR ''/'' # c @ ''/'') p" if "c \<in> {''.'', ''..''}" for c
  proof
    assume "sublist (CHR ''/'' # c @ ''/'') p"
    then obtain a b where "p = a @ CHR ''/'' # c @ CHR ''/'' # b" by (auto simp: sublist_def)
    from m [OF this] that safe_form_chunks [OF assms, of c] show False by auto
  qed
  from this [of "''..''"] this [of "''.''"] show ?thesis by simp
qed

text \<open>C36. The in-place resolver and the older one with its table of chunks are equivalent: on every
  input they give the same path or both refuse, and the older one never fails an assertion nor
  writes past its table.\<close>

theorem make_safe_url_old_agrees: "make_safe_url_old (cstr url) = Return (make_safe_url (cstr url))"
  by (simp add: make_safe_url_old_safe_path make_safe_url_safe_path)

text \<open>The fuzz target accepts every input: it never traps, whatever the bytes are.\<close>

theorem fuzz_target_never_traps: "LLVMFuzzerTestOneInput data = Return 0"
proof -
  have "sdup data = cstr data" by (induction data) (auto simp: sdup_def cstr_Cons)
  then have old: "make_safe_url_old (sdup data) = Return (safe_path (cstr data))"
    and new: "make_safe_url (sdup data) = safe_path (cstr data)"
    by (simp_all add: make_safe_url_old_safe_path make_safe_url_safe_path)
  have "check (safe_path (cstr data))"
    using no_dots [OF safe_path_form] by (auto simp: check_def split: option.split)
  with old new show ?thesis by (simp add: LLVMFuzzerTestOneInput_def Let_def split: option.split)
qed

end
