(* ===== verification/Libc.thy ===== *)
theory Libc
  imports Prelude
begin

text \<open>
  The part of the C library the program relies on: character classes and case in the
  \<^verbatim>\<open>C\<close> locale, string comparison and search, \<^verbatim>\<open>strtoll\<close>, the integer conversions of
  \<^verbatim>\<open>printf\<close>, and \<^verbatim>\<open>qsort\<close> and \<^verbatim>\<open>bsearch\<close> with the laws a comparison function has to obey.
\<close>

section \<open>Character classes and case\<close>

definition isdigit :: "char \<Rightarrow> bool" where
  "isdigit c \<longleftrightarrow> 48 \<le> byte c \<and> byte c \<le> 57"

definition isxdigit :: "char \<Rightarrow> bool" where
  "isxdigit c \<longleftrightarrow> isdigit c \<or> (65 \<le> byte c \<and> byte c \<le> 70) \<or> (97 \<le> byte c \<and> byte c \<le> 102)"

definition isspace :: "char \<Rightarrow> bool" where
  "isspace c \<longleftrightarrow> byte c = 32 \<or> (9 \<le> byte c \<and> byte c \<le> 13)"

definition tolower :: "char \<Rightarrow> char" where
  "tolower c = (if 65 \<le> byte c \<and> byte c \<le> 90 then char_of (byte c + 32) else c)"

definition toupper :: "char \<Rightarrow> char" where
  "toupper c = (if 97 \<le> byte c \<and> byte c \<le> 122 then char_of (byte c - 32) else c)"

lemma byte_tolower: "byte (tolower c) = (if 65 \<le> byte c \<and> byte c \<le> 90 then byte c + 32 else byte c)"
  by (simp add: tolower_def byte_char_of)

lemma byte_toupper: "byte (toupper c) = (if 97 \<le> byte c \<and> byte c \<le> 122 then byte c - 32 else byte c)"
  using byte_char_of [of "byte c - 32"] byte_less [of c] by (simp add: toupper_def del: byte_less)

lemma tolower_NUL_iff [simp]: "tolower c = NUL \<longleftrightarrow> c = NUL"
  using byte_tolower [of c] byte_NUL_iff [of "tolower c"] by (cases "c = NUL") (auto split: if_splits)

lemma toupper_NUL_iff [simp]: "toupper c = NUL \<longleftrightarrow> c = NUL"
  using byte_toupper [of c] byte_NUL_iff [of "toupper c"] by (cases "c = NUL") (auto split: if_splits)

section \<open>Comparison\<close>

text \<open>Only the sign of the result is specified; bytes compare as \<^verbatim>\<open>unsigned char\<close>.\<close>

fun strcmp :: "string \<Rightarrow> string \<Rightarrow> int" where
  "strcmp [] [] = 0"
| "strcmp [] (b # bs) = -1"
| "strcmp (a # as) [] = 1"
| "strcmp (a # as) (b # bs) =
     (if byte a < byte b then -1 else if byte b < byte a then 1 else strcmp as bs)"

definition strcasecmp :: "string \<Rightarrow> string \<Rightarrow> int" where
  "strcasecmp s t = strcmp (map tolower s) (map tolower t)"

fun strncmp :: "string \<Rightarrow> string \<Rightarrow> nat \<Rightarrow> int" where
  "strncmp s t n = strcmp (take n s) (take n t)"

lemma strcmp_eq_0 [simp]: "strcmp s t = 0 \<longleftrightarrow> s = t"
  by (induction s t rule: strcmp.induct) (auto simp: not_less order_antisym_conv)

lemma strcmp_less: "strcmp s t < 0 \<longleftrightarrow> s < t"
  by (induction s t rule: strcmp.induct) (auto simp: less_char_def byte_def)

lemma strcmp_sym: "strcmp t s = - strcmp s t"
  by (induction s t rule: strcmp.induct) auto

lemma strcmp_le: "strcmp s t \<le> 0 \<longleftrightarrow> s \<le> t"
  using strcmp_less [of s t] strcmp_eq_0 [of s t] by (metis order.order_iff_strict)

lemma strcasecmp_eq_0: "strcasecmp s t = 0 \<longleftrightarrow> map tolower s = map tolower t"
  by (simp add: strcasecmp_def)

section \<open>Search\<close>

fun strchr :: "string \<Rightarrow> char \<Rightarrow> nat option" where
  "strchr [] c = None"
| "strchr (x # s) c = (if x = c then Some 0 else map_option Suc (strchr s c))"

fun find_sub :: "(string \<Rightarrow> bool) \<Rightarrow> string \<Rightarrow> nat option" where
  "find_sub p [] = (if p [] then Some 0 else None)"
| "find_sub p (x # s) = (if p (x # s) then Some 0 else map_option Suc (find_sub p s))"

definition strstr :: "string \<Rightarrow> string \<Rightarrow> nat option" where
  "strstr s t = find_sub (prefix t) s"

definition strcasestr :: "string \<Rightarrow> string \<Rightarrow> nat option" where
  "strcasestr s t = find_sub (\<lambda>u. prefix (map tolower t) (map tolower u)) s"

lemma strchr_None [simp]: "strchr s c = None \<longleftrightarrow> c \<notin> set s"
  by (induction s) auto

lemma strchr_Some: "strchr s c = Some i \<Longrightarrow> take i s = takeWhile (\<lambda>x. x \<noteq> c) s \<and> i < length s \<and> s ! i = c"
  by (induction s arbitrary: i) (auto split: if_splits)

lemma find_sub_Some:
  "find_sub p s = Some i \<longleftrightarrow> i \<le> length s \<and> p (drop i s) \<and> (\<forall>j < i. \<not> p (drop j s))"
proof (induction s arbitrary: i)
  case (Cons a s)
  have "(\<forall>j < Suc k. \<not> p (drop j (a # s))) \<longleftrightarrow> \<not> p (a # s) \<and> (\<forall>j < k. \<not> p (drop j s))" for k
    by (auto simp: less_Suc_eq_0_disj)
  then show ?case by (cases i) (auto simp: Cons.IH)
qed auto

lemma find_sub_None: "find_sub p s = None \<longleftrightarrow> (\<forall>i \<le> length s. \<not> p (drop i s))"
proof (induction s)
  case (Cons a s)
  have "(\<forall>i \<le> length (a # s). \<not> p (drop i (a # s)))
    \<longleftrightarrow> \<not> p (a # s) \<and> (\<forall>i \<le> length s. \<not> p (drop i s))"
    by (metis drop0 drop_Suc_Cons length_Cons not0_implies_Suc not_less_eq_eq zero_le)
  then show ?case by (simp add: Cons.IH)
qed simp

section \<open>Numbers\<close>

definition digit_val :: "char \<Rightarrow> nat" where
  "digit_val c = byte c - 48"

definition digits_val :: "string \<Rightarrow> nat" where
  "digits_val s = foldl (\<lambda>n c. 10 * n + digit_val c) 0 s"

abbreviation LLONG_MAX :: int where "LLONG_MAX \<equiv> 2 ^ 63 - 1"
abbreviation LLONG_MIN :: int where "LLONG_MIN \<equiv> - (2 ^ 63)"

text \<open>\<^verbatim>\<open>strtoll(s, &end, 10)\<close>: the value, the index of \<^verbatim>\<open>end\<close> and whether \<^verbatim>\<open>errno\<close> is
  \<^verbatim>\<open>ERANGE\<close>.\<close>

definition strtoll :: "string \<Rightarrow> int \<times> nat \<times> bool" where
  "strtoll s =
     (let ws = scan isspace s 0;
          neg = (c_at s ws = CHR ''-'');
          st = (if neg \<or> c_at s ws = CHR ''+'' then ws + 1 else ws);
          en = scan isdigit s st;
          v = int (digits_val (take (en - st) (drop st s)))
      in if en = st then (0, 0, False)
         else if neg then (if v > 2 ^ 63 then (LLONG_MIN, en, True) else (- v, en, False))
         else (if v > LLONG_MAX then (LLONG_MAX, en, True) else (v, en, False)))"

definition digit_char :: "nat \<Rightarrow> char" where
  "digit_char n = char_of (48 + n)"

text \<open>The conversions \<^verbatim>\<open>%llu\<close>, \<^verbatim>\<open>%d\<close> and the field width \<^verbatim>\<open>%10llu\<close>.\<close>

fun dec :: "nat \<Rightarrow> string" where
  "dec n = (if n < 10 then [digit_char n] else dec (n div 10) @ [digit_char (n mod 10)])"

declare dec.simps [simp del]

definition dec_int :: "int \<Rightarrow> string" where
  "dec_int i = (if i < 0 then CHR ''-'' # dec (nat (- i)) else dec (nat i))"

definition pad_left :: "nat \<Rightarrow> string \<Rightarrow> string" where
  "pad_left w s = replicate (w - length s) (CHR '' '') @ s"

text \<open>The cast \<^verbatim>\<open>llu(x)\<close> of a signed 64-bit value.\<close>

definition llu :: "int \<Rightarrow> nat" where
  "llu x = nat (x mod 2 ^ 64)"

lemma llu_id: "0 \<le> x \<Longrightarrow> x < 2 ^ 64 \<Longrightarrow> llu x = nat x"
  by (simp add: llu_def)

lemma byte_digit_char: "n < 10 \<Longrightarrow> byte (digit_char n) = 48 + n"
  by (simp add: digit_char_def byte_char_of)

lemma isdigit_digit_char: "n < 10 \<Longrightarrow> isdigit (digit_char n)"
  by (simp add: isdigit_def byte_digit_char)

lemma dec_digits: "\<forall>c \<in> set (dec n). isdigit c"
proof (induction n rule: dec.induct)
  case (1 n)
  then show ?case by (auto simp: dec.simps [of n] isdigit_digit_char)
qed

lemma dec_ne [simp]: "dec n \<noteq> []"
  by (simp add: dec.simps [of n])

lemma digits_val_snoc: "digits_val (s @ [c]) = 10 * digits_val s + digit_val c"
  by (simp add: digits_val_def)

lemma digits_val_dec [simp]: "digits_val (dec n) = n"
proof (induction n rule: dec.induct)
  case (1 n)
  show ?case
  proof (cases "n < 10")
    case True
    then show ?thesis
      by (simp add: dec.simps [of n] digits_val_def digit_val_def byte_digit_char)
  next
    case False
    with 1 show ?thesis
      by (simp add: dec.simps [of n] digits_val_snoc digit_val_def byte_digit_char)
  qed
qed

lemma dec_inject [simp]: "dec m = dec n \<longleftrightarrow> m = n"
  by (metis digits_val_dec)

lemma length_dec: "n < 10 ^ k \<Longrightarrow> 0 < k \<Longrightarrow> length (dec n) \<le> k"
proof (induction k arbitrary: n)
  case (Suc k)
  show ?case
  proof (cases "n < 10")
    case True
    then show ?thesis by (simp add: dec.simps [of n])
  next
    case False
    with Suc.prems have "0 < k" by (cases k) auto
    moreover from Suc.prems have "n div 10 < 10 ^ k" by (simp add: less_mult_imp_div_less mult.commute)
    ultimately have "length (dec (n div 10)) \<le> k" using Suc.IH by blast
    with False show ?thesis by (simp add: dec.simps [of n])
  qed
qed simp

section \<open>Sorting and searching with a comparison function\<close>

text \<open>
  \<^verbatim>\<open>qsort\<close> and \<^verbatim>\<open>bsearch\<close> take the order as a comparison function.  The locale states what
  such a function promises, and proves once what the two library routines then deliver.
\<close>

fun insert_cmp :: "('a \<Rightarrow> 'a \<Rightarrow> int) \<Rightarrow> 'a \<Rightarrow> 'a list \<Rightarrow> 'a list" where
  "insert_cmp cmp x [] = [x]"
| "insert_cmp cmp x (y # ys) =
     (if cmp x y \<le> 0 then x # y # ys else y # insert_cmp cmp x ys)"

fun qsort :: "('a \<Rightarrow> 'a \<Rightarrow> int) \<Rightarrow> 'a list \<Rightarrow> 'a list" where
  "qsort cmp [] = []"
| "qsort cmp (x # xs) = insert_cmp cmp x (qsort cmp xs)"

function bsearch_loop :: "('k \<Rightarrow> 'a \<Rightarrow> int) \<Rightarrow> 'k \<Rightarrow> 'a list \<Rightarrow> nat \<Rightarrow> nat \<Rightarrow> 'a option" where
  "bsearch_loop kcmp k xs l u =
     (if l < u then
        (let idx = (l + u) div 2; c = kcmp k (xs ! idx) in
         if c < 0 then bsearch_loop kcmp k xs l idx
         else if c > 0 then bsearch_loop kcmp k xs (idx + 1) u
         else Some (xs ! idx))
      else None)"
  by pat_completeness auto
termination
  by (relation "measure (\<lambda>(kcmp, k, xs, l, u). u - l)") auto

declare bsearch_loop.simps [simp del]

definition bsearch :: "('k \<Rightarrow> 'a \<Rightarrow> int) \<Rightarrow> 'k \<Rightarrow> 'a list \<Rightarrow> 'a option" where
  "bsearch kcmp k xs = bsearch_loop kcmp k xs 0 (length xs)"

lemma mset_insert_cmp [simp]: "mset (insert_cmp cmp x xs) = add_mset x (mset xs)"
  by (induction xs) auto

lemma mset_qsort [simp]: "mset (qsort cmp xs) = mset xs"
  by (induction xs) auto

lemma set_insert_cmp [simp]: "set (insert_cmp cmp x xs) = insert x (set xs)"
  by (metis mset_insert_cmp set_mset_add_mset_insert set_mset_mset)

lemma set_qsort [simp]: "set (qsort cmp xs) = set xs"
  by (metis mset_qsort set_mset_mset)

lemma length_qsort [simp]: "length (qsort cmp xs) = length xs"
  by (metis mset_qsort size_mset)

locale comparison =
  fixes cmp :: "'a \<Rightarrow> 'a \<Rightarrow> int"
  assumes cmp_sym: "cmp y x = - cmp x y"
    and cmp_trans: "cmp x y \<le> 0 \<Longrightarrow> cmp y z \<le> 0 \<Longrightarrow> cmp x z \<le> 0"
begin

lemma insert_sorted:
  "sorted_wrt (\<lambda>x y. cmp x y \<le> 0) xs \<Longrightarrow> sorted_wrt (\<lambda>x y. cmp x y \<le> 0) (insert_cmp cmp x xs)"
proof (induction xs)
  case (Cons y ys)
  show ?case
  proof (cases "cmp x y \<le> 0")
    case True
    with Cons.prems show ?thesis by (auto intro: cmp_trans)
  next
    case False
    then have "cmp y x \<le> 0" using cmp_sym [of x y] by simp
    with False Cons show ?thesis by auto
  qed
qed simp

lemma sorted: "sorted_wrt (\<lambda>x y. cmp x y \<le> 0) (qsort cmp xs)"
  by (induction xs) (simp_all add: insert_sorted)

text \<open>The C standard leaves the algorithm open.  Where no two elements compare equal, the
  sorted permutation is unique, so any conforming \<^verbatim>\<open>qsort\<close> returns this one.\<close>

lemma sorted_unique:
  assumes "\<And>x y. x \<in> set xs \<Longrightarrow> y \<in> set xs \<Longrightarrow> cmp x y = 0 \<Longrightarrow> x = y"
  shows "sorted_wrt (\<lambda>x y. cmp x y \<le> 0) xs \<Longrightarrow> sorted_wrt (\<lambda>x y. cmp x y \<le> 0) ys \<Longrightarrow>
    mset xs = mset ys \<Longrightarrow> xs = ys"
  using assms
proof (induction xs arbitrary: ys)
  case (Cons x xs)
  then obtain y ys' where ys: "ys = y # ys'" by (cases ys) auto
  have mem: "set (x # xs) = set ys" using Cons.prems(3) by (metis set_mset_mset)
  have "x = y"
  proof (rule ccontr)
    assume ne: "x \<noteq> y"
    with mem ys have "x \<in> set ys'" "y \<in> set xs" by auto
    with Cons.prems(1,2) ys have "cmp y x \<le> 0" "cmp x y \<le> 0" by auto
    then have "cmp x y = 0" using cmp_sym [of y x] by simp
    with Cons.prems(4) ne \<open>y \<in> set xs\<close> show False by simp
  qed
  moreover from this Cons.prems ys have "xs = ys'" by (intro Cons.IH) auto
  ultimately show ?case by (simp add: ys)
qed simp

lemma qsort_unique:
  assumes "\<And>x y. x \<in> set xs \<Longrightarrow> y \<in> set xs \<Longrightarrow> cmp x y = 0 \<Longrightarrow> x = y"
    and "sorted_wrt (\<lambda>x y. cmp x y \<le> 0) ys" "mset ys = mset xs"
  shows "qsort cmp xs = ys"
  using assms by (intro sorted_unique) (auto simp: sorted)

end

locale key_search = comparison cmp for cmp :: "'a \<Rightarrow> 'a \<Rightarrow> int" +
  fixes kcmp :: "'k \<Rightarrow> 'a \<Rightarrow> int"
  assumes below: "kcmp k x < 0 \<Longrightarrow> cmp x y \<le> 0 \<Longrightarrow> kcmp k y < 0"
    and above: "0 < kcmp k y \<Longrightarrow> cmp x y \<le> 0 \<Longrightarrow> 0 < kcmp k x"
begin

lemma bsearch_loop_correct:
  assumes "sorted_wrt (\<lambda>x y. cmp x y \<le> 0) xs" "u \<le> length xs"
  shows "case bsearch_loop kcmp k xs l u of
      Some x \<Rightarrow> (\<exists>i. l \<le> i \<and> i < u \<and> x = xs ! i \<and> kcmp k x = 0)
    | None \<Rightarrow> (\<forall>i. l \<le> i \<and> i < u \<longrightarrow> kcmp k (xs ! i) \<noteq> 0)"
  using assms(2)
proof (induction "u - l" arbitrary: l u rule: less_induct)
  case less
  have le: "cmp (xs ! i) (xs ! j) \<le> 0" if "i < j" "j < length xs" for i j
    using sorted_wrt_nth_less [OF assms(1) that] .
  show ?case
  proof (cases "l < u")
    case False
    then show ?thesis by (simp add: bsearch_loop.simps [of kcmp k xs l u])
  next
    case True
    let ?m = "(l + u) div 2"
    have m: "l \<le> ?m" "?m < u" "?m < length xs" using True less.prems by auto
    consider (lt) "kcmp k (xs ! ?m) < 0" | (gt) "0 < kcmp k (xs ! ?m)" | (eq) "kcmp k (xs ! ?m) = 0"
      by linarith
    then show ?thesis
    proof cases
      case lt
      have up: "kcmp k (xs ! i) \<noteq> 0" if "?m \<le> i" "i < u" for i
        using below [OF lt le [of ?m i]] lt that less.prems by (cases "i = ?m") auto
      from lt True have "bsearch_loop kcmp k xs l u = bsearch_loop kcmp k xs l ?m"
        by (simp add: bsearch_loop.simps [of kcmp k xs l u] Let_def)
      moreover have "?m - l < u - l" "?m \<le> length xs" using m by linarith+
      note IH = less.hyps [OF this]
      moreover have "(\<forall>i. l \<le> i \<and> i < ?m \<longrightarrow> kcmp k (xs ! i) \<noteq> 0) \<Longrightarrow>
          (\<forall>i. l \<le> i \<and> i < u \<longrightarrow> kcmp k (xs ! i) \<noteq> 0)"
        using up by (metis not_le)
      moreover have "i < ?m \<Longrightarrow> i < u" for i using m(2) by linarith
      ultimately show ?thesis
        by (cases "bsearch_loop kcmp k xs l ?m") (simp, fastforce)
    next
      case gt
      have dn: "kcmp k (xs ! i) \<noteq> 0" if "l \<le> i" "i \<le> ?m" for i
        using above [OF gt le [of i ?m]] gt that m by (cases "i = ?m") auto
      from gt True have "bsearch_loop kcmp k xs l u = bsearch_loop kcmp k xs (Suc ?m) u"
        by (simp add: bsearch_loop.simps [of kcmp k xs l u] Let_def)
      moreover have "u - Suc ?m < u - l" using True by simp
      note IH = less.hyps [OF this less.prems]
      moreover have "(\<forall>i. Suc ?m \<le> i \<and> i < u \<longrightarrow> kcmp k (xs ! i) \<noteq> 0) \<Longrightarrow>
          (\<forall>i. l \<le> i \<and> i < u \<longrightarrow> kcmp k (xs ! i) \<noteq> 0)"
        using dn by (metis not_less_eq_eq)
      moreover have "Suc ?m \<le> i \<Longrightarrow> l \<le> i" for i using m(1) by linarith
      ultimately show ?thesis
        by (cases "bsearch_loop kcmp k xs (Suc ?m) u") (simp, fastforce)
    next
      case eq
      with m True show ?thesis
        by (auto simp: bsearch_loop.simps [of kcmp k xs l u] Let_def)
    qed
  qed
qed

lemma bsearch_None:
  "sorted_wrt (\<lambda>x y. cmp x y \<le> 0) xs \<Longrightarrow> bsearch kcmp k xs = None \<longleftrightarrow> (\<forall>x \<in> set xs. kcmp k x \<noteq> 0)"
  using bsearch_loop_correct [where xs = xs and u = "length xs" and k = k and l = 0]
  by (fastforce simp: bsearch_def in_set_conv_nth split: option.splits)

lemma bsearch_Some:
  "sorted_wrt (\<lambda>x y. cmp x y \<le> 0) xs \<Longrightarrow> bsearch kcmp k xs = Some x \<Longrightarrow> x \<in> set xs \<and> kcmp k x = 0"
  using bsearch_loop_correct [where xs = xs and u = "length xs" and k = k and l = 0]
  by (auto simp: bsearch_def in_set_conv_nth split: option.splits)

end

end
