(* ===== verification/Codec.thy ===== *)
theory Codec
  imports Libc
begin

text \<open>
  The character-wise encodings: \<^verbatim>\<open>logencode\<close> for the log, \<^verbatim>\<open>urlencode\<close> and \<^verbatim>\<open>urldecode\<close> for
  URLs, and \<^verbatim>\<open>normalize_path\<close>, which reduces an absolute-form URL to its path.  Two locales
  hold what all encoders that work character by character share.
\<close>

section \<open>Character-wise encoders\<close>

locale char_encoder =
  fixes enc :: "char \<Rightarrow> string" and encode :: "string \<Rightarrow> string"
  assumes encode_Nil: "encode [] = []"
    and encode_Cons: "encode (c # s) = enc c @ encode s"
begin

lemma encode_concat: "encode s = concat (map enc s)"
  by (induction s) (simp_all add: encode_Nil encode_Cons)

lemma encode_append: "encode (s @ t) = encode s @ encode t"
  by (simp add: encode_concat)

lemma encode_all: "(\<And>c. c \<in> set s \<Longrightarrow> \<forall>x \<in> set (enc c). P x) \<Longrightarrow> \<forall>x \<in> set (encode s). P x"
  by (auto simp: encode_concat)

lemma encode_length: "(\<And>c. length (enc c) \<le> k) \<Longrightarrow> length (encode s) \<le> k * length s"
  unfolding encode_concat by (rule concat_map_filter_le)

end

text \<open>An encoder with a decoder that undoes the code of one character at a time.\<close>

locale char_codec = char_encoder +
  fixes decode :: "string \<Rightarrow> string"
  assumes decode_Nil: "decode [] = []"
    and decode_enc: "c \<noteq> NUL \<Longrightarrow> decode (enc c @ t) = c # decode t"
begin

lemma decode_encode: "nul_free_str s \<Longrightarrow> decode (encode s) = s"
  by (induction s) (auto simp: encode_Nil encode_Cons decode_Nil decode_enc)

lemma encode_inj: "nul_free_str s \<Longrightarrow> nul_free_str t \<Longrightarrow> encode s = encode t \<Longrightarrow> s = t"
  by (metis decode_encode)

end

section \<open>Cutting strings\<close>

text \<open>The characters of \<open>src\<close> from \<open>left\<close> up to and without \<open>right\<close>, as a C string.\<close>

definition split_string :: "string \<Rightarrow> nat \<Rightarrow> nat \<Rightarrow> string" where
  "split_string src left right = cstr (take (right - left) (drop left src))"

lemma split_string_nul_free [simp, nul_free]: "nul_free_str (split_string src l r)"
  by (simp add: split_string_def)

lemma split_string_scan:
  "i \<le> length s \<Longrightarrow> split_string s i (scan p s i) = cstr (takeWhile p (drop i s))"
  by (simp add: split_string_def scan_takeWhile takeWhile_eq_take [symmetric])

section \<open>Hexadecimal digits\<close>

definition hex :: string where
  "hex = ''0123456789ABCDEF''"

text \<open>\<^verbatim>\<open>hex[(c >> 4) & 0xF]\<close> and \<^verbatim>\<open>hex[c & 0xF]\<close> on a signed \<^verbatim>\<open>char\<close>: the shift is arithmetic.\<close>

definition hex_hi :: "char \<Rightarrow> char" where
  "hex_hi c = hex ! nat ((schar c div 16) mod 16)"

definition hex_lo :: "char \<Rightarrow> char" where
  "hex_lo c = hex ! nat (schar c mod 16)"

definition HEX_TO_DIGIT :: "char \<Rightarrow> nat" where
  "HEX_TO_DIGIT h =
     (if 65 \<le> byte h \<and> byte h \<le> 70 then byte h - 65 + 10
      else if 97 \<le> byte h \<and> byte h \<le> 102 then byte h - 97 + 10
      else byte h - 48)"

lemma hex_digit:
  assumes "n < 16"
  shows "isxdigit (hex ! n) \<and> HEX_TO_DIGIT (hex ! n) = n \<and> hex ! n \<in> set hex"
proof -
  have "\<forall>n \<in> set [0..<16]. isxdigit (hex ! n) \<and> HEX_TO_DIGIT (hex ! n) = n \<and> hex ! n \<in> set hex"
    by code_simp
  with assms show ?thesis by simp
qed

lemma hex_hi_byte: "hex_hi c = hex ! (byte c div 16)"
proof -
  have "(schar c div 16) mod 16 = int (byte c div 16)"
  proof (cases "byte c < 128")
    case True
    then show ?thesis by (simp add: schar_def zdiv_int)
  next
    case False
    have "(int (byte c) - 256) div 16 mod 16 = int (byte c) div 16"
    proof -
      have "(int (byte c) - 256) div 16 = int (byte c) div 16 - 16"
        using div_mult_self1 [of 16 "int (byte c)" "-16"] by simp
      moreover have "(int (byte c) div 16 - 16) mod 16 = int (byte c) div 16 mod 16"
        by (simp add: mod_diff_eq [symmetric, of _ 16])
      moreover have "int (byte c) div 16 < 16" using byte_less [of c] by linarith
      ultimately show ?thesis by simp
    qed
    with False show ?thesis by (simp add: schar_def zdiv_int)
  qed
  then show ?thesis by (simp add: hex_hi_def)
qed

lemma hex_lo_byte: "hex_lo c = hex ! (byte c mod 16)"
proof -
  have "schar c mod 16 = int (byte c mod 16)"
    using mod_mult_self1 [of "int (byte c)" "-16" 16] by (simp add: schar_def zmod_int)
  then show ?thesis by (simp add: hex_lo_def)
qed

lemma hex_nibbles:
  "isxdigit (hex_hi c) \<and> isxdigit (hex_lo c) \<and>
   HEX_TO_DIGIT (hex_hi c) * 16 + HEX_TO_DIGIT (hex_lo c) = byte c \<and>
   hex_hi c \<in> set hex \<and> hex_lo c \<in> set hex"
proof -
  have "byte c div 16 < 16" using byte_less [of c] by linarith
  with hex_digit [of "byte c div 16"] hex_digit [of "byte c mod 16"] show ?thesis
    by (simp add: hex_hi_byte hex_lo_byte)
qed

section \<open>Encoding for the log\<close>

definition needs_logencoding :: "char \<Rightarrow> bool" where
  "needs_logencoding c \<longleftrightarrow> byte c \<le> 0x1F \<or> byte c \<ge> 0x7F \<or> c = DQUOTE"

fun logencode :: "string \<Rightarrow> string" where
  "logencode [] = []"
| "logencode (c # src) =
     (if needs_logencoding c then CHR ''%'' # hex_hi c # hex_lo c # logencode src
      else c # logencode src)"

definition log_enc :: "char \<Rightarrow> string" where
  "log_enc c = (if needs_logencoding c then [CHR ''%'', hex_hi c, hex_lo c] else [c])"

interpretation lg: char_encoder log_enc logencode
  by unfold_locales (simp_all add: log_enc_def)

definition log_safe :: "char \<Rightarrow> bool" where
  "log_safe c \<longleftrightarrow> 0x20 \<le> byte c \<and> byte c \<le> 0x7E \<and> c \<noteq> DQUOTE"

lemma log_enc_safe: "\<forall>x \<in> set (log_enc c). log_safe x"
proof -
  have "\<forall>x \<in> set (CHR ''%'' # hex). log_safe x" by code_simp
  then show ?thesis using hex_nibbles [of c]
    by (auto simp: log_enc_def needs_logencoding_def log_safe_def)
qed

lemma logencode_safe: "\<forall>x \<in> set (logencode s). log_safe x"
  by (rule lg.encode_all) (rule log_enc_safe)

lemma logencode_id: "\<forall>c \<in> set s. log_safe c \<Longrightarrow> logencode s = s"
  by (induction s) (auto simp: log_safe_def needs_logencoding_def)

section \<open>URLs\<close>

fun urldecode_raw :: "string \<Rightarrow> string" where
  "urldecode_raw [] = []"
| "urldecode_raw (c # s) =
     (if c = CHR ''%'' \<and> 2 \<le> length s \<and> isxdigit (s ! 0) \<and> isxdigit (s ! 1)
      then char_of (HEX_TO_DIGIT (s ! 0) * 16 + HEX_TO_DIGIT (s ! 1)) # urldecode_raw (drop 2 s)
      else c # urldecode_raw s)"

text \<open>The caller gets a C string: a decoded \<^verbatim>\<open>%00\<close> ends it.\<close>

definition urldecode :: "string \<Rightarrow> string" where
  "urldecode url = cstr (urldecode_raw url)"

definition normalize_path :: "string \<Rightarrow> string" where
  "normalize_path url =
     (let pos = (if strncmp url ''http://'' 7 = 0 then 7
                 else if strncmp url ''https://'' 8 = 0 then 8 else 0)
      in if pos > 0 then drop (scan (\<lambda>c. c \<noteq> CHR ''/'') url pos) url else url)"

text \<open>The comparisons of \<^verbatim>\<open>needs_encoding\<close> are on a signed \<^verbatim>\<open>char\<close>.\<close>

definition needs_encoding :: "char \<Rightarrow> bool" where
  "needs_encoding c =
     (if schar c \<ge> 97 \<and> schar c \<le> 122 then False
      else if schar c \<ge> 65 \<and> schar c \<le> 90 then False
      else if schar c \<ge> 48 \<and> schar c \<le> 57 then False
      else if c = CHR ''-'' \<or> c = CHR ''.'' \<or> c = CHR ''_'' \<or> c = CHR ''~'' \<or> c = CHR ''/'' then False
      else True)"

fun urlencode :: "string \<Rightarrow> string" where
  "urlencode [] = []"
| "urlencode (c # src) =
     (if needs_encoding c then CHR ''%'' # hex_hi c # hex_lo c # urlencode src
      else c # urlencode src)"

definition url_enc :: "char \<Rightarrow> string" where
  "url_enc c = (if needs_encoding c then [CHR ''%'', hex_hi c, hex_lo c] else [c])"

interpretation uc: char_codec url_enc urlencode urldecode_raw
proof
  fix c t
  show "urldecode_raw (url_enc c @ t) = c # urldecode_raw t"
  proof (cases "needs_encoding c")
    case True
    then show ?thesis using hex_nibbles [of c] by (simp add: url_enc_def)
  next
    case False
    then have "c \<noteq> CHR ''%''" by (auto simp: needs_encoding_def schar_def byte_def)
    with False show ?thesis by (simp add: url_enc_def)
  qed
qed (simp_all add: url_enc_def)

lemma urldecode_nul_free [simp, nul_free]: "nul_free_str (urldecode url)"
  by (simp add: urldecode_def)

lemma normalize_path_nul_free [nul_free]: "nul_free_str url \<Longrightarrow> nul_free_str (normalize_path url)"
  by (auto simp: normalize_path_def Let_def dest: in_set_dropD)

definition url_safe :: "char \<Rightarrow> bool" where
  "url_safe c \<longleftrightarrow> c = CHR ''%'' \<or> \<not> needs_encoding c"

lemma urlencode_safe: "\<forall>x \<in> set (urlencode s). url_safe x"
proof (rule uc.encode_all)
  fix c
  have "\<forall>x \<in> set hex. url_safe x" by code_simp
  then show "\<forall>x \<in> set (url_enc c). url_safe x" using hex_nibbles [of c]
    by (auto simp: url_enc_def url_safe_def)
qed

lemma urlencode_length: "length (urlencode s) \<le> 3 * length s"
  by (rule uc.encode_length) (simp add: url_enc_def)

lemma logencode_length: "length (logencode s) \<le> 3 * length s"
  by (rule lg.encode_length) (simp add: log_enc_def)

section \<open>Properties\<close>

text \<open>C14. Decoding what \<^verbatim>\<open>urlencode\<close> produced gives back the name, so a link of a directory listing
  leads to the entry it shows; and the encoded name fits the buffer of three times its length.\<close>

theorem urldecode_urlencode:
  assumes "nul_free_str s"
  shows "urldecode (urlencode s) = s \<and> length (urlencode s) \<le> 3 * length s"
  using uc.decode_encode [OF assms] assms by (simp add: urldecode_def urlencode_length)

theorem urldecode_urlencode_witness:
  "urlencode ''a b%41'' = ''a%20b%2541'' \<and> urldecode ''a%20b%2541'' = ''a b%41''"
proof -
  have e: "urlencode ''a b%41'' = ''a%20b%2541''" by code_simp
  show ?thesis using urldecode_urlencode [of "''a b%41''"] e by simp
qed

text \<open>A logged field consists of printable ASCII characters other than the double quote: no
  request can end the quoted field or the line it is written to.  A field of such characters is
  logged as it is, and the buffer of three times the length (and a terminator) is enough.\<close>

theorem logencode_printable:
  "(\<forall>x \<in> set (logencode s). 0x20 \<le> byte x \<and> byte x \<le> 0x7E \<and> x \<noteq> DQUOTE) \<and>
   (logencode s = s \<longleftrightarrow> (\<forall>x \<in> set s. 0x20 \<le> byte x \<and> byte x \<le> 0x7E \<and> x \<noteq> DQUOTE)) \<and>
   length (logencode s) \<le> 3 * length s"
  using logencode_safe [of s] logencode_id [of s] logencode_length [of s]
  unfolding log_safe_def by metis

theorem logencode_printable_witness:
  "logencode [CHR ''a'', LF, DQUOTE] = ''a%0A%22'' \<and> DQUOTE \<notin> set (logencode [CHR ''a'', LF, DQUOTE])"
proof -
  have "logencode [CHR ''a'', LF, DQUOTE] = ''a%0A%22''" by code_simp
  with logencode_printable [of "[CHR ''a'', LF, DQUOTE]"] show ?thesis by blast
qed

text \<open>An absolute-form URL loses its scheme and authority, whatever the authority is, and only
  the path is left; a URL that is a path already is not changed.\<close>

theorem normalize_path_absolute_form:
  assumes "CHR ''/'' \<notin> set host" "path = [] \<or> hd path = CHR ''/''"
  shows "normalize_path (''http://'' @ host @ path) = path \<and>
    normalize_path (''https://'' @ host @ path) = path \<and> normalize_path path = path"
proof -
  have "takeWhile (\<lambda>c. c \<noteq> CHR ''/'') (host @ path) = host"
    using assms by (intro takeWhile_append_stop) auto
  moreover have "take 7 path \<noteq> ''http://''" "take 8 path \<noteq> ''https://''"
    using assms(2) by (cases path; auto simp: numeral_eq_Suc)+
  then have "strncmp path ''http://'' 7 \<noteq> 0" "strncmp path ''https://'' 8 \<noteq> 0"
    by auto
  ultimately show ?thesis
    by (simp add: normalize_path_def scan_takeWhile add.commute [of 7] add.commute [of 8]
        flip: drop_drop)
qed

theorem normalize_path_absolute_form_witness:
  "normalize_path ''https://example.com:12345/index.htm'' = ''/index.htm''"
  using normalize_path_absolute_form [of "''example.com:12345''" "''/index.htm''"] by simp

end
