(* ===== verification/Apbuf.thy ===== *)
theory Apbuf
  imports Codec
begin

text \<open>
  The growing string buffer \<^verbatim>\<open>struct apbuf\<close> in which directory listings are built, and the HTML
  escaping that writes to it.  The buffer is a block of \<open>pool\<close> bytes of which the first
  \<open>length\<close> are the text.  \<open>string_buffer\<close> is what its clients rely on.
\<close>

section \<open>The interface\<close>

locale string_buffer =
  fixes put :: "'b \<Rightarrow> string \<Rightarrow> 'b" and contents :: "'b \<Rightarrow> string" and inv :: "'b \<Rightarrow> bool"
  assumes put_contents: "inv b \<Longrightarrow> contents (put b s) = contents b @ s"
    and put_inv: "inv b \<Longrightarrow> inv (put b s)"
begin

lemma put_fold:
  "inv b \<Longrightarrow> inv (foldl put b ss) \<and> contents (foldl put b ss) = contents b @ concat ss"
  by (induction ss arbitrary: b) (simp_all add: put_contents put_inv)

end

section \<open>The buffer\<close>

record apbuf =
  ap_length :: nat
  ap_pool :: nat
  ap_str :: string

definition APBUF_INIT :: nat where "APBUF_INIT = 4096"

abbreviation APBUF_GROW :: nat where "APBUF_GROW \<equiv> APBUF_INIT"

text \<open>Freshly allocated bytes are indeterminate; any fill will do, NUL is taken.\<close>

definition make_apbuf :: apbuf where
  "make_apbuf = \<lparr>ap_length = 0, ap_pool = APBUF_INIT, ap_str = replicate APBUF_INIT NUL\<rparr>"

function grow_pool :: "nat \<Rightarrow> nat \<Rightarrow> nat" where
  "grow_pool pool need = (if pool < need then grow_pool (pool + APBUF_GROW) need else pool)"
  by pat_completeness auto
termination
  by (relation "measure (\<lambda>(pool, need). need - pool)") (auto simp: APBUF_INIT_def)

declare grow_pool.simps [simp del]

definition xrealloc :: "string \<Rightarrow> nat \<Rightarrow> string" where
  "xrealloc s sz = take sz s @ replicate (sz - length s) NUL"

definition appendl :: "apbuf \<Rightarrow> string \<Rightarrow> nat \<Rightarrow> apbuf" where
  "appendl buf s len =
     (let need = ap_length buf + len;
          buf = (if ap_pool buf < need then
                   (let pool = grow_pool (ap_pool buf) need in
                    buf\<lparr>ap_pool := pool, ap_str := xrealloc (ap_str buf) pool\<rparr>)
                 else buf)
      in buf\<lparr>ap_str := take (ap_length buf) (ap_str buf) @ take len s
                        @ drop (ap_length buf + len) (ap_str buf),
              ap_length := ap_length buf + len\<rparr>)"

definition append_str :: "apbuf \<Rightarrow> string \<Rightarrow> apbuf" where
  "append_str buf s = appendl buf s (length s)"

definition ap_contents :: "apbuf \<Rightarrow> string" where
  "ap_contents buf = take (ap_length buf) (ap_str buf)"

definition ap_inv :: "apbuf \<Rightarrow> bool" where
  "ap_inv buf \<longleftrightarrow> ap_length buf \<le> ap_pool buf \<and> length (ap_str buf) = ap_pool buf \<and>
     0 < ap_pool buf \<and> APBUF_INIT dvd ap_pool buf"

lemma grow_pool_bounds:
  "APBUF_INIT dvd pool \<Longrightarrow> need \<le> grow_pool pool need \<and> pool \<le> grow_pool pool need \<and>
   APBUF_INIT dvd grow_pool pool need \<and> grow_pool pool need < max (pool + 1) (need + APBUF_INIT)"
proof (induction pool need rule: grow_pool.induct)
  case (1 pool need)
  show ?case
  proof (cases "pool < need")
    case True
    with 1 have "APBUF_INIT dvd pool + APBUF_INIT" by simp
    with 1(1) [OF True] True show ?thesis
      by (auto simp: grow_pool.simps [of pool need])
  next
    case False
    with 1 show ?thesis by (simp add: grow_pool.simps [of pool need])
  qed
qed

lemma ap_inv_make [simp]: "ap_inv make_apbuf"
  by (simp add: ap_inv_def make_apbuf_def APBUF_INIT_def)

lemma ap_contents_make [simp]: "ap_contents make_apbuf = []"
  by (simp add: ap_contents_def make_apbuf_def)

lemma appendl_correct:
  assumes "ap_inv buf" "len \<le> length s"
  shows "ap_inv (appendl buf s len) \<and> ap_contents (appendl buf s len) = ap_contents buf @ take len s
    \<and> ap_length (appendl buf s len) = ap_length buf + len"
proof (cases "ap_pool buf < ap_length buf + len")
  case True
  with grow_pool_bounds [of "ap_pool buf" "ap_length buf + len"] assms show ?thesis
    by (auto simp: appendl_def Let_def ap_inv_def ap_contents_def xrealloc_def)
next
  case False
  with assms show ?thesis
    by (auto simp: appendl_def Let_def ap_inv_def ap_contents_def)
qed

interpretation ap: string_buffer append_str ap_contents ap_inv
  by unfold_locales (simp_all add: append_str_def appendl_correct)

section \<open>HTML escaping\<close>

fun append_escaped :: "apbuf \<Rightarrow> string \<Rightarrow> apbuf" where
  "append_escaped dst [] = dst"
| "append_escaped dst (c # src) = append_escaped
     (if c = CHR ''<'' then append_str dst ''&lt;''
      else if c = CHR ''>'' then append_str dst ''&gt;''
      else if c = CHR ''&'' then append_str dst ''&amp;''
      else if c = QUOTE then append_str dst ''&apos;''
      else if c = DQUOTE then append_str dst ''&quot;''
      else appendl dst (c # src) 1) src"

definition html_enc :: "char \<Rightarrow> string" where
  "html_enc c =
     (if c = CHR ''<'' then ''&lt;'' else if c = CHR ''>'' then ''&gt;''
      else if c = CHR ''&'' then ''&amp;'' else if c = QUOTE then ''&apos;''
      else if c = DQUOTE then ''&quot;'' else [c])"

text \<open>The text a browser shows: the five entities, everything else as it is.\<close>

function html_text :: "string \<Rightarrow> string" where
  "html_text s =
     (if s = [] then []
      else if take 4 s = ''&lt;'' then CHR ''<'' # html_text (drop 4 s)
      else if take 4 s = ''&gt;'' then CHR ''>'' # html_text (drop 4 s)
      else if take 5 s = ''&amp;'' then CHR ''&'' # html_text (drop 5 s)
      else if take 6 s = ''&apos;'' then QUOTE # html_text (drop 6 s)
      else if take 6 s = ''&quot;'' then DQUOTE # html_text (drop 6 s)
      else hd s # html_text (tl s))"
  by pat_completeness auto
termination
  by (relation "measure length") auto

declare html_text.simps [simp del]

definition html_escape :: "string \<Rightarrow> string" where
  "html_escape s = concat (map html_enc s)"

interpretation hc: char_codec html_enc html_escape html_text
proof
  fix c t
  show "html_text (html_enc c @ t) = c # html_text t"
  proof (cases "c \<in> {CHR ''<'', CHR ''>'', CHR ''&'', QUOTE, DQUOTE}")
    case True
    then show ?thesis by (auto simp: html_enc_def html_text.simps [of "_ # _"])
  next
    case False
    then show ?thesis by (auto simp: html_enc_def html_text.simps [of "_ # _"])
  qed
qed (simp_all add: html_escape_def html_text.simps)

lemma append_escaped_foldl:
  "ap_inv dst \<Longrightarrow> ap_inv (append_escaped dst s) \<and>
   ap_contents (append_escaped dst s) = ap_contents dst @ html_escape s"
proof (induction s arbitrary: dst)
  case Nil
  then show ?case by (simp add: html_escape_def)
next
  case (Cons c s)
  define d where "d = (if c = CHR ''<'' then append_str dst ''&lt;''
      else if c = CHR ''>'' then append_str dst ''&gt;''
      else if c = CHR ''&'' then append_str dst ''&amp;''
      else if c = QUOTE then append_str dst ''&apos;''
      else if c = DQUOTE then append_str dst ''&quot;''
      else appendl dst (c # s) 1)"
  have "ap_inv d \<and> ap_contents d = ap_contents dst @ html_enc c"
    using Cons.prems by (auto simp: d_def html_enc_def ap.put_inv ap.put_contents appendl_correct)
  with Cons.IH [of d] show ?case by (simp add: d_def [symmetric] hc.encode_Cons)
qed

lemma html_escape_safe:
  "\<forall>x \<in> set (html_escape s). x \<notin> {CHR ''<'', CHR ''>'', QUOTE, DQUOTE}"
  by (rule hc.encode_all) (auto simp: html_enc_def)

section \<open>Properties\<close>

text \<open>C17. Appending is concatenation, whatever the growth of the pool: the text gets longer by the
  \<open>len\<close> bytes that were passed, the block stays large enough for it and a multiple of
  \<^verbatim>\<open>APBUF_GROW\<close>, so no byte is written outside it.\<close>

theorem appendl_appends:
  assumes "ap_inv buf" "len \<le> length s"
  shows "ap_contents (appendl buf s len) = ap_contents buf @ take len s \<and>
    ap_inv (appendl buf s len)"
  using appendl_correct [OF assms] by simp

theorem appendl_appends_witness:
  "ap_contents (appendl make_apbuf ''abc'' 2) = ''ab'' \<and> ap_inv (appendl make_apbuf ''abc'' 2)"
  using appendl_appends [of make_apbuf 2 "''abc''"] by simp

text \<open>C16. Text that goes through \<^verbatim>\<open>append_escaped\<close> (the URL and the file names of a listing) cannot
  open a tag or close an attribute, and a browser shows exactly the original text.\<close>

theorem append_escaped_safe:
  assumes "ap_inv dst" "nul_free_str s"
  shows "\<exists>e. ap_contents (append_escaped dst s) = ap_contents dst @ e \<and>
    (\<forall>x \<in> set e. x \<noteq> CHR ''<'' \<and> x \<noteq> CHR ''>'' \<and> x \<noteq> QUOTE \<and> x \<noteq> DQUOTE) \<and> html_text e = s"
  using append_escaped_foldl [OF assms(1), of s] html_escape_safe [of s] hc.decode_encode [OF assms(2)]
  by auto

theorem append_escaped_safe_witness:
  "ap_contents (append_escaped make_apbuf ''a<b'') = ''a&lt;b'' \<and>
   (\<exists>e. ap_contents (append_escaped make_apbuf ''a<b'') = e \<and> html_text e = ''a<b'')"
  using append_escaped_safe [of make_apbuf "''a<b''"] append_escaped_foldl [of make_apbuf "''a<b''"]
  by (simp add: html_escape_def html_enc_def) 

end
