(* ===== verification/Mime.thy ===== *)
theory Mime
  imports Codec
begin

text \<open>
  The table from file extensions to media types: \<^verbatim>\<open>add_mime_mapping\<close>, the parser of
  \<^verbatim>\<open>mime.types\<close> lines and files, the built-in table, sorting and the lookup of
  \<^verbatim>\<open>url_content_type\<close>.  The globals \<^verbatim>\<open>mime_map\<close> and \<^verbatim>\<open>longest_ext\<close> are a record;
  \<^verbatim>\<open>mime_map_size\<close> is the length of the list.  The table is a finite map on case-folded
  extensions, and its clients see it through the locale \<open>extension_table\<close>.
\<close>

section \<open>The table\<close>

record mime_mapping =
  extension :: string
  mimetype :: string

record mime_state =
  mime_map :: "mime_mapping list"
  longest_ext :: nat

definition empty_mime_state :: mime_state where
  "empty_mime_state = \<lparr>mime_map = [], longest_ext = 0\<rparr>"

text \<open>The search-and-replace loop; \<open>None\<close> if it falls through.\<close>

fun replace_mapping :: "string \<Rightarrow> string \<Rightarrow> mime_mapping list \<Rightarrow> mime_mapping list option" where
  "replace_mapping ext mt [] = None"
| "replace_mapping ext mt (m # ms) =
     (if strcasecmp (extension m) ext = 0 then Some (m\<lparr>mimetype := mt\<rparr> # ms)
      else map_option ((#) m) (replace_mapping ext mt ms))"

definition add_mime_mapping :: "string \<Rightarrow> string \<Rightarrow> mime_state \<Rightarrow> mime_state" where
  "add_mime_mapping ext mt st =
     (let i = length ext;
          st = (if i > longest_ext st then st\<lparr>longest_ext := i\<rparr> else st)
      in case replace_mapping ext mt (mime_map st) of
           Some ms \<Rightarrow> st\<lparr>mime_map := ms\<rparr>
         | None \<Rightarrow> st\<lparr>mime_map := mime_map st @ [\<lparr>extension = ext, mimetype = mt\<rparr>]\<rparr>)"

definition mime_mapping_cmp :: "mime_mapping \<Rightarrow> mime_mapping \<Rightarrow> int" where
  "mime_mapping_cmp a b = strcasecmp (extension a) (extension b)"

definition sort_mime_map :: "mime_state \<Rightarrow> mime_state" where
  "sort_mime_map st = st\<lparr>mime_map := qsort mime_mapping_cmp (mime_map st)\<rparr>"

definition mime_mapping_cmp_str :: "string \<Rightarrow> mime_mapping \<Rightarrow> int" where
  "mime_mapping_cmp_str a b = strcasecmp a (extension b)"

section \<open>Parsing\<close>

definition blank :: "char \<Rightarrow> bool" where
  "blank c \<longleftrightarrow> c = CHR '' '' \<or> c = TAB"

function parse_extensions :: "string \<Rightarrow> nat \<Rightarrow> nat \<Rightarrow> nat \<Rightarrow> mime_state \<Rightarrow> mime_state" where
  "parse_extensions line pad bound1 lbound st =
     (let lbound = scan blank line lbound in
      if c_at line lbound = NUL then st
      else
        (let rbound = scan (\<lambda>c. \<not> blank c) line lbound;
             st = add_mime_mapping (split_string line lbound rbound)
                    (split_string line pad bound1) st
         in if c_at line rbound = NUL then st
            else parse_extensions line pad bound1 (rbound + 1) st))"
  by pat_completeness auto
termination
proof (relation "measure (\<lambda>(line, pad, bound1, lbound, st). length line - lbound)", goal_cases)
  case (2 line pad bound1 lbound st l r st')
  then show ?case
    using scan_ge [of lbound blank line] scan_ge [of l "\<lambda>c. \<not> blank c" line]
    by (auto dest: c_at_not_NUL)
qed simp

declare parse_extensions.simps [simp del]

definition parse_mimetype_line :: "string \<Rightarrow> mime_state \<Rightarrow> mime_state" where
  "parse_mimetype_line line st =
     (let pad = scan blank line 0 in
      if c_at line pad = NUL \<or> c_at line pad = CHR ''#'' then st
      else
        (let bound1 = scan (\<lambda>c. \<not> blank c) line (pad + 1) in
         if c_at line bound1 = NUL then st
         else parse_extensions line pad bound1 bound1 st))"

definition default_extension_map :: "string list" where
  "default_extension_map = [
    ''application/java-archive jar'',
    ''application/json json'',
    ''application/pdf pdf'',
    ''application/rss+xml rss'',
    ''application/wasm wasm'',
    ''application/xhtml+xml xhtml xhtm xht'',
    ''application/xml-dtd dtd'',
    ''application/xml xsl xml'',
    ''application/xslt+xml xslt'',
    ''application/zip zip'',
    ''audio/flac flac'',
    ''audio/mp4 m4a'',
    ''audio/mpeg mp2 mp3 mpga'',
    ''audio/ogg ogg opus oga spx'',
    ''audio/wav wav'',
    ''audio/x-matroska mka'',
    ''audio/x-mpegurl m3u m3u8'',
    ''font/otf otf'',
    ''font/ttf ttf'',
    ''font/woff woff'',
    ''font/woff2 woff2'',
    ''image/apng apng'',
    ''image/avif avif'',
    ''image/gif gif'',
    ''image/jpeg jpeg jpe jpg jfif'',
    ''image/jxl jxl'',
    ''image/png png'',
    ''image/svg+xml svg svgz'',
    ''image/webp webp'',
    ''text/css css'',
    ''text/html html htm'',
    ''text/javascript js mjs'',
    ''text/plain txt asc conf log'',
    ''video/mp4 mp4 m4v'',
    ''video/mpeg mpeg mpe mpg'',
    ''video/quicktime qt mov'',
    ''video/webm webm'',
    ''video/x-matroska mkv'',
    ''video/x-msvideo avi''
  ]"

definition parse_default_extension_map :: "mime_state \<Rightarrow> mime_state" where
  "parse_default_extension_map st = foldl (\<lambda>st l. parse_mimetype_line l st) st default_extension_map"

text \<open>A file is its contents and a position; \<^verbatim>\<open>read_line\<close> returns the line and the new
  position.\<close>

definition read_line :: "string \<Rightarrow> nat \<Rightarrow> (string \<times> nat) option" where
  "read_line fp startpos =
     (let e = scan (\<lambda>c. c \<noteq> LF \<and> c \<noteq> CR) fp startpos;
          linelen = e - startpos;
          eof = (length fp \<le> e)
      in if linelen = 0 \<and> eof then None
         else
           (let endpos = (if eof then e else e + 1);
                endpos = (if \<not> eof \<and> fp ! e = CR \<and> endpos < length fp \<and> fp ! endpos = LF
                          then endpos + 1 else endpos)
            in Some (cstr (take linelen (drop startpos fp)), endpos)))"

lemma read_line_advances: "read_line fp pos = Some (l, pos') \<Longrightarrow> pos < pos' \<and> pos < length fp"
  using scan_ge [of pos "\<lambda>c. c \<noteq> LF \<and> c \<noteq> CR" fp] scan_outside [of fp pos]
  by (fastforce simp: read_line_def Let_def not_le split: if_splits)

function parse_extension_map_file :: "string \<Rightarrow> nat \<Rightarrow> mime_state \<Rightarrow> mime_state" where
  "parse_extension_map_file fp pos st =
     (case read_line fp pos of
        None \<Rightarrow> st
      | Some (buf, pos') \<Rightarrow> parse_extension_map_file fp pos' (parse_mimetype_line buf st))"
  by pat_completeness auto
termination
  by (relation "measure (\<lambda>(fp, pos, st). length fp - pos)") (auto dest: read_line_advances)

declare parse_extension_map_file.simps [simp del]

section \<open>Lookup\<close>

function period_loop :: "string \<Rightarrow> nat \<Rightarrow> int \<Rightarrow> int" where
  "period_loop url longest period =
     (if period > 0 \<and> url ! nat period \<noteq> CHR ''.'' \<and>
         int (length url) - period - 1 \<le> int longest
      then period_loop url longest (period - 1) else period)"
  by pat_completeness auto
termination
  by (relation "measure (\<lambda>(url, longest, period). nat period)") auto

declare period_loop.simps [simp del]

definition url_content_type :: "mime_state \<Rightarrow> string \<Rightarrow> string \<Rightarrow> string" where
  "url_content_type st default_mimetype url =
     (let period = period_loop url (longest_ext st) (int (length url) - 1) in
      if period \<ge> 0 \<and> url ! nat period = CHR ''.'' then
        (case bsearch mime_mapping_cmp_str (drop (nat period + 1) url) (mime_map st) of
           Some result \<Rightarrow> mimetype result
         | None \<Rightarrow> default_mimetype)
      else default_mimetype)"

section \<open>The table as a map\<close>

abbreviation folded :: "string \<Rightarrow> string" where
  "folded e \<equiv> map tolower e"

text \<open>What the parsers rely on.\<close>

locale extension_table =
  fixes add :: "string \<Rightarrow> string \<Rightarrow> 't \<Rightarrow> 't" and lookup :: "'t \<Rightarrow> string \<Rightarrow> string option"
    and inv :: "'t \<Rightarrow> bool"
  assumes lookup_add: "inv t \<Longrightarrow> lookup (add e m t) e' =
      (if folded e' = folded e then Some m else lookup t e')"
    and inv_add: "inv t \<Longrightarrow> inv (add e m t)"
begin

lemma add_all:
  "inv t \<Longrightarrow> inv (foldl (\<lambda>t e. add e m t) t es) \<and> lookup (foldl (\<lambda>t e. add e m t) t es) e' =
     (if folded e' \<in> folded ` set es then Some m else lookup t e')"
  by (induction es arbitrary: t) (auto simp: lookup_add inv_add)

end

definition mime_lookup :: "mime_state \<Rightarrow> string \<Rightarrow> string option" where
  "mime_lookup st e = map_of (map (\<lambda>m. (folded (extension m), mimetype m)) (mime_map st)) (folded e)"

definition mime_inv :: "mime_state \<Rightarrow> bool" where
  "mime_inv st \<longleftrightarrow> distinct (map (\<lambda>m. folded (extension m)) (mime_map st)) \<and>
     (\<forall>m \<in> set (mime_map st). length (extension m) \<le> longest_ext st)"

lemma mime_inv_empty [simp]: "mime_inv empty_mime_state"
  by (simp add: mime_inv_def empty_mime_state_def)

lemma replace_mapping_None:
  "replace_mapping e mt ms = None \<longleftrightarrow> folded e \<notin> (\<lambda>m. folded (extension m)) ` set ms"
  by (induction ms) (auto simp: strcasecmp_eq_0)

lemma replace_mapping_keys:
  "replace_mapping e mt ms = Some ms' \<Longrightarrow> map extension ms' = map extension ms"
  by (induction ms arbitrary: ms') (auto split: if_splits)

lemma replace_mapping_lookup:
  "replace_mapping e mt ms = Some ms' \<Longrightarrow>
   map_of (map (\<lambda>m. (folded (extension m), mimetype m)) ms') k =
   (if k = folded e then Some mt else map_of (map (\<lambda>m. (folded (extension m), mimetype m)) ms) k)"
  by (induction ms arbitrary: ms') (auto simp: strcasecmp_eq_0 split: if_splits)

interpretation mt: extension_table add_mime_mapping mime_lookup mime_inv
proof
  fix e m e' and t :: mime_state
  assume t: "mime_inv t"
  define ms where "ms = replace_mapping e m (mime_map t)"
  have new: "mime_map (add_mime_mapping e m t) =
      (case ms of Some ms \<Rightarrow> ms | None \<Rightarrow> mime_map t @ [\<lparr>extension = e, mimetype = m\<rparr>])"
    by (simp add: add_mime_mapping_def Let_def ms_def split: option.split)
  have longest: "longest_ext (add_mime_mapping e m t) = max (longest_ext t) (length e)"
    by (simp add: add_mime_mapping_def Let_def split: option.split)
  show "mime_lookup (add_mime_mapping e m t) e' =
      (if folded e' = folded e then Some m else mime_lookup t e')"
  proof (cases ms)
    case None
    then have "folded e \<notin> (\<lambda>m. folded (extension m)) ` set (mime_map t)"
      by (simp add: ms_def replace_mapping_None)
    then have "mime_lookup t e = None"
      by (simp add: mime_lookup_def map_of_eq_None_iff image_image)
    then show ?thesis using None
      by (auto simp: mime_lookup_def new map_add_def split: option.split)
  next
    case (Some ms')
    then show ?thesis by (simp add: mime_lookup_def new replace_mapping_lookup [OF Some [unfolded ms_def]])
  qed
  show "mime_inv (add_mime_mapping e m t)"
  proof (cases ms)
    case None
    then have "folded e \<notin> (\<lambda>m. folded (extension m)) ` set (mime_map t)"
      by (simp add: ms_def replace_mapping_None)
    with t None show ?thesis
      by (auto simp: mime_inv_def new longest)
  next
    case (Some ms')
    then have k: "map extension ms' = map extension (mime_map t)"
      by (simp add: ms_def replace_mapping_keys)
    have "map (folded \<circ> extension) ms' = map (folded \<circ> extension) (mime_map t)"
      by (metis k map_map)
    moreover have "extension ` set ms' = extension ` set (mime_map t)"
      by (metis k set_map)
    then have "length (extension a) \<le> longest_ext t" if "a \<in> set ms'" for a
      using t that by (metis (no_types, lifting) image_iff mime_inv_def)
    ultimately show ?thesis using t Some
      unfolding mime_inv_def new longest by (simp add: comp_def le_max_iff_disj)
  qed
qed

interpretation ms: key_search mime_mapping_cmp mime_mapping_cmp_str
proof
  fix x y z and k
  show "mime_mapping_cmp y x = - mime_mapping_cmp x y"
    unfolding mime_mapping_cmp_def strcasecmp_def by (rule strcmp_sym)
  show "mime_mapping_cmp x y \<le> 0 \<Longrightarrow> mime_mapping_cmp y z \<le> 0 \<Longrightarrow> mime_mapping_cmp x z \<le> 0"
    by (simp add: mime_mapping_cmp_def strcasecmp_def strcmp_le)
  show "mime_mapping_cmp_str k x < 0 \<Longrightarrow> mime_mapping_cmp x y \<le> 0 \<Longrightarrow> mime_mapping_cmp_str k y < 0"
    by (simp add: mime_mapping_cmp_def mime_mapping_cmp_str_def strcasecmp_def strcmp_le strcmp_less)
  show "0 < mime_mapping_cmp_str k y \<Longrightarrow> mime_mapping_cmp x y \<le> 0 \<Longrightarrow> 0 < mime_mapping_cmp_str k x"
    by (simp add: mime_mapping_cmp_def mime_mapping_cmp_str_def strcasecmp_def not_le [symmetric] strcmp_le)
qed

lemma sort_mime_map_lookup:
  assumes "mime_inv st"
  shows "mime_lookup (sort_mime_map st) = mime_lookup st"
proof -
  let ?f = "\<lambda>m. (folded (extension m), mimetype m)"
  let ?xs = "map ?f (mime_map (sort_mime_map st))" and ?ys = "map ?f (mime_map st)"
  have m: "mset (map fst ?xs) = mset (map fst ?ys)" and st: "set ?xs = set ?ys"
    by (simp_all add: sort_mime_map_def)
  have "distinct (map fst ?ys)" using assms by (simp add: mime_inv_def comp_def)
  moreover from this have "distinct (map fst ?xs)" using mset_eq_imp_distinct_iff [OF m] by blast
  ultimately have "map_of ?xs = map_of ?ys" using map_of_inject_set st by blast
  then show ?thesis by (simp add: mime_lookup_def fun_eq_iff)
qed

lemma bsearch_sorted_lookup:
  assumes "mime_inv st"
  shows "map_option mimetype (bsearch mime_mapping_cmp_str e (mime_map (sort_mime_map st)))
    = mime_lookup st e"
proof -
  let ?ms = "mime_map (sort_mime_map st)"
  have sd: "sorted_wrt (\<lambda>x y. mime_mapping_cmp x y \<le> 0) ?ms"
    by (simp add: sort_mime_map_def ms.sorted)
  have k: "mime_mapping_cmp_str e m = 0 \<longleftrightarrow> folded (extension m) = folded e" for m
    by (auto simp: mime_mapping_cmp_str_def strcasecmp_eq_0)
  have "mset (map (\<lambda>m. folded (extension m)) ?ms) = mset (map (\<lambda>m. folded (extension m)) (mime_map st))"
    by (simp add: sort_mime_map_def)
  from mset_eq_imp_distinct_iff [OF this] assms
  have "distinct (map (\<lambda>m. folded (extension m)) ?ms)" by (simp add: mime_inv_def)
  then have d: "distinct (map fst (map (\<lambda>m. (folded (extension m), mimetype m)) ?ms))"
    by (simp add: comp_def)
  show ?thesis
  proof (cases "bsearch mime_mapping_cmp_str e ?ms")
    case None
    with ms.bsearch_None [OF sd] have "\<forall>m \<in> set ?ms. folded (extension m) \<noteq> folded e"
      by (simp add: k)
    then have "mime_lookup (sort_mime_map st) e = None"
      by (auto simp: mime_lookup_def map_of_eq_None_iff)
    with None show ?thesis by (simp add: sort_mime_map_lookup [OF assms])
  next
    case (Some m)
    with ms.bsearch_Some [OF sd Some] have "m \<in> set ?ms" "folded (extension m) = folded e"
      by (simp_all add: k)
    then have "mime_lookup (sort_mime_map st) e = Some (mimetype m)"
      unfolding mime_lookup_def using d by (intro map_of_is_SomeI) force+
    with Some show ?thesis by (simp add: sort_mime_map_lookup [OF assms])
  qed
qed

section \<open>The lookup by URL\<close>

text \<open>What follows the last dot.\<close>

definition last_ext :: "string \<Rightarrow> string option" where
  "last_ext url = (if CHR ''.'' \<in> set url
     then Some (rev (takeWhile (\<lambda>c. c \<noteq> CHR ''.'') (rev url))) else None)"

lemma last_ext_index:
  assumes "j < length url" "url ! j = CHR ''.''" "\<And>i. j < i \<Longrightarrow> i < length url \<Longrightarrow> url ! i \<noteq> CHR ''.''"
  shows "last_ext url = Some (drop (Suc j) url)"
proof -
  have "url = take j url @ CHR ''.'' # drop (Suc j) url"
    using assms(1,2) id_take_nth_drop by metis
  then have "rev url = rev (drop (Suc j) url) @ CHR ''.'' # rev (take j url)"
    by (metis append.assoc append_Cons append_Nil rev.simps(2) rev_append)
  moreover have "\<forall>x \<in> set (rev (drop (Suc j) url)). x \<noteq> CHR ''.''"
    using assms(3) by (auto simp: in_set_conv_nth)
  then have "takeWhile (\<lambda>c. c \<noteq> CHR ''.'') (rev (drop (Suc j) url) @ CHR ''.'' # rev (take j url))
      = rev (drop (Suc j) url)"
    by (intro takeWhile_append_stop) auto
  moreover have "CHR ''.'' \<in> set url" using assms(1,2) nth_mem by metis
  ultimately show ?thesis by (simp add: last_ext_def)
qed

lemma period_loop_stops:
  assumes "- 1 \<le> q" "q < int (length url)"
    "\<forall>j. q < int j \<and> j < length url \<longrightarrow> url ! j \<noteq> CHR ''.''"
  shows "let p = period_loop url longest q in - 1 \<le> p \<and> p \<le> q \<and>
    (\<forall>j. p < int j \<and> j < length url \<longrightarrow> url ! j \<noteq> CHR ''.'') \<and>
    (p \<le> 0 \<or> url ! nat p = CHR ''.'' \<or> int longest < int (length url) - p - 1)"
  using assms
proof (induction url longest q rule: period_loop.induct)
  case (1 url longest period)
  let ?c = "period > 0 \<and> url ! nat period \<noteq> CHR ''.'' \<and> int (length url) - period - 1 \<le> int longest"
  show ?case
  proof (cases ?c)
    case True
    have "\<forall>j. period - 1 < int j \<and> j < length url \<longrightarrow> url ! j \<noteq> CHR ''.''"
    proof (intro allI impI)
      fix j assume j: "period - 1 < int j \<and> j < length url"
      then show "url ! j \<noteq> CHR ''.''"
        using 1(4) True by (cases "int j = period") (auto simp: nat_eq_iff)
    qed
    with 1(1) [OF True] 1(2,3) True show ?thesis
      by (simp add: period_loop.simps [of url longest period] Let_def)
  next
    case False
    then have "period_loop url longest period = period"
      by (subst period_loop.simps) auto
    with 1 False show ?thesis by (auto simp: Let_def)
  qed
qed

lemma url_content_type_eq:
  assumes inv: "mime_inv st"
  shows "url_content_type (sort_mime_map st) dflt url =
    (case last_ext url of None \<Rightarrow> dflt
     | Some e \<Rightarrow> (case mime_lookup st e of None \<Rightarrow> dflt | Some m \<Rightarrow> m))"
proof -
  let ?n = "length url" and ?L = "longest_ext (sort_mime_map st)"
  define p where "p = period_loop url ?L (int ?n - 1)"
  have L: "?L = longest_ext st" by (simp add: sort_mime_map_def)
  have p: "- 1 \<le> p" "p \<le> int ?n - 1"
    "\<And>j. p < int j \<Longrightarrow> j < ?n \<Longrightarrow> url ! j \<noteq> CHR ''.''"
    "p \<le> 0 \<or> url ! nat p = CHR ''.'' \<or> int ?L < int ?n - p - 1"
  proof -
    have "- 1 \<le> int ?n - 1" "int ?n - 1 < int ?n"
      "\<forall>j. int ?n - 1 < int j \<and> j < ?n \<longrightarrow> url ! j \<noteq> CHR ''.''" by auto
    from period_loop_stops [OF this, of ?L]
    show "- 1 \<le> p" "p \<le> int ?n - 1"
      "\<And>j. p < int j \<Longrightarrow> j < ?n \<Longrightarrow> url ! j \<noteq> CHR ''.''"
      "p \<le> 0 \<or> url ! nat p = CHR ''.'' \<or> int ?L < int ?n - p - 1"
      unfolding p_def Let_def by blast+
  qed
  have u: "url_content_type (sort_mime_map st) dflt url = (if p \<ge> 0 \<and> url ! nat p = CHR ''.'' then
      (case mime_lookup st (drop (nat p + 1) url) of Some m \<Rightarrow> m | None \<Rightarrow> dflt) else dflt)"
    unfolding url_content_type_def p_def [symmetric] Let_def
      bsearch_sorted_lookup [OF inv, symmetric]
    by (simp split: option.split)
  show ?thesis
  proof (cases "p \<ge> 0 \<and> url ! nat p = CHR ''.''")
    case True
    then have "last_ext url = Some (drop (Suc (nat p)) url)"
      using p by (intro last_ext_index) auto
    with True show ?thesis by (simp add: u split: option.split)
  next
    case False
    have "mime_lookup st e = None" if "last_ext url = Some e" for e
    proof -
      from that have "CHR ''.'' \<in> set url" by (auto simp: last_ext_def split: if_splits)
      then obtain ys zs where url: "url = ys @ CHR ''.'' # zs" "CHR ''.'' \<notin> set zs"
        by (auto dest: split_list_last)
      with that have e: "e = zs"
        using last_ext_index [of "length ys" url] by (auto simp: nth_append nth_Cons' in_set_conv_nth)
      have "url ! length ys = CHR ''.''" "length ys < ?n" by (simp_all add: url(1))
      with p(3) False have "int (length ys) \<le> p" "p \<noteq> int (length ys)" by force+
      then have "p > 0" "int (length ys) < p" by linarith+
      with p(4) False have "int (longest_ext st) < int ?n - p - 1" by (simp add: L)
      with \<open>int (length ys) < p\<close> have "longest_ext st < length e" by (simp add: e url(1))
      then have "folded e \<notin> (\<lambda>m. folded (extension m)) ` set (mime_map st)"
        using inv by (auto simp: mime_inv_def dest!: map_eq_imp_length_eq)
      then show ?thesis by (simp add: mime_lookup_def map_of_eq_None_iff image_image)
    qed
    moreover have "\<not> (p \<ge> 0 \<and> url ! nat p = CHR ''.'')" using False .
    ultimately show ?thesis by (auto simp: u split: option.split)
  qed
qed

section \<open>What the parsers read\<close>

text \<open>The words of a line and the lines of a file.\<close>

function words :: "string \<Rightarrow> string list" where
  "words s = (let t = dropWhile blank s in
     if t = [] then [] else takeWhile (\<lambda>c. \<not> blank c) t # words (dropWhile (\<lambda>c. \<not> blank c) t))"
  by pat_completeness auto
termination
proof (relation "measure length", goal_cases)
  case (2 s t)
  then have "t \<noteq> []" "\<not> blank (hd t)" using hd_dropWhile by blast+
  then have "length (dropWhile (\<lambda>c. \<not> blank c) t) < length t"
    by (cases t) (auto simp: le_imp_less_Suc length_dropWhile_le)
  moreover have "length t \<le> length s" using 2 by (simp add: length_dropWhile_le)
  ultimately show ?case by simp
qed simp

declare words.simps [simp del]

definition strip_eol :: "string \<Rightarrow> string" where
  "strip_eol s = (case s of [] \<Rightarrow> []
     | c # t \<Rightarrow> if c = CR \<and> t \<noteq> [] \<and> hd t = LF then tl t else t)"

function lines_of :: "string \<Rightarrow> string list" where
  "lines_of s = (if s = [] then []
     else takeWhile (\<lambda>c. c \<noteq> LF \<and> c \<noteq> CR) s #
          lines_of (strip_eol (dropWhile (\<lambda>c. c \<noteq> LF \<and> c \<noteq> CR) s)))"
  by pat_completeness auto
termination
proof (relation "measure length", goal_cases)
  case (2 s)
  let ?d = "dropWhile (\<lambda>c. c \<noteq> LF \<and> c \<noteq> CR) s"
  have "length (strip_eol ?d) < length s"
  proof (cases ?d)
    case Nil
    show ?thesis using 2 unfolding Nil by (simp add: strip_eol_def)
  next
    case (Cons c t)
    then have "length (strip_eol ?d) < length ?d" by (auto simp: strip_eol_def)
    also have "\<dots> \<le> length s" by (rule length_dropWhile_le)
    finally show ?thesis .
  qed
  then show ?case by simp
qed simp

declare lines_of.simps [simp del]

lemma words_blank: "blank c \<Longrightarrow> words (c # s) = words s"
  by (simp add: words.simps [of "c # s"] words.simps [of s])

lemma parse_extensions_words:
  assumes "nul_free_str line"
  shows "parse_extensions line pad bound1 lbound st =
    foldl (\<lambda>st e. add_mime_mapping e (split_string line pad bound1) st) st (words (drop lbound line))"
  using assms
proof (induction line pad bound1 lbound st rule: parse_extensions.induct)
  case (1 line pad bound1 lbound st)
  let ?l = "scan blank line lbound"
  let ?r = "scan (\<lambda>c. \<not> blank c) line ?l"
  have at: "c_at line i = NUL \<longleftrightarrow> length line \<le> i" for i
    using "1.prems" by (auto simp: c_at_def) (metis nth_mem)
  show ?case
  proof (cases "lbound \<le> length line")
    case False
    then show ?thesis using scan_outside [of line lbound blank]
      by (simp add: parse_extensions.simps [of line pad bound1 lbound st] Let_def at words.simps)
  next
    case le: True
    have dl: "drop ?l line = dropWhile blank (drop lbound line)" by (rule drop_scan [OF le])
    show ?thesis
    proof (cases "length line \<le> ?l")
      case True
      with dl show ?thesis
        by (simp add: parse_extensions.simps [of line pad bound1 lbound st] Let_def at
            words.simps [of "drop lbound line"])
    next
      case lt: False
      then have l: "?l \<le> length line" by simp
      have nf: "nul_free_str (drop ?l line)" using "1.prems" by (auto dest: in_set_dropD)
      then have sp: "split_string line ?l ?r = takeWhile (\<lambda>c. \<not> blank c) (drop ?l line)"
        by (simp add: split_string_scan [OF l] takeWhile_eq_all_conv)
          (metis cstr_id set_takeWhileD)
      have dr: "drop ?r line = dropWhile (\<lambda>c. \<not> blank c) (drop ?l line)" by (rule drop_scan [OF l])
      have w: "words (drop lbound line) = split_string line ?l ?r # words (drop ?r line)"
        using lt by (simp add: words.simps [of "drop lbound line"] dl [symmetric] sp dr Let_def)
      show ?thesis
      proof (cases "length line \<le> ?r")
        case True
        with w lt show ?thesis
          by (simp add: parse_extensions.simps [of line pad bound1 lbound st] Let_def at words.simps)
      next
        case False
        then have "blank (line ! ?r)" using scan_stop [of "\<lambda>c. \<not> blank c" line ?l] by simp
        moreover have "drop ?r line = line ! ?r # drop (Suc ?r) line"
          using False by (simp add: Cons_nth_drop_Suc)
        ultimately have "words (drop ?r line) = words (drop (Suc ?r) line)"
          by (simp add: words_blank)
        with w lt False "1.IH" [OF refl _ refl refl, simplified at] "1.prems" show ?thesis
          by (simp add: parse_extensions.simps [of line pad bound1 lbound st] Let_def at)
      qed
    qed
  qed
qed

lemma split_word:
  assumes "nul_free_str line" "i \<le> length line"
  shows "split_string line i (scan (\<lambda>c. \<not> blank c) line i)
    = takeWhile (\<lambda>c. \<not> blank c) (drop i line)"
proof -
  have "nul_free_str (takeWhile (\<lambda>c. \<not> blank c) (drop i line))"
    using assms(1) by (auto dest: set_takeWhileD in_set_dropD)
  with assms(2) show ?thesis by (simp add: split_string_scan)
qed

lemma parse_mimetype_line_words:
  assumes "nul_free_str line"
  shows "parse_mimetype_line line st =
    (case words line of [] \<Rightarrow> st
     | mt # exts \<Rightarrow> if hd mt = CHR ''#'' then st
         else foldl (\<lambda>st e. add_mime_mapping e mt st) st exts)"
proof -
  let ?p = "scan blank line 0"
  let ?b = "scan (\<lambda>c. \<not> blank c) line (Suc ?p)"
  have at: "c_at line i = NUL \<longleftrightarrow> length line \<le> i" for i
    using assms by (auto simp: c_at_def) (metis nth_mem)
  have dp: "drop ?p line = dropWhile blank line" using drop_scan [of 0 line blank] by simp
  show ?thesis
  proof (cases "length line \<le> ?p")
    case True
    with dp show ?thesis by (simp add: parse_mimetype_line_def at words.simps [of line])
  next
    case False
    then have nb: "\<not> blank (line ! ?p)" "?p < length line" "drop ?p line \<noteq> []"
      using scan_stop [of blank line 0] by simp_all
    then have b: "scan (\<lambda>c. \<not> blank c) line ?p = ?b"
      by (simp add: scan.simps [of "\<lambda>c. \<not> blank c" line ?p])
    have mt: "split_string line ?p ?b = takeWhile (\<lambda>c. \<not> blank c) (drop ?p line)"
      using split_word [OF assms, of ?p] nb(2) by (simp add: b)
    have db: "drop ?b line = dropWhile (\<lambda>c. \<not> blank c) (drop ?p line)"
      using drop_scan [of ?p line "\<lambda>c. \<not> blank c"] nb(2) by (simp add: b)
    have w: "words line = split_string line ?p ?b # words (drop ?b line)"
      using nb(3) by (simp add: words.simps [of line] dp [symmetric] mt db Let_def)
    have hd: "hd (split_string line ?p ?b) = line ! ?p"
      using nb by (simp add: mt hd_drop_conv_nth Cons_nth_drop_Suc [symmetric])
    have nil: "words (drop ?b line) = []" if "length line \<le> ?b"
      using that by (simp add: words.simps)
    from nb(2) have c: "c_at line ?p = line ! ?p" by (simp add: c_at_def)
    show ?thesis
      using False nil
      by (auto simp: parse_mimetype_line_def Let_def at w hd c parse_extensions_words [OF assms]
          words.simps [of "[]"])
  qed
qed

lemma read_line_lines:
  assumes "pos \<le> length fp"
  defines "d \<equiv> dropWhile (\<lambda>c. c \<noteq> LF \<and> c \<noteq> CR) (drop pos fp)"
  shows "read_line fp pos =
    (if pos = length fp then None
     else Some (cstr (takeWhile (\<lambda>c. c \<noteq> LF \<and> c \<noteq> CR) (drop pos fp)),
       length fp - length (strip_eol d)))"
proof -
  let ?e = "scan (\<lambda>c. c \<noteq> LF \<and> c \<noteq> CR) fp pos"
  have e: "?e = pos + length (takeWhile (\<lambda>c. c \<noteq> LF \<and> c \<noteq> CR) (drop pos fp))"
    by (rule scan_takeWhile [OF assms(1)])
  have d: "drop ?e fp = d" unfolding d_def by (rule drop_scan [OF assms(1)])
  have le: "?e \<le> length fp" by (rule scan_le [OF assms(1)])
  have ge: "pos \<le> ?e" by (rule scan_ge)
  have tk: "take (?e - pos) (drop pos fp) = takeWhile (\<lambda>c. c \<noteq> LF \<and> c \<noteq> CR) (drop pos fp)"
    by (simp add: e takeWhile_eq_take [symmetric])
  show ?thesis
  proof (cases "?e = length fp")
    case True
    then have "d = []" using d by simp
    then have "length (strip_eol d) = 0" by (simp add: strip_eol_def)
    with True ge show ?thesis unfolding read_line_def Let_def tk by simp
  next
    case False
    with le have lt: "?e < length fp" by simp
    then have dc: "d = fp ! ?e # drop (Suc ?e) fp" using d by (simp add: Cons_nth_drop_Suc)
    have st: "length fp - length (strip_eol d) =
      (if fp ! ?e = CR \<and> Suc ?e < length fp \<and> fp ! Suc ?e = LF then ?e + 2 else ?e + 1)"
      using lt by (auto simp: dc strip_eol_def hd_drop_conv_nth)
    from lt ge have "pos \<noteq> length fp" by linarith
    with lt st show ?thesis by (simp add: read_line_def Let_def tk)
  qed
qed

lemma parse_file_lines:
  "pos \<le> length fp \<Longrightarrow> parse_extension_map_file fp pos st =
     foldl (\<lambda>st l. parse_mimetype_line (cstr l) st) st (lines_of (drop pos fp))"
proof (induction fp pos st rule: parse_extension_map_file.induct)
  case (1 fp pos st)
  let ?d = "strip_eol (dropWhile (\<lambda>c. c \<noteq> LF \<and> c \<noteq> CR) (drop pos fp))"
  let ?l = "takeWhile (\<lambda>c. c \<noteq> LF \<and> c \<noteq> CR) (drop pos fp)"
  note r = read_line_lines [OF "1.prems"]
  show ?case
  proof (cases "pos = length fp")
    case True
    with r show ?thesis
      by (simp add: parse_extension_map_file.simps [of fp "length fp" st] lines_of.simps [of "[]"])
  next
    case False
    have "suffix (strip_eol u) u" for u
      by (cases u; cases "tl u") (auto simp: strip_eol_def suffix_def)
    then have "suffix ?d fp"
      by (meson suffix_dropWhile suffix_drop suffix_order.trans)
    then have dd: "drop (length fp - length ?d) fp = ?d"
      by (rule drop_suffix)
    show ?thesis
      using "1.IH" [of "(cstr ?l, length fp - length ?d)" "cstr ?l" "length fp - length ?d"] r False dd "1.prems"
      by (simp add: parse_extension_map_file.simps [of fp pos st] lines_of.simps [of "drop pos fp"])
  qed
qed

lemma foldl_inv: "(\<And>t x. P t \<Longrightarrow> P (f t x)) \<Longrightarrow> P t \<Longrightarrow> P (foldl f t xs)"
  by (induction xs arbitrary: t) auto

lemma parse_mimetype_line_inv:
  "nul_free_str line \<Longrightarrow> mime_inv st \<Longrightarrow> mime_inv (parse_mimetype_line line st)"
  by (auto simp: parse_mimetype_line_words mt.inv_add intro: foldl_inv split: list.split)

lemma parse_extension_map_file_inv:
  "mime_inv st \<Longrightarrow> pos \<le> length fp \<Longrightarrow> mime_inv (parse_extension_map_file fp pos st)"
  by (simp add: parse_file_lines) (rule foldl_inv, simp_all add: parse_mimetype_line_inv)

lemma default_extension_map_nul_free: "l \<in> set default_extension_map \<Longrightarrow> nul_free_str l"
proof -
  have "\<forall>l \<in> set default_extension_map. nul_free_str l" by code_simp
  then show "l \<in> set default_extension_map \<Longrightarrow> nul_free_str l" by blast
qed

lemma parse_default_extension_map_inv:
  "mime_inv st \<Longrightarrow> mime_inv (parse_default_extension_map st)"
proof -
  have "mime_inv st \<Longrightarrow> mime_inv (foldl (\<lambda>st l. parse_mimetype_line l st) st ls)"
    if "\<forall>l \<in> set ls. nul_free_str l" for ls
    using that by (induction ls arbitrary: st) (auto simp: parse_mimetype_line_inv)
  then show "mime_inv st \<Longrightarrow> ?thesis"
    unfolding parse_default_extension_map_def using default_extension_map_nul_free by blast
qed

section \<open>Properties\<close>

text \<open>C13. The media type of a URL is the one the table has for what follows its last dot, compared
  without regard to case, and the default type if there is no dot or no entry: neither the cut-off
  of the backward search at \<^verbatim>\<open>longest_ext\<close> nor sorting and binary search lose an entry.\<close>

theorem url_content_type_lookup:
  assumes "mime_inv st"
  shows "url_content_type (sort_mime_map st) dflt url =
    (case last_ext url of None \<Rightarrow> dflt
     | Some e \<Rightarrow> (case mime_lookup st e of None \<Rightarrow> dflt | Some m \<Rightarrow> m))"
  using assms by (rule url_content_type_eq)

theorem url_content_type_lookup_witness:
  "url_content_type (sort_mime_map (add_mime_mapping ''html'' ''text/html'' empty_mime_state)) ''x''
     ''/a.b/c.HTML'' = ''text/html''"
proof -
  let ?st = "add_mime_mapping ''html'' ''text/html'' empty_mime_state"
  have "mime_inv ?st" by (simp add: mt.inv_add)
  from url_content_type_lookup [OF this]
  have "url_content_type (sort_mime_map ?st) ''x'' ''/a.b/c.HTML''
    = (case mime_lookup ?st ''HTML'' of None \<Rightarrow> ''x'' | Some m \<Rightarrow> m)"
    by (simp add: last_ext_def)
  also have "mime_lookup ?st ''HTML'' = Some ''text/html''" by code_simp
  finally show ?thesis by simp
qed

text \<open>C18. A line of a \<^verbatim>\<open>mime.types\<close> file maps each of its further words to its first word and
  changes no other entry; blank lines, comments and lines without extensions change nothing.\<close>

theorem parse_mimetype_line_maps:
  assumes "nul_free_str line" "mime_inv st"
  shows "mime_inv (parse_mimetype_line line st) \<and>
    mime_lookup (parse_mimetype_line line st) e =
    (case words line of [] \<Rightarrow> mime_lookup st e
     | mt # exts \<Rightarrow> if hd mt \<noteq> CHR ''#'' \<and> folded e \<in> folded ` set exts then Some mt
                    else mime_lookup st e)"
  using mt.add_all [OF assms(2)] parse_mimetype_line_inv [OF assms] assms
  by (auto simp: parse_mimetype_line_words split: list.split)

theorem parse_mimetype_line_maps_witness:
  "mime_lookup (parse_mimetype_line '' text/plain  txt asc'' empty_mime_state) ''ASC'' = Some ''text/plain''"
proof -
  have w: "words '' text/plain  txt asc'' = [''text/plain'', ''txt'', ''asc'']" by code_simp
  have "folded ''ASC'' = folded ''asc''" by code_simp
  then have "folded ''ASC'' \<in> folded ` set [''txt'', ''asc'']" by simp
  with w parse_mimetype_line_maps [of "'' text/plain  txt asc''" empty_mime_state "''ASC''"]
  show ?thesis by simp
qed

text \<open>C19. Reading a file line by line treats \<^verbatim>\<open>CR\<close>, \<^verbatim>\<open>CRLF\<close> and \<^verbatim>\<open>LF\<close> alike as one line
  ending, keeps a last line without one, and stops at the end of the file: every line reaches the
  parser once and in order.\<close>

theorem parse_extension_map_file_lines:
  "parse_extension_map_file fp 0 st =
     foldl (\<lambda>st l. parse_mimetype_line (cstr l) st) st (lines_of fp)"
  by (simp add: parse_file_lines)

end
