(* ===== verification/Auth.thy ===== *)
theory Auth
  imports Libc
begin

unbundle bit_operations_syntax

text \<open>
  Basic authentication: \<^verbatim>\<open>base64_encode\<close>, which builds the expected credentials from the
  command line, and \<^verbatim>\<open>password_equal\<close>, which compares them with those of a request in a time
  that does not depend on the secret.
\<close>

section \<open>Base64\<close>

definition base64_table :: string where
  "base64_table = ''ABCDEFGHIJKLMNOPQRSTUVWXYZabcdefghijklmnopqrstuvwxyz0123456789+/''"

text \<open>\<^verbatim>\<open>i < input_length ? (unsigned char)str[i++] : 0\<close> as a 32-bit value.\<close>

definition octet :: "string \<Rightarrow> nat \<Rightarrow> 32 word" where
  "octet str i = (if i < length str then of_nat (byte (str ! i)) else 0)"

function encode_triples :: "string \<Rightarrow> string" where
  "encode_triples str =
     (if str = [] then []
      else
        (let triple = push_bit 16 (octet str 0) + push_bit 8 (octet str 1) + octet str 2 in
         base64_table ! unat (drop_bit 18 triple AND 0x3F) #
         base64_table ! unat (drop_bit 12 triple AND 0x3F) #
         base64_table ! unat (drop_bit 6 triple AND 0x3F) #
         base64_table ! unat (triple AND 0x3F) #
         encode_triples (drop 3 str)))"
  by pat_completeness auto
termination
  by (relation "measure length") auto

declare encode_triples.simps [simp del]

definition mod_table :: "nat list" where
  "mod_table = [0, 2, 1]"

text \<open>The loop that overwrites the last characters with the padding.\<close>

fun pad_loop :: "nat \<Rightarrow> nat \<Rightarrow> string \<Rightarrow> string" where
  "pad_loop i 0 d = d"
| "pad_loop i (Suc n) d = pad_loop (Suc i) n (d[length d - 1 - i := CHR ''=''])"

definition base64_encode :: "string \<Rightarrow> string" where
  "base64_encode str = pad_loop 0 (mod_table ! (length str mod 3)) (encode_triples str)"

section \<open>Comparing passwords\<close>

definition w8 :: "char \<Rightarrow> 8 word" where
  "w8 c = of_nat (byte c)"

function password_loop :: "string \<Rightarrow> string \<Rightarrow> nat \<Rightarrow> nat \<Rightarrow> 8 word \<Rightarrow> nat \<times> nat \<times> 8 word" where
  "password_loop user_input secret i j out =
     (let out = out OR (w8 (c_at user_input i) XOR w8 (c_at secret j)) in
      if c_at user_input i = NUL then (i, j, out)
      else password_loop user_input secret (Suc i)
             (if c_at secret j \<noteq> NUL then Suc j else j) out)"
  by pat_completeness auto
termination
  by (relation "measure (\<lambda>(u, s, i, j, out). length u - i)") (auto simp: c_at_def split: if_splits)

declare password_loop.simps [simp del]

definition password_equal :: "string \<Rightarrow> string \<Rightarrow> bool" where
  "password_equal user_input secret =
     (case password_loop user_input secret 0 0 0 of
        (i, j, out) \<Rightarrow>
          (let out = out OR (if i \<noteq> j then 1 else 0);
               out = out OR (if c_at secret j \<noteq> NUL then 1 else 0)
           in out = 0))"

lemma w8_inj [simp]: "w8 a = w8 b \<longleftrightarrow> a = b"
proof
  assume "w8 a = w8 b"
  then have "unat (w8 a) = unat (w8 b)" by simp
  then show "a = b" by (simp add: w8_def unat_of_nat take_bit_nat_eq_self)
qed simp

lemma byte_or_0 [simp]: "(x :: 8 word) OR y = 0 \<longleftrightarrow> x = 0 \<and> y = 0"
  by (rule or_eq_0_iff)

lemma byte_xor_0 [simp]: "(x :: 8 word) XOR y = 0 \<longleftrightarrow> x = y"
proof
  assume "x XOR y = 0"
  then have "(x XOR y) XOR y = y" by simp
  then show "x = y" by (simp only: xor.assoc xor_self_eq xor.right_neutral)
qed simp

lemma password_loop_result:
  assumes "nul_free_str u" "nul_free_str s" "i \<le> length u" "j = min i (length s)"
  shows "\<exists>out'. password_loop u s i j out = (length u, min (length u) (length s), out') \<and>
    (out' = 0 \<longleftrightarrow> out = 0 \<and> (\<forall>k. i \<le> k \<and> k \<le> length u \<longrightarrow> c_at u k = c_at s (min k (length s))))"
  using assms
proof (induction u s i j out rule: password_loop.induct)
  case (1 u s i j out)
  have nu: "c_at u i = NUL \<longleftrightarrow> i = length u" and ns: "c_at s j = NUL \<longleftrightarrow> length s \<le> j"
    using 1(2-4) by (auto simp: c_at_def) (metis nth_mem)+
  let ?out = "out OR (w8 (c_at u i) XOR w8 (c_at s j))"
  show ?case
  proof (cases "i = length u")
    case True
    moreover have "(\<forall>k. i \<le> k \<and> k \<le> length u \<longrightarrow> P k) \<longleftrightarrow> P i" for P
      using True by (auto dest: le_antisym)
    ultimately show ?thesis using nu 1(5) True
      by (subst password_loop.simps) (auto simp: Let_def)
  next
    case False
    define j' where "j' = (if c_at s j \<noteq> NUL then Suc j else j)"
    have "j' = min (Suc i) (length s)" using 1(5) ns by (auto simp: j'_def)
    with False nu 1(1) [OF refl] 1(2-4) obtain out' where
      "password_loop u s (Suc i) j' ?out = (length u, min (length u) (length s), out')"
      "out' = 0 \<longleftrightarrow> ?out = 0 \<and>
         (\<forall>k. Suc i \<le> k \<and> k \<le> length u \<longrightarrow> c_at u k = c_at s (min k (length s)))"
      by (fastforce simp: j'_def)
    moreover have "(\<forall>k. i \<le> k \<and> k \<le> length u \<longrightarrow> c_at u k = c_at s (min k (length s))) \<longleftrightarrow>
        c_at u i = c_at s j \<and>
        (\<forall>k. Suc i \<le> k \<and> k \<le> length u \<longrightarrow> c_at u k = c_at s (min k (length s)))"
      using 1(4,5) by (metis Suc_leD Suc_le_eq le_neq_implies_less order.refl)
    ultimately show ?thesis
      using False nu by (auto simp: password_loop.simps [of u s i j out] Let_def j'_def)
  qed
qed

lemma password_equal_iff:
  assumes "nul_free_str u" "nul_free_str s"
  shows "password_equal u s \<longleftrightarrow> u = s"
proof -
  obtain out where out: "password_loop u s 0 0 0 = (length u, min (length u) (length s), out)"
    "out = 0 \<longleftrightarrow> (\<forall>k \<le> length u. c_at u k = c_at s (min k (length s)))"
    using password_loop_result [OF assms, of 0 0 0] by auto
  have n: "c_at s k \<noteq> NUL \<longleftrightarrow> k < length s" for k
    using assms(2) by (auto simp: c_at_def) (metis nth_mem)
  have "password_equal u s \<longleftrightarrow> length u = length s \<and> out = 0"
    by (auto simp: password_equal_def out(1) n Let_def min_def)
  also have "\<dots> \<longleftrightarrow> u = s"
    by (auto simp: out(2) list_eq_iff_nth_eq c_at_def min_def split: if_splits)
  finally show ?thesis .
qed

section \<open>Decoding what was encoded\<close>

text \<open>The decoder of RFC 4648, for groups of four characters with the padding at the end: the values of
  its table 1, from the character codes.\<close>

definition b64_val :: "char \<Rightarrow> nat" where
  "b64_val c =
     (if CHR ''A'' \<le> c \<and> c \<le> CHR ''Z'' then byte c - byte (CHR ''A'')
      else if CHR ''a'' \<le> c \<and> c \<le> CHR ''z'' then byte c - byte (CHR ''a'') + 26
      else if CHR ''0'' \<le> c \<and> c \<le> CHR ''9'' then byte c - byte (CHR ''0'') + 52
      else if c = CHR ''+'' then 62 else 63)"

fun b64_decode :: "string \<Rightarrow> string" where
  "b64_decode (a # b # c # d # r) =
     (let t = b64_val a * 2 ^ 18 + b64_val b * 2 ^ 12 in
      if c = CHR ''='' then [char_of (t div 2 ^ 16)]
      else
        (let t = t + b64_val c * 2 ^ 6 in
         if d = CHR ''='' then [char_of (t div 2 ^ 16), char_of (t div 2 ^ 8 mod 256)]
         else
           (let t = t + b64_val d in
            char_of (t div 2 ^ 16) # char_of (t div 2 ^ 8 mod 256) # char_of (t mod 256)
              # b64_decode r)))"
| "b64_decode s = []"

lemma base64_table_val:
  assumes "n < 64"
  shows "b64_val (base64_table ! n) = n \<and> base64_table ! n \<noteq> CHR ''=''"
proof -
  have "\<forall>n \<in> set [0..<64]. b64_val (base64_table ! n) = n \<and> base64_table ! n \<noteq> CHR ''=''"
    by code_simp
  with assms show ?thesis by simp
qed

lemma octet_value: "unat (octet s i) = byte (c_at s i)"
  using byte_less [of "s ! i"] unfolding octet_def c_at_def
  by (auto simp: unat_of_nat take_bit_nat_eq_self simp del: byte_less)

lemma triple_value:
  "unat (push_bit 16 (octet s 0) + push_bit 8 (octet s 1) + octet s 2)
     = byte (c_at s 0) * 2 ^ 16 + byte (c_at s 1) * 2 ^ 8 + byte (c_at s 2)"
proof -
  have b: "unat (octet s i) < 256" for i by (simp add: octet_value)
  have p: "unat (push_bit n (octet s i)) = unat (octet s i) * 2 ^ n" if "n \<le> 16" for n i
  proof -
    have "unat (octet s i) * 2 ^ n < 2 ^ 32"
    proof -
      have "unat (octet s i) * 2 ^ n \<le> 255 * 2 ^ 16"
        using b [of i] power_increasing [OF that, of "2::nat"] by (intro mult_mono) auto
      then show ?thesis by simp
    qed
    then have "take_bit LENGTH(32) (unat (octet s i) * 2 ^ n) = unat (octet s i) * 2 ^ n"
      by (intro take_bit_nat_eq_self) simp
    moreover have "unat (push_bit n (octet s i)) = take_bit LENGTH(32) (push_bit n (unat (octet s i)))"
      by (rule unsigned_push_bit_eq)
    ultimately show ?thesis by (simp only: push_bit_eq_mult)
  qed
  have "unat (push_bit 16 (octet s 0) + push_bit 8 (octet s 1))
      = unat (octet s 0) * 2 ^ 16 + unat (octet s 1) * 2 ^ 8"
    using b [of 0] b [of 1] p [of 16 0] p [of 8 1] by (simp add: unat_word_ariths)
  then show ?thesis
    using b [of 0] b [of 1] b [of 2] by (simp add: unat_word_ariths octet_value del: byte_less)
qed

lemma index_value: "unat (drop_bit n (w :: 32 word) AND 0x3F) = unat w div 2 ^ n mod 64"
proof -
  have "(0x3F :: 32 word) = mask 6" by (simp add: mask_eq_exp_minus_1)
  then have "drop_bit n w AND 0x3F = take_bit 6 (drop_bit n w)"
    by (simp only: take_bit_eq_mask)
  then have "unat (drop_bit n w AND 0x3F) = take_bit 6 (drop_bit n (unat w))"
    by (simp only: unsigned_take_bit_eq unat_drop_bit_eq)
  then show ?thesis by (simp only: take_bit_eq_mod drop_bit_eq_div) simp
qed

lemma index_value0: "unat ((w :: 32 word) AND 0x3F) = unat w mod 64"
  using index_value [of 0 w] by simp

text \<open>The four characters of one group.\<close>

definition group_chars :: "nat \<Rightarrow> string" where
  "group_chars t = [base64_table ! (t div 2 ^ 18 mod 64), base64_table ! (t div 2 ^ 12 mod 64),
     base64_table ! (t div 2 ^ 6 mod 64), base64_table ! (t mod 64)]"

lemma encode_triples_group:
  "s \<noteq> [] \<Longrightarrow> encode_triples s =
     group_chars (byte (c_at s 0) * 2 ^ 16 + byte (c_at s 1) * 2 ^ 8 + byte (c_at s 2))
       @ encode_triples (drop 3 s)"
  by (subst encode_triples.simps, simp only: Let_def index_value triple_value if_False)
    (simp only: index_value0 triple_value group_chars_def append.simps)

lemma length_encode_triples: "length (encode_triples s) = 4 * ((length s + 2) div 3)"
proof (induction s rule: encode_triples.induct)
  case (1 s)
  show ?case
  proof (cases "s = []")
    case True
    then show ?thesis by (simp add: encode_triples.simps)
  next
    case False
    with 1 have e: "length (encode_triples s) = 4 + 4 * ((length (drop 3 s) + 2) div 3)"
      by (simp add: encode_triples_group group_chars_def)
    have "(length s + 2) div 3 = Suc ((length s - 3 + 2) div 3)"
    proof (cases "length s < 3")
      case True
      with False have "length s = 1 \<or> length s = 2" by (cases s rule: remdups_adj.cases) auto
      then show ?thesis by auto
    next
      case False
      then have "length s + 2 = (length s - 3 + 2) + 3" by simp
      then show ?thesis by (metis add.commute add_Suc_right div_add_self2 numeral_3_eq_3 plus_1_eq_Suc zero_neq_numeral)
    qed
    with e show ?thesis by simp
  qed
qed

lemma group_digits:
  assumes "t < 2 ^ 24"
  shows "t div 2 ^ 18 mod 64 * 2 ^ 18 + t div 2 ^ 12 mod 64 * 2 ^ 12 + t div 2 ^ 6 mod 64 * 2 ^ 6
    + t mod 64 = (t::nat)"
proof -
  define q6 q12 q18 where "q6 = t div 64" and "q12 = q6 div 64" and "q18 = q12 div 64"
  define r0 r6 r12 where "r0 = t mod 64" and "r6 = q6 mod 64" and "r12 = q12 mod 64"
  have q: "t div 2 ^ 6 = q6" "t div 2 ^ 12 = q12" "t div 2 ^ 18 = q18"
    by (simp_all add: q6_def q12_def q18_def div_mult2_eq [symmetric])
  have "t = q6 * 64 + r0" "q6 = q12 * 64 + r6" "q12 = q18 * 64 + r12"
    by (simp_all add: q6_def q12_def q18_def r0_def r6_def r12_def)
  moreover have "t div 2 ^ 18 < 64" using assms by (simp add: less_mult_imp_div_less)
  ultimately show ?thesis unfolding q r0_def [symmetric] r6_def [symmetric] r12_def [symmetric] by simp
qed

lemma decode_group:
  assumes "a < 256" "b < 256" "c < 256"
  defines "t \<equiv> a * 2 ^ 16 + b * 2 ^ 8 + c"
  shows "b64_decode (group_chars t @ r) = char_of a # char_of b # char_of c # b64_decode r"
    and "c = 0 \<Longrightarrow> b64_decode (take 3 (group_chars t) @ ''='') = [char_of a, char_of b]"
    and "b = 0 \<Longrightarrow> c = 0 \<Longrightarrow> b64_decode (take 2 (group_chars t) @ ''=='') = [char_of a]"
proof -
  have t: "t < 2 ^ 24" using assms by simp
  have v: "b64_val (base64_table ! (n mod 64)) = n mod 64" "base64_table ! (n mod 64) \<noteq> CHR ''=''" for n
    using base64_table_val [of "n mod 64"] by simp_all
  have bytes: "t div 2 ^ 16 = a" "t div 2 ^ 8 mod 256 = b" "t mod 256 = c"
  proof -
    have e: "t = c + (b + a * 256) * 256" by (simp add: t_def)
    have "t div 256 = b + a * 256 + c div 256" unfolding e by (rule div_mult_self1) simp
    then have "t div 256 = b + a * 256" using assms(3) by simp
    then have "t div 256 mod 256 = b" "t div 256 div 256 = a" using assms(2) by simp_all
    moreover have "t mod 256 = c mod 256" unfolding e by (rule mod_mult_self1)
    then have "t mod 256 = c" using assms(3) by simp
    ultimately show "t div 2 ^ 16 = a" "t div 2 ^ 8 mod 256 = b" "t mod 256 = c"
      by (simp_all add: div_mult2_eq [symmetric])
  qed
  note g = group_digits [OF t]
  show "b64_decode (group_chars t @ r) = char_of a # char_of b # char_of c # b64_decode r"
    by (simp only: group_chars_def append.simps b64_decode.simps v if_False Let_def g bytes)
  show "b64_decode (take 3 (group_chars t) @ ''='') = [char_of a, char_of b]" if "c = 0"
  proof -
    have "t mod 64 = 0"
      using that mod_mult_self2_is_0 [of "a * 1024 + b * 4" 64] by (simp add: t_def)
    with g have g': "t div 2 ^ 18 mod 64 * 2 ^ 18 + t div 2 ^ 12 mod 64 * 2 ^ 12
      + t div 2 ^ 6 mod 64 * 2 ^ 6 = t" by (simp only: add_0_right)
    have "take 3 (group_chars t) @ ''='' = [base64_table ! (t div 2 ^ 18 mod 64),
      base64_table ! (t div 2 ^ 12 mod 64), base64_table ! (t div 2 ^ 6 mod 64), CHR ''='']"
      by (simp add: group_chars_def numeral_2_eq_2 numeral_3_eq_3)
    then show ?thesis
      by (simp only: b64_decode.simps v if_False if_True refl Let_def g' bytes)
  qed
  show "b64_decode (take 2 (group_chars t) @ ''=='') = [char_of a]" if "b = 0" "c = 0"
  proof -
    have "t mod 64 = 0" "t div 2 ^ 6 mod 64 = 0"
      using that mod_mult_self2_is_0 [of "a * 1024" 64] by (simp_all add: t_def)
    with g have g': "t div 2 ^ 18 mod 64 * 2 ^ 18 + t div 2 ^ 12 mod 64 * 2 ^ 12 = t"
      by (simp only: add_0_right mult_0)
    have "take 2 (group_chars t) @ ''=='' = [base64_table ! (t div 2 ^ 18 mod 64),
      base64_table ! (t div 2 ^ 12 mod 64), CHR ''='', CHR ''='']"
      by (simp add: group_chars_def numeral_2_eq_2 numeral_3_eq_3)
    then show ?thesis
      by (simp only: b64_decode.simps v if_False if_True refl Let_def g' bytes)
  qed
qed

text \<open>The encoding, group by group, with the padding of the last one.\<close>

lemma pad_loop_append: "n + i \<le> length d \<Longrightarrow> pad_loop i n (p @ d) = p @ pad_loop i n d"
proof (induction i n d rule: pad_loop.induct)
  case (2 i n d)
  then have "(p @ d)[length (p @ d) - 1 - i := CHR ''=''] = p @ d[length d - 1 - i := CHR ''='']"
    by (auto simp: list_update_append)
  with 2 show ?case by simp
qed simp

lemma pad_loop_4:
  "pad_loop 0 2 [w, x, y, z] = [w, x, CHR ''='', CHR ''='']"
  "pad_loop 0 1 [w, x, y, z] = [w, x, y, CHR ''='']"
  by (simp_all add: numeral_2_eq_2)

lemma pad_group:
  "pad_loop 0 2 (group_chars t) = take 2 (group_chars t) @ ''==''"
  "pad_loop 0 1 (group_chars t) = take 3 (group_chars t) @ ''=''"
  by (simp_all only: group_chars_def pad_loop_4) simp_all

declare pad_loop.simps(2) [simp del]

lemma base64_encode_step:
  assumes "3 \<le> length s"
  shows "base64_encode s =
    group_chars (byte (s ! 0) * 2 ^ 16 + byte (s ! 1) * 2 ^ 8 + byte (s ! 2))
      @ base64_encode (drop 3 s)"
proof -
  let ?r = "drop 3 s"
  have m: "length s mod 3 = length ?r mod 3" using assms by (simp add: mod_if [of "length s"])
  have "length ?r mod 3 < 3" by simp
  then have "length ?r mod 3 \<in> {0, 1, 2}" by auto
  moreover have "length ?r mod 3 = 0 \<or> 0 < length ?r" by auto
  then have "length ?r mod 3 = 0 \<or> 4 \<le> length (encode_triples ?r)"
    by (simp add: length_encode_triples) presburger
  ultimately have n: "mod_table ! (length ?r mod 3) + 0 \<le> length (encode_triples ?r)"
    by (auto simp: mod_table_def)
  from assms have "s \<noteq> []" by auto
  then show ?thesis using assms pad_loop_append [OF n]
    by (simp add: base64_encode_def encode_triples_group c_at_def m)
qed

lemma decode_base64: "b64_decode (base64_encode s) = s"
proof (induction s rule: encode_triples.induct)
  case (1 s)
  have b: "byte c < 256" for c by simp
  have t: "encode_triples [] = []" by (simp add: encode_triples.simps)
  consider "s = []" | a where "s = [a]" | a c where "s = [a, c]" | "3 \<le> length s"
    by (cases "3 \<le> length s") (auto simp: not_le less_Suc_eq numeral_3_eq_3 length_Suc_conv)
  then show ?case
  proof cases
    case 1
    then show ?thesis by (simp add: base64_encode_def mod_table_def t)
  next
    case 2
    then have "base64_encode s = pad_loop 0 2 (group_chars (byte a * 2 ^ 16 + 0 * 2 ^ 8 + 0))"
      by (simp add: base64_encode_def encode_triples_group mod_table_def t)
    with decode_group(3) [of "byte a" 0 0] 2 show ?thesis by (simp only: pad_group) simp
  next
    case 3
    then have "base64_encode s = pad_loop 0 1 (group_chars (byte a * 2 ^ 16 + byte c * 2 ^ 8 + 0))"
      by (simp add: base64_encode_def encode_triples_group mod_table_def t c_at_def)
    with decode_group(2) [of "byte a" "byte c" 0] 3 show ?thesis by (simp only: pad_group) simp
  next
    case 4
    then have "s = s ! 0 # s ! 1 # s ! 2 # drop 3 s"
      by (cases s; cases "tl s"; cases "tl (tl s)") (auto simp: numeral_2_eq_2 numeral_3_eq_3)
    moreover from 4 have "s \<noteq> []" by auto
    note "1.IH" [OF this]
    ultimately show ?thesis
      using decode_group(1) [OF b b b] by (simp add: base64_encode_step [OF 4]) 
  qed
qed

section \<open>Properties\<close>

text \<open>C7. Two strings compare equal exactly if they are equal, and the loop always runs over the
  whole of the user's input: the number of steps depends on nothing else.\<close>

theorem password_equal_correct:
  assumes "nul_free_str user_input" "nul_free_str secret"
  shows "(password_equal user_input secret \<longleftrightarrow> user_input = secret) \<and>
    fst (password_loop user_input secret 0 0 0) = length user_input"
  using password_equal_iff [OF assms] password_loop_result [OF assms, of 0 0 0] by auto

theorem password_equal_correct_witness:
  "\<not> password_equal ''abcd'' ''abc'' \<and> password_equal ''abc'' ''abc''"
  using password_equal_correct [of "''abcd''" "''abc''"] password_equal_correct [of "''abc''" "''abc''"]
  by simp

text \<open>C20. Decoding the Base64 text gives the credentials back, so different credentials never give
  the same \<^verbatim>\<open>auth_key\<close>; the text has four characters for every three bytes or part of it.\<close>

theorem base64_encode_roundtrip:
  "b64_decode (base64_encode s) = s \<and> length (base64_encode s) = 4 * ((length s + 2) div 3)"
proof -
  have "length (pad_loop i n d) = length d" for i n d
    by (induction i n d rule: pad_loop.induct) (auto simp: pad_loop.simps)
  then show ?thesis by (simp add: decode_base64) (simp add: base64_encode_def length_encode_triples)
qed

end
