(* ===== verification/Dates.thy ===== *)
theory Dates
  imports Libc
begin

text \<open>
  Dates: \<^verbatim>\<open>gmtime\<close> and the three \<^verbatim>\<open>strftime\<close> formats the program uses.  \<^verbatim>\<open>strftime\<close> fails
  (returns 0) where the text and its terminator do not fit the buffer; the result is then
  \<open>None\<close>.  The broken-down local time depends on the time zone and is a parameter of the
  functions that need it.
\<close>

section \<open>The calendar\<close>

record tm =
  tm_sec :: int
  tm_min :: int
  tm_hour :: int
  tm_mday :: int
  tm_mon :: int
  tm_year :: int \<comment> \<open>the year itself, not the offset from 1900\<close>
  tm_wday :: int
  tm_gmtoff :: int

definition isleap :: "int \<Rightarrow> bool" where
  "isleap y \<longleftrightarrow> y mod 4 = 0 \<and> (y mod 100 \<noteq> 0 \<or> y mod 400 = 0)"

text \<open>Days from 1970-01-01 to the first day of the year \<open>y\<close>.\<close>

definition days_before_year :: "int \<Rightarrow> int" where
  "days_before_year y =
     365 * (y - 1970) + ((y - 1) div 4 - (y - 1) div 100 + (y - 1) div 400) - 477"

definition year_of_day :: "int \<Rightarrow> int" where
  "year_of_day d =
     (let e = 1970 + (400 * d) div 146097 in
      if days_before_year (e + 1) \<le> d then e + 1
      else if d < days_before_year e then e - 1 else e)"

definition month_days :: "bool \<Rightarrow> int list" where
  "month_days leap =
     (if leap then [0, 31, 60, 91, 121, 152, 182, 213, 244, 274, 305, 335]
      else [0, 31, 59, 90, 120, 151, 181, 212, 243, 273, 304, 334])"

definition month_of_yday :: "bool \<Rightarrow> int \<Rightarrow> nat" where
  "month_of_yday leap yday = length (takeWhile (\<lambda>m. m \<le> yday) (tl (month_days leap)))"

definition gmtime :: "int \<Rightarrow> tm" where
  "gmtime t =
     (let days = t div 86400; rem = t mod 86400;
          y = year_of_day days;
          yday = days - days_before_year y;
          mon = month_of_yday (isleap y) yday
      in \<lparr>tm_sec = rem mod 60, tm_min = rem mod 3600 div 60, tm_hour = rem div 3600,
          tm_mday = yday - month_days (isleap y) ! mon + 1, tm_mon = int mon, tm_year = y,
          tm_wday = (4 + days) mod 7, tm_gmtoff = 0\<rparr>)"

section \<open>Formatting\<close>

definition two_digits :: "int \<Rightarrow> string" where
  "two_digits n = [digit_char (nat (n div 10)), digit_char (nat (n mod 10))]"

definition day_names :: "string list" where
  "day_names = [''Sun'', ''Mon'', ''Tue'', ''Wed'', ''Thu'', ''Fri'', ''Sat'']"

definition month_names :: "string list" where
  "month_names = [''Jan'', ''Feb'', ''Mar'', ''Apr'', ''May'', ''Jun'',
     ''Jul'', ''Aug'', ''Sep'', ''Oct'', ''Nov'', ''Dec'']"

text \<open>\<^verbatim>\<open>strftime\<close> with a buffer of \<open>size\<close> bytes.\<close>

definition fit :: "nat \<Rightarrow> string \<Rightarrow> string option" where
  "fit n s = (if length s + 1 \<le> n then Some s else None)"

definition DATE_LEN :: nat where "DATE_LEN = 30"
definition CLF_DATE_LEN :: nat where "CLF_DATE_LEN = 29"
definition DIR_LIST_MTIME_SIZE :: nat where "DIR_LIST_MTIME_SIZE = 16 + 1"

definition rfc1123_text :: "tm \<Rightarrow> string" where
  "rfc1123_text tm =
     day_names ! nat (tm_wday tm) @ '', '' @ two_digits (tm_mday tm) @ '' '' @
     month_names ! nat (tm_mon tm) @ '' '' @ dec_int (tm_year tm) @ '' '' @
     two_digits (tm_hour tm) @ '':'' @ two_digits (tm_min tm) @ '':'' @
     two_digits (tm_sec tm) @ '' GMT''"

definition rfc1123_date :: "int \<Rightarrow> string" where
  "rfc1123_date when =
     (case fit DATE_LEN (rfc1123_text (gmtime when)) of None \<Rightarrow> [] | Some s \<Rightarrow> s)"

text \<open>The offset from UTC as \<^verbatim>\<open>%z\<close> prints it.\<close>

definition zone_text :: "int \<Rightarrow> string" where
  "zone_text off =
     (if off < 0 then ''-'' else ''+'') @ two_digits (\<bar>off\<bar> div 3600)
       @ two_digits (\<bar>off\<bar> mod 3600 div 60)"

definition clf_date :: "(int \<Rightarrow> tm) \<Rightarrow> int \<Rightarrow> string" where
  "clf_date localtime when =
     (let tm = localtime when in
      case fit CLF_DATE_LEN
        (''['' @ two_digits (tm_mday tm) @ ''/'' @ month_names ! nat (tm_mon tm) @ ''/'' @
         dec_int (tm_year tm) @ '':'' @ two_digits (tm_hour tm) @ '':'' @
         two_digits (tm_min tm) @ '':'' @ two_digits (tm_sec tm) @ '' '' @
         zone_text (tm_gmtoff tm) @ '']'')
      of None \<Rightarrow> [] | Some s \<Rightarrow> s)"

text \<open>The date of a directory listing.  Where it does not fit, \<^verbatim>\<open>strftime\<close> leaves the buffer
  indeterminate, and the program does not look at the result.\<close>

definition mtime_text :: "(int \<Rightarrow> tm) \<Rightarrow> int \<Rightarrow> string option" where
  "mtime_text localtime mtime =
     (let tm = localtime mtime in
      fit DIR_LIST_MTIME_SIZE
        (dec_int (tm_year tm) @ ''-'' @ two_digits (tm_mon tm + 1) @ ''-'' @
         two_digits (tm_mday tm) @ '' '' @ two_digits (tm_hour tm) @ '':'' @
         two_digits (tm_min tm)))"

section \<open>The calendar is right\<close>

lemma div_between:
  fixes x n :: int
  assumes "0 < n"
  shows "n * (x div n) \<le> x \<and> x < n * (x div n) + n"
  using pos_mod_bound [OF assms, of x] pos_mod_sign [OF assms, of x] mult_div_mod_eq [of n x] by linarith

lemma div_pred:
  fixes y n :: int
  assumes "0 < n"
  shows "y div n = (y - 1) div n + (if n dvd y then 1 else 0)"
proof (cases "n dvd y")
  case True
  then obtain k where k: "y = n * k" by blast
  have "(y - 1) div n = k - 1"
    using assms by (intro int_div_pos_eq [of _ _ _ "n - 1"]) (simp_all add: k algebra_simps)
  with assms k show ?thesis by simp
next
  case False
  then have "y mod n \<noteq> 0" by (simp add: dvd_eq_mod_eq_0)
  then have "(y - 1) div n = y div n"
    using assms pos_mod_bound [OF assms, of y] pos_mod_sign [OF assms, of y] mult_div_mod_eq [of n y]
    by (intro int_div_pos_eq [of _ _ _ "y mod n - 1"]) linarith+
  with False show ?thesis by simp
qed

lemma days_before_year_step: "days_before_year (y + 1) = days_before_year y + (if isleap y then 366 else 365)"
proof -
  have sum: "365 * (y + 1 - 1970) + ((a + i) - (b + j) + (c + k)) - 477
      = (365 * (y - 1970) + (a - b + c) - 477) + 365 + i - j + k" for a b c i j k :: int
    by (simp add: algebra_simps)
  have "y div 4 = (y - 1) div 4 + (if 4 dvd y then 1 else 0)"
    "y div 100 = (y - 1) div 100 + (if 100 dvd y then 1 else 0)"
    "y div 400 = (y - 1) div 400 + (if 400 dvd y then 1 else 0)"
    by (rule div_pred; simp only: zero_less_numeral)+
  then have leap_terms: "365 * (y + 1 - 1970) + (y div 4 - y div 100 + y div 400) - 477
      = (365 * (y - 1970) + ((y - 1) div 4 - (y - 1) div 100 + (y - 1) div 400) - 477) + 365
        + (if 4 dvd y then 1 else 0) - (if 100 dvd y then 1 else 0) + (if 400 dvd y then 1 else 0)"
    by (simp only: sum)
  have days: "days_before_year (y + 1) = days_before_year y + 365
      + (if 4 dvd y then 1 else 0) - (if 100 dvd y then 1 else 0) + (if 400 dvd y then 1 else 0)"
    unfolding days_before_year_def add_diff_cancel_right' by (rule leap_terms)
  have hundreds: "100 dvd y \<Longrightarrow> 4 dvd y" "400 dvd y \<Longrightarrow> 100 dvd y"
    by (auto intro: dvd_trans [of 4 100 y] dvd_trans [of 100 400 y])
  have leap: "isleap y \<longleftrightarrow> 4 dvd y \<and> (\<not> 100 dvd y \<or> 400 dvd y)"
    by (simp only: isleap_def dvd_eq_mod_eq_0)
  have "x = d + 365 + (if a then 1 else 0) - (if b then 1 else 0) + (if c then 1 else 0) \<Longrightarrow>
      (b \<Longrightarrow> a) \<Longrightarrow> (c \<Longrightarrow> b) \<Longrightarrow> l \<longleftrightarrow> a \<and> (\<not> b \<or> c) \<Longrightarrow> x = d + (if l then 366 else 365)"
    for x d :: int and a b c l by (cases a; cases b; cases c) simp_all
  note combine = this
  show ?thesis by (rule combine [OF days hundreds leap])
qed

lemma days_before_year_approx:
  "146097 * (y - 1970) - 506 \<le> 400 * days_before_year y"
  "400 * days_before_year y \<le> 146097 * (y - 1970) + 589"
proof -
  have "146097 * (y - 1970) - 506 \<le> 400 * (365 * (y - 1970) + (a - b + c) - 477)"
    "400 * (365 * (y - 1970) + (a - b + c) - 477) \<le> 146097 * (y - 1970) + 589"
    if "4 * a \<le> y - 1 \<and> y - 1 < 4 * a + 4" "100 * b \<le> y - 1 \<and> y - 1 < 100 * b + 100"
      "400 * c \<le> y - 1 \<and> y - 1 < 400 * c + 400" for a b c
    using that by (simp_all add: algebra_simps)
  note this [OF div_between div_between div_between]
  then show "146097 * (y - 1970) - 506 \<le> 400 * days_before_year y"
    "400 * days_before_year y \<le> 146097 * (y - 1970) + 589"
    unfolding days_before_year_def by simp_all
qed

lemma year_of_day_bounds:
  "days_before_year (year_of_day d) \<le> d \<and> d < days_before_year (year_of_day d + 1)"
proof -
  define q where "q = (400 * d) div 146097"
  define e where "e = 1970 + q"
  have "146097 * q \<le> 400 * d \<and> 400 * d < 146097 * q + 146097"
    unfolding q_def by (rule div_between) simp
  then have e: "146097 * (e - 1970) \<le> 400 * d" "400 * d < 146097 * (e - 1970) + 146097"
    by (simp_all add: e_def)
  have s: "days_before_year y + 365 \<le> days_before_year (y + 1)" for y
    by (simp add: days_before_year_step)
  have "d < days_before_year (e + 2)"
    using days_before_year_approx(1) [of "e + 2"] e by (simp add: algebra_simps)
  moreover have "days_before_year (e - 1) \<le> d"
    using days_before_year_approx(2) [of "e - 1"] e by (simp add: algebra_simps)
  moreover have "year_of_day d = (if days_before_year (e + 1) \<le> d then e + 1
      else if d < days_before_year e then e - 1 else e)"
    by (simp only: year_of_day_def Let_def e_def q_def)
  ultimately show ?thesis using s [of e] by (simp add: add.commute)
qed

text \<open>The month is the last one that does not begin after the day.\<close>

lemma month_of_yday_bounds:
  assumes "0 \<le> yday" "yday < (if leap then 366 else 365)"
  shows "month_of_yday leap yday < 12 \<and> month_days leap ! month_of_yday leap yday \<le> yday \<and>
    yday - month_days leap ! month_of_yday leap yday < 31"
  using assms by (cases leap) (auto simp: month_of_yday_def month_days_def)

lemma days_before_year_1970 [simp]: "days_before_year 1970 = 0"
  by (simp add: days_before_year_def)

lemma days_before_year_mono: "y \<le> z \<Longrightarrow> days_before_year y \<le> days_before_year z"
proof (induction "nat (z - y)" arbitrary: z)
  case (Suc n)
  then have "days_before_year y \<le> days_before_year (z - 1)" by simp
  also have "\<dots> \<le> days_before_year z" using days_before_year_step [of "z - 1"] by simp
  finally show ?case .
qed simp

text \<open>The seconds since the epoch can be computed back from the fields.\<close>

definition timegm :: "tm \<Rightarrow> int" where
  "timegm tm =
     86400 * (days_before_year (tm_year tm) + month_days (isleap (tm_year tm)) ! nat (tm_mon tm)
       + tm_mday tm - 1) + 3600 * tm_hour tm + 60 * tm_min tm + tm_sec tm"

lemma timegm_gmtime: "timegm (gmtime t) = t"
proof -
  let ?r = "t mod 86400"
  have "?r mod 3600 mod 60 = ?r mod 60" by (rule mod_mod_cancel) simp
  then have "3600 * (?r div 3600) + 60 * (?r mod 3600 div 60) + ?r mod 60 = ?r"
    using mult_div_mod_eq [of 3600 ?r] mult_div_mod_eq [of 60 "?r mod 3600"] by linarith
  moreover have "timegm (gmtime t) = 86400 * (t div 86400)
      + (3600 * (?r div 3600) + 60 * (?r mod 3600 div 60) + ?r mod 60)"
    by (simp only: timegm_def gmtime_def Let_def tm.simps nat_int) simp
  ultimately have "timegm (gmtime t) = 86400 * (t div 86400) + ?r" by (simp only:)
  also have "\<dots> = t" by (rule mult_div_mod_eq)
  finally show ?thesis .
qed

lemma time_of_day_bounds:
  fixes r :: int
  assumes "0 \<le> r" "r < 86400"
  shows "0 \<le> r mod 60" "r mod 60 < 60" "0 \<le> r mod 3600 div 60" "r mod 3600 div 60 < 60"
    "0 \<le> r div 3600" "r div 3600 < 24"
proof -
  have "0 \<le> r mod 3600" "r mod 3600 < 3600" by simp_all
  then show "0 \<le> r mod 3600 div 60" "r mod 3600 div 60 < 60"
    by (simp_all only: pos_imp_zdiv_nonneg_iff div_less_iff_less_mult zero_less_numeral)
  show "0 \<le> r div 3600" "r div 3600 < 24" using assms by simp_all
qed simp_all

lemma gmtime_fields:
  assumes "tm = gmtime t"
  shows "0 \<le> tm_sec tm \<and> tm_sec tm < 60 \<and> 0 \<le> tm_min tm \<and> tm_min tm < 60 \<and>
    0 \<le> tm_hour tm \<and> tm_hour tm < 24 \<and> 1 \<le> tm_mday tm \<and> tm_mday tm \<le> 31 \<and>
    0 \<le> tm_mon tm \<and> tm_mon tm < 12 \<and> 0 \<le> tm_wday tm \<and> tm_wday tm < 7"
proof -
  let ?d = "t div 86400"
  let ?y = "year_of_day ?d"
  let ?yday = "?d - days_before_year ?y"
  from year_of_day_bounds [of ?d] days_before_year_step [of ?y]
  have "0 \<le> ?yday" "?yday < (if isleap ?y then 366 else 365)" by auto
  note m = month_of_yday_bounds [OF this]
  have m': "1 \<le> ?yday - month_days (isleap ?y) ! month_of_yday (isleap ?y) ?yday + 1"
    "?yday - month_days (isleap ?y) ! month_of_yday (isleap ?y) ?yday + 1 \<le> 31"
    "int (month_of_yday (isleap ?y) ?yday) < 12"
    using m by simp_all
  have w: "0 \<le> (4 + ?d) mod 7" "(4 + ?d) mod 7 < 7" by simp_all
  show ?thesis
    unfolding assms gmtime_def Let_def tm.simps
    using m' w time_of_day_bounds [of "t mod 86400", OF pos_mod_sign pos_mod_bound]
    by (simp only: zero_less_numeral of_nat_0_le_iff simp_thms)
qed

lemma gmtime_year:
  assumes "0 \<le> t" "t < 253402300800"
  shows "1970 \<le> tm_year (gmtime t) \<and> tm_year (gmtime t) < 10000"
proof -
  let ?d = "t div 86400"
  note b = year_of_day_bounds [of ?d]
  have "?d < 2932897" "0 \<le> ?d" using assms by auto
  have "days_before_year 10000 = 2932897" by (simp add: days_before_year_def)
  then have "year_of_day ?d < 10000"
    using b \<open>?d < 2932897\<close> days_before_year_mono [of 10000 "year_of_day ?d"] by linarith
  moreover have "1970 \<le> year_of_day ?d"
    using b \<open>0 \<le> ?d\<close> days_before_year_mono [of "year_of_day ?d + 1" 1970] by fastforce
  ultimately show ?thesis by (simp add: gmtime_def Let_def)
qed

section \<open>The text determines the date\<close>

lemma two_digits_inj:
  assumes "0 \<le> a" "a < 100" "0 \<le> b" "b < 100" "two_digits a = two_digits b"
  shows "a = b"
proof -
  have inj: "m = n" if "digit_char m = digit_char n" "m < 10" "n < 10" for m n
    using arg_cong [OF that(1), of byte] that(2,3) by (simp add: byte_digit_char)
  have lt: "nat (n div 10) < 10" "nat (n mod 10) < 10" "0 \<le> n div 10" "0 \<le> n mod 10" if "0 \<le> n" "n < 100" for n :: int
    using that by auto
  have "digit_char (nat (a div 10)) = digit_char (nat (b div 10))" "digit_char (nat (a mod 10)) = digit_char (nat (b mod 10))"
    using assms(5) by (simp_all add: two_digits_def)
  then have "nat (a div 10) = nat (b div 10)" "nat (a mod 10) = nat (b mod 10)"
    using inj lt assms(1-4) by blast+
  then have "a div 10 = b div 10" "a mod 10 = b mod 10"
    using lt [OF assms(1,2)] lt [OF assms(3,4)] by (simp_all only: eq_nat_nat_iff)
  then show ?thesis by (metis mult_div_mod_eq)
qed

lemma month_names_inj:
  assumes "i < 12" "j < 12" "month_names ! i = month_names ! j"
  shows "i = j"
proof -
  have "distinct month_names" "length month_names = 12" by code_simp+
  with assms show ?thesis by (metis nth_eq_iff_index_eq)
qed

lemma name_lengths:
  "i < 12 \<Longrightarrow> length (month_names ! i) = 3" "j < 7 \<Longrightarrow> length (day_names ! j) = 3"
proof -
  have "\<forall>i \<in> set [0..<12]. length (month_names ! i) = 3" "\<forall>i \<in> set [0..<7]. length (day_names ! i) = 3"
    by code_simp+
  then show "i < 12 \<Longrightarrow> length (month_names ! i) = 3" "j < 7 \<Longrightarrow> length (day_names ! j) = 3" by auto
qed

lemma dec_year:
  assumes "1000 \<le> y" "y < 10000"
  shows "length (dec_int y) = 4"
proof -
  have "1000 \<le> nat y" "nat y < 10000" using assms by linarith+
  moreover have "length (dec n) = 4" if n: "1000 \<le> n" "n < 10000" for n
  proof -
    from n have "100 \<le> n div 10" "n div 10 < 1000" "10 \<le> n div 100" "n div 100 < 100"
      "1 \<le> n div 1000" "n div 1000 < 10" by auto
    with n show ?thesis
      by (simp add: dec.simps [of n] dec.simps [of "n div 10"] dec.simps [of "n div 100"]
          dec.simps [of "n div 1000"] div_mult2_eq [symmetric])
  qed
  ultimately show ?thesis using assms by (simp add: dec_int_def)
qed

lemma month_of_gmtime: "nat (tm_mon (gmtime t)) < 12" "nat (tm_wday (gmtime t)) < 7"
  using gmtime_fields [OF refl, of t] by auto

lemma length_rfc1123_text:
  assumes "0 \<le> t" "t < 253402300800"
  shows "length (rfc1123_text (gmtime t)) = 29"
  using gmtime_year [OF assms] by (simp add: rfc1123_text_def name_lengths month_of_gmtime two_digits_def dec_year)

lemma rfc1123_date_text:
  assumes "0 \<le> t" "t < 253402300800"
  shows "rfc1123_date t = rfc1123_text (gmtime t)"
  by (simp add: rfc1123_date_def fit_def DATE_LEN_def length_rfc1123_text [OF assms])

lemma dec_int_inj: "0 \<le> a \<Longrightarrow> 0 \<le> b \<Longrightarrow> dec_int a = dec_int b \<Longrightarrow> a = b"
  by (auto simp: dec_int_def split: if_splits)

lemma rfc1123_text_inj:
  assumes "0 \<le> t" "t < 253402300800" "0 \<le> u" "u < 253402300800"
    "rfc1123_text (gmtime t) = rfc1123_text (gmtime u)"
  shows "t = u"
proof -
  note f = gmtime_fields [OF refl, of t] gmtime_fields [OF refl, of u]
  note y = gmtime_year [OF assms(1,2)] gmtime_year [OF assms(3,4)]
  have len: "length (two_digits n) = 2" for n by (simp add: two_digits_def)
  have "two_digits (tm_mday (gmtime t)) = two_digits (tm_mday (gmtime u)) \<and>
    month_names ! nat (tm_mon (gmtime t)) = month_names ! nat (tm_mon (gmtime u)) \<and>
    dec_int (tm_year (gmtime t)) = dec_int (tm_year (gmtime u)) \<and>
    two_digits (tm_hour (gmtime t)) = two_digits (tm_hour (gmtime u)) \<and>
    two_digits (tm_min (gmtime t)) = two_digits (tm_min (gmtime u)) \<and>
    two_digits (tm_sec (gmtime t)) = two_digits (tm_sec (gmtime u))"
    using assms(5) y unfolding rfc1123_text_def
    by (simp add: append_eq_append_conv name_lengths month_of_gmtime len dec_year)
  note eqs = this [THEN conjunct1] this [THEN conjunct2, THEN conjunct1]
    this [THEN conjunct2, THEN conjunct2]
  from month_names_inj [OF month_of_gmtime(1) month_of_gmtime(1) eqs(2)] f
  have "tm_mon (gmtime t) = tm_mon (gmtime u)" by (simp add: eq_nat_nat_iff)
  moreover have "tm_mday (gmtime t) = tm_mday (gmtime u)"
    by (rule two_digits_inj) (use f eqs(1) in auto)
  moreover have "tm_year (gmtime t) = tm_year (gmtime u)"
    by (rule dec_int_inj) (use y eqs(3) in auto)
  moreover have "tm_hour (gmtime t) = tm_hour (gmtime u)"
    by (rule two_digits_inj) (use f eqs(3) in auto)
  moreover have "tm_min (gmtime t) = tm_min (gmtime u)"
    by (rule two_digits_inj) (use f eqs(3) in auto)
  moreover have "tm_sec (gmtime t) = tm_sec (gmtime u)"
    by (rule two_digits_inj) (use f eqs(3) in auto)
  ultimately have "timegm (gmtime t) = timegm (gmtime u)" by (simp add: timegm_def)
  then show ?thesis by (simp only: timegm_gmtime)
qed

text \<open>C21. For every time from 1970 to the end of the year 9999 the RFC 1123 date fits its
  buffer, is 29 characters long, and two different times have two different dates: an
  If-Modified-Since comparison of the texts compares the times.\<close>

theorem rfc1123_date_faithful:
  assumes "0 \<le> t" "t < 253402300800" "0 \<le> u" "u < 253402300800"
  shows "length (rfc1123_date t) = 29 \<and> (rfc1123_date t = rfc1123_date u \<longleftrightarrow> t = u)"
  using assms rfc1123_text_inj [OF assms]
  by (auto simp: rfc1123_date_text length_rfc1123_text)

theorem rfc1123_date_faithful_witness:
  "rfc1123_date 0 \<noteq> rfc1123_date 86400 \<and> rfc1123_date 0 = ''Thu, 01 Jan 1970 00:00:00 GMT''"
proof -
  have "rfc1123_date 0 \<noteq> rfc1123_date 86400" using rfc1123_date_faithful [of 0 86400] by simp
  moreover have "rfc1123_date 0 = ''Thu, 01 Jan 1970 00:00:00 GMT''" by code_simp
  ultimately show ?thesis by simp
qed

end
