(* ===== verification/Conn.thy ===== *)
theory Conn
  imports Codec Dates Mime
begin

text \<open>
  The state of the server: one connection (\<^verbatim>\<open>struct connection\<close>), the command-line globals
  (\<open>config\<close>), the globals the event loop changes (\<open>server\<close>), and the operating system as the
  program sees it (\<open>os\<close>).  The operations are those on a connection's life: creation,
  recycling, logging, timing out and freeing.

  Every call that is visible outside the program is recorded in \<open>trace\<close>.  The results of
  \<^verbatim>\<open>recv\<close> and \<^verbatim>\<open>send\<close> come from two scripts, \<open>recvs\<close> and \<open>sends\<close>, that hold what the kernel
  answers to the successive calls; a theorem that holds for every script holds for every
  behaviour of the network.
\<close>

abbreviation CRLF :: string where "CRLF \<equiv> [CR, LF]"

section \<open>Types\<close>

datatype errno = EACCES | ENOENT | EAGAIN | EINTR | EMFILE | ENFILE | EBADF | EINVAL | EOTHER nat

datatype conn_state =
    RECV_REQUEST \<comment> \<open>receiving request\<close>
  | SEND_HEADER \<comment> \<open>sending generated header\<close>
  | SEND_REPLY \<comment> \<open>sending reply\<close>
  | DONE \<comment> \<open>connection closed, need to remove from queue\<close>

datatype reply_type = REPLY_GENERATED | REPLY_FROMFILE

text \<open>A pointer that may be NULL is an option; \<open>c_reply_type\<close> is an option because
  \<^verbatim>\<open>new_connection\<close> leaves it indeterminate.  The request is the received bytes (it may hold
  NULs); the other strings are C strings.  The address is the 16 bytes of an \<^verbatim>\<open>in6_addr\<close>, of
  which an IPv4 address takes the first four.\<close>

record connection =
  c_socket :: fd
  c_client :: "8 word list"
  c_last_active :: int
  c_state :: conn_state
  c_request :: "string option"
  c_request_length :: nat
  c_method :: "string option"
  c_url :: "string option"
  c_referer :: "string option"
  c_user_agent :: "string option"
  c_authorization :: "string option"
  c_forwarded_for :: "string option"
  c_range_begin :: int
  c_range_end :: int
  c_range_begin_given :: bool
  c_range_end_given :: bool
  c_header :: "string option"
  c_header_length :: nat
  c_header_sent :: nat
  c_header_dont_free :: bool
  c_header_only :: bool
  c_http_code :: int
  c_conn_close :: bool
  c_reply_type :: "reply_type option"
  c_reply :: "string option"
  c_reply_dont_free :: bool
  c_reply_fd :: fd
  c_reply_start :: int
  c_reply_length :: int
  c_reply_sent :: int
  c_total_sent :: int

record forward_mapping =
  host :: string
  target_url :: string

record config =
  forward_map :: "forward_mapping list"
  forward_all_url :: "string option"
  forward_to_https :: bool
  mime :: mime_state
  default_mimetype :: string
  timeout_secs :: int
  keep_alive_field :: string
  bindaddr :: "string option"
  bindport :: "16 word"
  max_connections :: int
  index_name :: string
  no_listing :: bool
  humanize_sizes :: bool
  inet6 :: bool
  wwwroot :: string
  logfile_name :: "string option"
  pidfile_name :: "string option"
  want_chroot :: bool
  want_daemon :: bool
  want_accf :: bool
  want_keepalive :: bool
  want_server_id :: bool
  want_single_file :: bool
  want_hide_dotfiles :: bool
  server_hdr :: string
  auth_key :: "string option"
  custom_hdrs :: string
  trusted_ip :: "string option"
  syslog_enabled :: bool
  drop_uid :: "32 word"
  drop_gid :: "32 word"

text \<open>What the program does to the outside.  \<open>Bad_log\<close> is a write to a log file that is
  closed.\<close>

datatype event =
    Opened string fd
  | Open_failed string
  | Stat string
  | Opendir string
  | Accepted fd
  | Sent fd string
  | Closed fd
  | Log string
  | Syslog string
  | Bad_log string

datatype recv_result = Recvd string | Recv_err errno
datatype send_result = Sends nat | Send_err errno
datatype log_file = Log_null | Log_open | Log_closed

record server =
  now :: int
  accepting :: bool
  running :: bool
  num_requests :: "64 word"
  total_in :: "64 word"
  total_out :: "64 word"
  logfile :: log_file
  recvs :: "recv_result list"
  sends :: "send_result list"
  trace :: "event list"

datatype file_mode = S_IFREG | S_IFDIR | S_IFOTHER

record stat =
  st_mode :: file_mode
  st_size :: int
  st_mtime :: int

text \<open>The file system and the parts of the C library that depend on the system: \<open>Inl\<close> is the
  \<^verbatim>\<open>errno\<close> of a call that fails.  \<open>os_data\<close> is the content of an open file, \<open>os_opendir\<close> the
  names of a directory in \<^verbatim>\<open>readdir\<close> order, \<open>os_undef\<close> what an uninitialised buffer holds.\<close>

record os =
  os_stat :: "string \<Rightarrow> errno + stat"
  os_open :: "string \<Rightarrow> errno + fd"
  os_fstat :: "fd \<Rightarrow> errno + stat"
  os_opendir :: "string \<Rightarrow> errno + string list"
  os_data :: "fd \<Rightarrow> string"
  os_close :: "fd \<Rightarrow> bool"
  os_fcntl :: "fd \<Rightarrow> bool"
  os_strerror :: "errno \<Rightarrow> string"
  os_localtime :: "int \<Rightarrow> tm"
  os_inet_ntop :: "8 word list \<Rightarrow> string"
  os_undef :: string

text \<open>A call of \<^verbatim>\<open>exit\<close> with this status, through \<^verbatim>\<open>err\<close> or \<^verbatim>\<open>errx\<close>; or the undefined behaviour of
  \<^verbatim>\<open>FD_SET\<close> with a descriptor that is too large for an \<^verbatim>\<open>fd_set\<close>.\<close>

datatype exit = Exit int | Fd_set_overflow

definition emit :: "event \<Rightarrow> server \<Rightarrow> server" where
  "emit e s = s\<lparr>trace := trace s @ [e]\<rparr>"

section \<open>Creating a connection\<close>

definition new_connection :: "server \<Rightarrow> connection" where
  "new_connection s =
     \<lparr>c_socket = -1, c_client = replicate 16 0, c_last_active = now s, c_state = DONE,
      c_request = None, c_request_length = 0, c_method = None, c_url = None,
      c_referer = None, c_user_agent = None, c_authorization = None, c_forwarded_for = None,
      c_range_begin = 0, c_range_end = 0, c_range_begin_given = False, c_range_end_given = False,
      c_header = None, c_header_length = 0, c_header_sent = 0, c_header_dont_free = False,
      c_header_only = False, c_http_code = 0, c_conn_close = True, c_reply_type = None,
      c_reply = None, c_reply_dont_free = False, c_reply_fd = -1, c_reply_start = 0,
      c_reply_length = 0, c_reply_sent = 0, c_total_sent = 0\<rparr>"

section \<open>Logging\<close>

definition inet_ntoa :: "8 word list \<Rightarrow> string" where
  "inet_ntoa a =
     dec (unat (a ! 0)) @ ''.'' @ dec (unat (a ! 1)) @ ''.'' @
     dec (unat (a ! 2)) @ ''.'' @ dec (unat (a ! 3))"

definition in6_is_addr_v4mapped :: "8 word list \<Rightarrow> bool" where
  "in6_is_addr_v4mapped a \<longleftrightarrow> take 12 a = replicate 10 0 @ [0xFF, 0xFF]"

definition get_address_text :: "config \<Rightarrow> os \<Rightarrow> 8 word list \<Rightarrow> string" where
  "get_address_text cfg os addr =
     (if inet6 cfg then
        (let text_addr = os_inet_ntop os addr in
         if in6_is_addr_v4mapped addr then drop 7 text_addr else text_addr)
      else inet_ntoa addr)"

definition use_safe :: "string option \<Rightarrow> string" where
  "use_safe x = (case x of None \<Rightarrow> [] | Some v \<Rightarrow> logencode v)"

text \<open>The comma that ends the first address of X-Forwarded-For is overwritten in the
  connection, so the function returns the connection too.\<close>

definition log_line :: "config \<Rightarrow> os \<Rightarrow> server \<Rightarrow> connection \<Rightarrow> string \<Rightarrow> string" where
  "log_line cfg os s conn log_ip =
     log_ip @ '' - - '' @ clf_date (os_localtime os) (now s) @ '' '' @ [DQUOTE] @
     use_safe (c_method conn) @ '' '' @ use_safe (c_url conn) @ '' HTTP/1.1'' @ [DQUOTE] @ '' '' @
     dec_int (c_http_code conn) @ '' '' @ dec (llu (c_total_sent conn)) @ '' '' @
     [DQUOTE] @ use_safe (c_referer conn) @ [DQUOTE] @ '' '' @
     [DQUOTE] @ use_safe (c_user_agent conn) @ [DQUOTE, LF]"

definition log_connection :: "config \<Rightarrow> os \<Rightarrow> connection \<Rightarrow> server \<Rightarrow> connection \<times> server" where
  "log_connection cfg os conn s =
     (if logfile s = Log_null then (conn, s)
      else if c_http_code conn = 0 then (conn, s)
      else if c_method conn = None then (conn, s)
      else
        (let log_ip = get_address_text cfg os (c_client conn);
             forwarded = c_forwarded_for conn \<noteq> None \<and>
               strcasecmp log_ip (the (trusted_ip cfg)) = 0;
             conn = (if forwarded then
               (let v = the (c_forwarded_for conn) in
                case strchr v (CHR '','') of None \<Rightarrow> conn
                | Some comma \<Rightarrow> conn\<lparr>c_forwarded_for := Some (take comma v)\<rparr>) else conn);
             log_ip = (if forwarded then logencode (the (c_forwarded_for conn)) else log_ip);
             line = log_line cfg os s conn log_ip
         in (conn, emit (if syslog_enabled cfg then Syslog line
                         else if logfile s = Log_closed then Bad_log line else Log line) s)))"

section \<open>Freeing and recycling\<close>

definition xclose :: "os \<Rightarrow> fd \<Rightarrow> server \<Rightarrow> exit + server" where
  "xclose os fd s = (if os_close os fd then Inr (emit (Closed fd) s) else Inl (Exit 1))"

definition free_connection :: "config \<Rightarrow> os \<Rightarrow> connection \<Rightarrow> server \<Rightarrow> exit + server" where
  "free_connection cfg os conn s =
     (let (conn, s) = log_connection cfg os conn s in
      case (if c_socket conn \<noteq> -1 then xclose os (c_socket conn) s else Inr s) of
        Inl e \<Rightarrow> Inl e
      | Inr s \<Rightarrow>
          (case (if c_reply_fd conn \<noteq> -1 then xclose os (c_reply_fd conn) s else Inr s) of
             Inl e \<Rightarrow> Inl e
           | Inr s \<Rightarrow> Inr (s\<lparr>accepting := True\<rparr>)))"

definition recycle_connection ::
    "config \<Rightarrow> os \<Rightarrow> connection \<Rightarrow> server \<Rightarrow> exit + (connection \<times> server)" where
  "recycle_connection cfg os conn s =
     (let socket_tmp = c_socket conn;
          conn = conn\<lparr>c_socket := -1\<rparr> in
      case free_connection cfg os conn s of
        Inl e \<Rightarrow> Inl e
      | Inr s \<Rightarrow> Inr (conn\<lparr>c_socket := socket_tmp,
          c_request := None, c_request_length := 0, c_method := None, c_url := None,
          c_referer := None, c_user_agent := None, c_authorization := None,
          c_forwarded_for := None, c_range_begin := 0, c_range_end := 0,
          c_range_begin_given := False, c_range_end_given := False, c_header := None,
          c_header_length := 0, c_header_sent := 0, c_header_dont_free := False,
          c_header_only := False, c_http_code := 0, c_conn_close := True, c_reply := None,
          c_reply_dont_free := False, c_reply_fd := -1, c_reply_start := 0,
          c_reply_length := 0, c_reply_sent := 0, c_total_sent := 0,
          c_state := RECV_REQUEST\<rparr>, s))"

section \<open>Timing out\<close>

definition poll_check_timeout :: "config \<Rightarrow> server \<Rightarrow> connection \<Rightarrow> connection" where
  "poll_check_timeout cfg s conn =
     (if timeout_secs cfg > 0 then
        (if now s - c_last_active conn \<ge> timeout_secs cfg
         then conn\<lparr>c_conn_close := True, c_state := DONE\<rparr> else conn)
      else conn)"

section \<open>What the system calls promise\<close>

definition tm_ok :: "tm \<Rightarrow> bool" where
  "tm_ok tm \<longleftrightarrow> 0 \<le> tm_sec tm \<and> tm_sec tm \<le> 60 \<and> 0 \<le> tm_min tm \<and> tm_min tm < 60 \<and>
     0 \<le> tm_hour tm \<and> tm_hour tm < 24 \<and> 1 \<le> tm_mday tm \<and> tm_mday tm \<le> 31 \<and>
     0 \<le> tm_mon tm \<and> tm_mon tm < 12 \<and> \<bar>tm_gmtoff tm\<bar> < 86400"

text \<open>The documented behaviour of the calls: descriptors and sizes are not negative, a regular
  file can be read to its size, addresses and messages are printable, local times are dates.\<close>

definition os_ok :: "os \<Rightarrow> bool" where
  "os_ok os \<longleftrightarrow>
     (\<forall>t. tm_ok (os_localtime os t)) \<and>
     (\<forall>p fd. os_open os p = Inr fd \<longrightarrow> 0 \<le> fd) \<and>
     (\<forall>fd st. os_fstat os fd = Inr st \<longrightarrow> 0 \<le> st_size st \<and> st_size st \<le> LLONG_MAX) \<and>
     (\<forall>a. \<forall>c \<in> set (os_inet_ntop os a). log_safe c) \<and>
     (\<forall>e. nul_free_str (os_strerror os e))"

lemma os_okD:
  assumes "os_ok os"
  shows "tm_ok (os_localtime os t)" "os_open os p = Inr fd \<Longrightarrow> 0 \<le> fd"
    "os_fstat os fd = Inr st \<Longrightarrow> 0 \<le> st_size st"
    "os_fstat os fd = Inr st \<Longrightarrow> st_size st \<le> LLONG_MAX"
    "c \<in> set (os_inet_ntop os a) \<Longrightarrow> log_safe c"
    "nul_free_str (os_strerror os e)"
  using assms by (auto simp: os_ok_def)

text \<open>A small system and configuration, on which the theorems are tried.\<close>

definition sample_os :: os where
  "sample_os = \<lparr>os_stat = (\<lambda>p. if p = ''/w/d/'' then Inr \<lparr>st_mode = S_IFDIR, st_size = 0, st_mtime = 0\<rparr>
                   else if p = ''/w/d/f'' then Inr \<lparr>st_mode = S_IFREG, st_size = 5, st_mtime = 86400\<rparr>
                   else Inl ENOENT),
     os_open = (\<lambda>p. if p = ''/w/d/f'' then Inr 7 else if p = ''/w/d'' then Inr 8
                   else if p = ''/w/s'' then Inl EACCES else Inl ENOENT),
     os_fstat = (\<lambda>fd. if fd = 7 then Inr \<lparr>st_mode = S_IFREG, st_size = 5, st_mtime = 86400\<rparr>
                   else Inr \<lparr>st_mode = S_IFDIR, st_size = 0, st_mtime = 0\<rparr>),
     os_opendir = (\<lambda>p. if p = ''/w/d/'' then Inr [''f'', ''.'', ''..''] else Inl ENOENT),
     os_data = (\<lambda>fd. ''hello''), os_close = (\<lambda>fd. True), os_fcntl = (\<lambda>fd. True),
     os_strerror = (\<lambda>e. ''error''), os_localtime = gmtime, os_inet_ntop = (\<lambda>a. ''::1''),
     os_undef = []\<rparr>"

definition sample_config :: config where
  "sample_config = \<lparr>forward_map = [], forward_all_url = None, forward_to_https = False,
     mime = empty_mime_state, default_mimetype = ''application/octet-stream'',
     timeout_secs = 30, keep_alive_field = ''Keep-Alive: timeout=30'' @ CRLF,
     bindaddr = None, bindport = 8080, max_connections = -1,
     index_name = ''index.html'', no_listing = False, humanize_sizes = False, inet6 = False,
     wwwroot = ''/w'', logfile_name = None, pidfile_name = None, want_chroot = False,
     want_daemon = False, want_accf = False, want_keepalive = True, want_server_id = True,
     want_single_file = False, want_hide_dotfiles = False,
     server_hdr = ''Server: darkhttpd'' @ CRLF, auth_key = None, custom_hdrs = [],
     trusted_ip = None, syslog_enabled = False, drop_uid = -1, drop_gid = -1\<rparr>"

definition sample_server :: server where
  "sample_server = \<lparr>now = 100, accepting = True, running = True, num_requests = 0, total_in = 0,
     total_out = 0, logfile = Log_open, recvs = [], sends = [], trace = []\<rparr>"

lemma tm_ok_gmtime: "tm_ok (gmtime t)"
  using gmtime_fields [OF refl, of t] by (simp add: tm_ok_def) (simp add: gmtime_def Let_def)

lemma os_ok_sample: "os_ok sample_os"
proof -
  have "\<forall>c \<in> set (''::1''). log_safe c" by code_simp
  then show ?thesis by (simp add: os_ok_def sample_os_def tm_ok_gmtime)
qed

section \<open>Log records\<close>

definition single_record :: "string \<Rightarrow> bool" where
  "single_record l \<longleftrightarrow> l \<noteq> [] \<and> last l = LF \<and> count_list l DQUOTE = 6 \<and>
     (\<forall>c \<in> set (butlast l). log_safe c \<or> c = DQUOTE)"

lemma log_safe_not: "log_safe c \<Longrightarrow> c \<noteq> LF \<and> c \<noteq> DQUOTE \<and> c \<noteq> CR \<and> c \<noteq> NUL"
  by (auto simp: log_safe_def byte_Char)

lemma count_list_log_safe: "\<forall>c \<in> set s. log_safe c \<Longrightarrow> count_list s DQUOTE = 0"
  by (induction s) (auto simp: log_safe_def)

lemma digit_log_safe: "isdigit c \<Longrightarrow> log_safe c"
  by (auto simp: isdigit_def log_safe_def byte_Char)

lemma dec_log_safe: "c \<in> set (dec n) \<Longrightarrow> log_safe c"
  using dec_digits digit_log_safe by blast

lemma dec_int_log_safe: "c \<in> set (dec_int i) \<Longrightarrow> log_safe c"
proof -
  have "log_safe (CHR ''-'')" by code_simp
  then show "c \<in> set (dec_int i) \<Longrightarrow> log_safe c"
    by (auto simp: dec_int_def dec_log_safe split: if_splits)
qed

lemma two_digits_log_safe: "0 \<le> n \<Longrightarrow> n < 100 \<Longrightarrow> c \<in> set (two_digits n) \<Longrightarrow> log_safe c"
  by (auto simp: two_digits_def intro!: digit_log_safe isdigit_digit_char)

lemma month_log_safe: "i < 12 \<Longrightarrow> c \<in> set (month_names ! i) \<Longrightarrow> log_safe c"
proof -
  have "\<forall>i \<in> set [0..<12]. \<forall>c \<in> set (month_names ! i). log_safe c" by code_simp
  then show "i < 12 \<Longrightarrow> c \<in> set (month_names ! i) \<Longrightarrow> log_safe c" by simp
qed

lemma clf_date_log_safe:
  assumes "tm_ok (lt t)" "c \<in> set (clf_date lt t)"
  shows "log_safe c"
proof -
  have k: "log_safe (CHR ''['')" "log_safe (CHR '']'')" "log_safe (CHR ''/'')" "log_safe (CHR '':'')"
    "log_safe (CHR '' '')" "log_safe (CHR ''+'')" "log_safe (CHR ''-'')" by code_simp+
  let ?tm = "lt t"
  have m: "nat (tm_mon ?tm) < 12" using assms(1) by (auto simp: tm_ok_def)
  have zone: "log_safe c" if "\<bar>g\<bar> < 86400" "c \<in> set (zone_text g)" for g c
    using that(2) time_of_day_bounds [OF abs_ge_zero that(1)]
    by (auto simp: zone_text_def k intro: two_digits_log_safe split: if_splits)
  have mday: "log_safe c" if "c \<in> set (two_digits (tm_mday ?tm))" for c
    using that assms(1) by (auto simp: tm_ok_def intro: two_digits_log_safe [of "tm_mday ?tm"])
  from assms show ?thesis
    by (auto simp: clf_date_def Let_def fit_def tm_ok_def zone k mday two_digits_log_safe
        month_log_safe [OF m] dec_int_log_safe split: if_splits)
qed

lemma inet_ntoa_log_safe: "c \<in> set (inet_ntoa a) \<Longrightarrow> log_safe c"
proof -
  have "log_safe (CHR ''.'')" by code_simp
  then show "c \<in> set (inet_ntoa a) \<Longrightarrow> log_safe c" by (auto simp: inet_ntoa_def dec_log_safe)
qed

lemma get_address_text_log_safe:
  "os_ok os \<Longrightarrow> c \<in> set (get_address_text cfg os a) \<Longrightarrow> log_safe c"
  by (auto simp: get_address_text_def Let_def inet_ntoa_log_safe os_okD dest: in_set_dropD split: if_splits)

lemma use_safe_log_safe: "c \<in> set (use_safe x) \<Longrightarrow> log_safe c"
  using logencode_safe by (auto simp: use_safe_def split: option.splits)

lemma log_line_single_record:
  assumes "os_ok os" "\<forall>c \<in> set ip. log_safe c"
  shows "single_record (log_line cfg os s conn ip)"
proof -
  define d where "d = clf_date (os_localtime os) (now s)"
  have d: "\<forall>c \<in> set d. log_safe c"
    unfolding d_def using clf_date_log_safe [of "os_localtime os" "now s", OF os_okD(1) [OF assms(1)]] by blast
  have k: "\<forall>c \<in> set ('' - - '' @ '' '' @ '' HTTP/1.1''). log_safe c" by code_simp
  note safe = assms(2) d use_safe_log_safe dec_log_safe dec_int_log_safe
  have z: "count_list ip DQUOTE = 0" "count_list d DQUOTE = 0" "count_list (use_safe x) DQUOTE = 0"
    "count_list (dec n) DQUOTE = 0" "count_list (dec_int i) DQUOTE = 0" for x n i
    using safe by (blast intro: count_list_log_safe)+
  show ?thesis
    unfolding single_record_def log_line_def d_def [symmetric]
    using safe k by (auto simp: butlast_append z)
qed

lemma log_connection_trace:
  assumes "os_ok os" "log_connection cfg os conn s = (conn', s')"
  shows "s' = s \<or> (\<exists>line. single_record line \<and>
    s' = emit (if syslog_enabled cfg then Syslog line
      else if logfile s = Log_closed then Bad_log line else Log line) s)"
proof -
  have "\<exists>conn ip. (\<forall>c \<in> set ip. log_safe c) \<and>
      s' = emit (if syslog_enabled cfg then Syslog (log_line cfg os s conn ip)
        else if logfile s = Log_closed then Bad_log (log_line cfg os s conn ip)
        else Log (log_line cfg os s conn ip)) s" if "s' \<noteq> s"
  proof (cases "c_forwarded_for conn \<noteq> None \<and>
      strcasecmp (get_address_text cfg os (c_client conn)) (the (trusted_ip cfg)) = 0")
    case True
    with assms(2) that show ?thesis
      by (auto simp: log_connection_def Let_def intro!: exI [of _ conn'] exI [of _ "logencode (the (c_forwarded_for conn'))"]
          logencode_safe [THEN bspec] split: if_splits option.splits)
  next
    case False
    with assms(2) that show ?thesis
      by (auto simp: log_connection_def Let_def simp del: not_None_eq intro!: exI [of _ conn']
          exI [of _ "get_address_text cfg os (c_client conn')"]
          get_address_text_log_safe [OF assms(1)] split: if_splits)
  qed
  then show ?thesis using log_line_single_record [OF assms(1)] by metis
qed

section \<open>Freeing and recycling close what the connection holds\<close>

definition held_fds :: "connection \<Rightarrow> fd list" where
  "held_fds conn = filter (\<lambda>fd. fd \<noteq> -1) [c_socket conn, c_reply_fd conn]"

lemma log_connection_fds:
  "log_connection cfg os conn s = (conn', s') \<Longrightarrow>
   c_socket conn' = c_socket conn \<and> c_reply_fd conn' = c_reply_fd conn \<and>
   (s' = s \<or> (\<exists>l. s' = emit (Log l) s \<or> s' = emit (Bad_log l) s \<or> s' = emit (Syslog l) s))"
  by (auto simp: log_connection_def Let_def split: if_splits option.splits)

lemma free_connection_events:
  assumes "free_connection cfg os conn s = Inr s'"
  shows "\<exists>logs. trace s' = trace s @ logs @ map Closed (held_fds conn) \<and> length logs \<le> 1 \<and>
    (\<forall>e \<in> set logs. \<exists>l. e = Log l \<or> e = Bad_log l \<or> e = Syslog l) \<and>
    s' = s\<lparr>trace := trace s', accepting := True\<rparr>"
proof -
  obtain conn1 s1 where l: "log_connection cfg os conn s = (conn1, s1)" by fastforce
  note f = log_connection_fds [OF l]
  then obtain logs where s1: "s1 = s\<lparr>trace := trace s @ logs\<rparr>" "length logs \<le> 1"
    "\<forall>e \<in> set logs. \<exists>l. e = Log l \<or> e = Bad_log l \<or> e = Syslog l"
  proof -
    assume a: "\<And>logs. s1 = s\<lparr>trace := trace s @ logs\<rparr> \<Longrightarrow> length logs \<le> 1 \<Longrightarrow>
      \<forall>e \<in> set logs. \<exists>l. e = Log l \<or> e = Bad_log l \<or> e = Syslog l \<Longrightarrow> thesis"
    from f consider "s1 = s" | e l where "s1 = emit e s" "e = Log l \<or> e = Bad_log l \<or> e = Syslog l" by blast
    then show thesis
    proof cases
      case 1 then show thesis using a [of "[]"] by simp
    next
      case 2 then show thesis using a [of "[e]"] by (auto simp: emit_def)
    qed
  qed
  from assms l f s1 show ?thesis
    by (auto simp: free_connection_def Let_def xclose_def emit_def held_fds_def split: if_splits)
qed

lemma recycle_connection_conn:
  assumes "recycle_connection cfg os conn s = Inr (conn', s')"
  shows "conn' = (new_connection s)\<lparr>c_socket := c_socket conn, c_client := c_client conn,
      c_last_active := c_last_active conn, c_reply_type := c_reply_type conn, c_state := RECV_REQUEST\<rparr>"
    "free_connection cfg os (conn\<lparr>c_socket := -1\<rparr>) s = Inr s'"
proof -
  from assms obtain s1 where f: "free_connection cfg os (conn\<lparr>c_socket := -1\<rparr>) s = Inr s1" "s' = s1"
    by (auto simp: recycle_connection_def Let_def split: sum.splits)
  then show "free_connection cfg os (conn\<lparr>c_socket := -1\<rparr>) s = Inr s'" by simp
  from assms f show "conn' = (new_connection s)\<lparr>c_socket := c_socket conn, c_client := c_client conn,
      c_last_active := c_last_active conn, c_reply_type := c_reply_type conn, c_state := RECV_REQUEST\<rparr>"
    by (simp add: recycle_connection_def Let_def new_connection_def) (cases conn; auto)
qed

text \<open>C11. A connection that is recycled for keep-alive is a new connection in every field but
  the socket, the client's address, the time of the last activity and the kind of the last
  reply, and it waits for a request; of its descriptors exactly the reply's is closed, and the
  socket stays open.\<close>

theorem recycle_connection_fresh:
  assumes "recycle_connection cfg os conn s = Inr (conn', s')"
  shows "conn' = (new_connection s)\<lparr>c_socket := c_socket conn, c_client := c_client conn,
      c_last_active := c_last_active conn, c_reply_type := c_reply_type conn,
      c_state := RECV_REQUEST\<rparr> \<and>
    filter (\<lambda>e. \<exists>fd. e = Closed fd) (trace s') =
    filter (\<lambda>e. \<exists>fd. e = Closed fd) (trace s) @ (if c_reply_fd conn = -1 then [] else [Closed (c_reply_fd conn)])"
proof -
  note r = recycle_connection_conn [OF assms]
  obtain logs where "trace s' = trace s @ logs @ map Closed (held_fds (conn\<lparr>c_socket := -1\<rparr>))"
    "\<forall>e \<in> set logs. \<exists>l. e = Log l \<or> e = Bad_log l \<or> e = Syslog l"
    using free_connection_events [OF r(2)] by blast
  moreover from this(2) have "filter (\<lambda>e. \<exists>fd. e = Closed fd) logs = []"
    by (auto simp: filter_empty_conv)
  ultimately have "filter (\<lambda>e. \<exists>fd. e = Closed fd) (trace s') =
    filter (\<lambda>e. \<exists>fd. e = Closed fd) (trace s) @ (if c_reply_fd conn = -1 then [] else [Closed (c_reply_fd conn)])"
    by (simp add: held_fds_def)
  with r(1) show ?thesis by blast
qed

text \<open>A connection in the middle of its life, for the examples.\<close>

definition sample_connection :: connection where
  "sample_connection = (new_connection sample_server)\<lparr>c_socket := 5, c_client := [192, 0, 2, 1]
     @ replicate 12 0, c_state := DONE, c_conn_close := False, c_request_length := 18,
     c_method := Some ''GET'', c_url := Some (''/d/f'' @ [LF]), c_http_code := 200, c_reply_fd := 7,
     c_reply_type := Some REPLY_FROMFILE, c_reply_length := 5, c_reply_sent := 5,
     c_total_sent := 205\<rparr>"

theorem recycle_connection_fresh_witness:
  "\<exists>conn s. recycle_connection sample_config sample_os sample_connection sample_server = Inr (conn, s) \<and>
     c_socket conn = 5 \<and> c_reply_fd conn = -1 \<and> Closed 5 \<notin> set (trace s)"
proof -
  have "\<exists>s. free_connection sample_config sample_os (sample_connection\<lparr>c_socket := -1\<rparr>) sample_server = Inr s"
    by (simp add: free_connection_def xclose_def sample_os_def sample_connection_def new_connection_def
        split: prod.splits)
  then obtain conn s where r: "recycle_connection sample_config sample_os sample_connection sample_server = Inr (conn, s)"
    by (fastforce simp: recycle_connection_def Let_def)
  from recycle_connection_fresh [OF r]
  have "filter (\<lambda>e. \<exists>fd. e = Closed fd) (trace s) = [Closed 7]"
    by (simp add: sample_server_def sample_connection_def new_connection_def)
  then have "Closed 5 \<notin> set (filter (\<lambda>e. \<exists>fd. e = Closed fd) (trace s))" by simp
  then have "Closed 5 \<notin> set (trace s)" by simp
  moreover have "c_socket conn = 5" "c_reply_fd conn = -1"
    using recycle_connection_fresh [OF r, THEN conjunct1]
    by (simp_all add: sample_connection_def new_connection_def)
  ultimately show ?thesis using r by blast
qed

text \<open>C12. The log cannot be forged: whatever bytes a client puts in the request line and the
  headers, logging a connection writes nothing or exactly one record, which ends in the only
  newline it has, is printable, and has exactly the six quotes of the log format.\<close>

theorem log_connection_one_record:
  assumes "os_ok os" "log_connection cfg os conn s = (conn', s')"
  shows "trace s' = trace s \<or>
    (\<exists>line. single_record line \<and> trace s' \<in> {trace s @ [Log line], trace s @ [Syslog line], trace s @ [Bad_log line]})"
  using log_connection_trace [OF assms] by (auto simp: emit_def split: if_splits)

theorem log_connection_one_record_witness:
  "\<exists>line. single_record line \<and>
     trace (snd (log_connection sample_config sample_os sample_connection sample_server)) = [Log line]"
proof -
  obtain conn s where l: "log_connection sample_config sample_os sample_connection sample_server = (conn, s)"
    by fastforce
  then have "\<exists>line. trace s = [Log line]"
    by (auto simp: log_connection_def sample_server_def sample_connection_def new_connection_def
        sample_config_def emit_def Let_def)
  with log_connection_one_record [OF os_ok_sample l] l show ?thesis
    by (auto simp: sample_server_def)
qed

end
