(* ===== verification/Request.thy ===== *)
theory Request
  imports Conn
begin

text \<open>
  Reading a request: header fields (\<open>parse_field\<close>), the Range field and the request line.
  The request is the first \<open>c_request_length\<close> bytes of the buffer, which a NUL follows.
\<close>

definition request_bytes :: "connection \<Rightarrow> string" where
  "request_bytes conn = take (c_request_length conn) (the (c_request conn))"

section \<open>Operations\<close>

definition eol :: "char \<Rightarrow> bool" where
  "eol c \<longleftrightarrow> c = CR \<or> c = LF"

text \<open>Where the value of a field starts and ends; \<open>split_string\<close> copies the bytes between.\<close>

definition field_bounds :: "connection \<Rightarrow> string \<Rightarrow> (nat \<times> nat) option" where
  "field_bounds conn field =
     (let request = request_bytes conn in
      case strcasestr (cstr request) field of
        None \<Rightarrow> None
      | Some pos \<Rightarrow>
          (let bound1 = pos + length field;
               bound2 = scan (\<lambda>c. c \<noteq> CR \<and> c \<noteq> LF) request bound1
           in Some (bound1, bound2)))"

definition parse_field :: "connection \<Rightarrow> string \<Rightarrow> string option" where
  "parse_field conn field =
     (case field_bounds conn field of
        None \<Rightarrow> None
      | Some (bound1, bound2) \<Rightarrow> Some (split_string (request_bytes conn) bound1 bound2))"

definition parse_range_field :: "connection \<Rightarrow> connection" where
  "parse_range_field conn =
     (case parse_field conn (LF # ''Range: bytes='') of
        None \<Rightarrow> conn
      | Some rng \<Rightarrow>
          (let len = length rng;
               bound1 = 0;
               bound2 = scan isdigit rng 0 in
           if bound2 = len \<or> rng ! bound2 \<noteq> CHR ''-'' then conn
           else
             (let conn = (if bound1 \<noteq> bound2 then
                    conn\<lparr>c_range_begin_given := True,
                         c_range_begin := fst (strtoll (drop bound1 rng))\<rparr> else conn);
                  bound1 = bound2 + 1;
                  bound2 = scan isdigit rng bound1 in
              if bound2 \<noteq> len \<and> rng ! bound2 \<noteq> CHR '','' then conn
              else if bound1 \<noteq> bound2 then
                conn\<lparr>c_range_end_given := True,
                     c_range_end := fst (strtoll (drop bound1 rng))\<rparr>
              else conn)))"

definition strntoupper :: "string \<Rightarrow> nat \<Rightarrow> string" where
  "strntoupper str n = map toupper (take n str) @ drop n str"

text \<open>\<open>Bad_read\<close> is a read beyond the NUL that ends the buffer.  The loops compare their index with the
  length before each read; the byte at which a loop has stopped, and the bytes that are copied up to
  it, are read without such a test in two places, where the model makes it.\<close>

datatype parse_result = Parsed | Failed | Bad_read

text \<open>The end of the first line, after the URL: the protocol decides \<open>c_conn_close\<close>.\<close>

definition parse_protocol :: "connection \<Rightarrow> nat \<Rightarrow> parse_result \<times> connection" where
  "parse_protocol conn bound2 =
     (let request = request_bytes conn;
          bound1 = scan (\<lambda>c. c = CHR '' '') request bound2;
          bound2 = scan (\<lambda>c. c \<noteq> CHR '' '' \<and> c \<noteq> CR \<and> c \<noteq> LF) request (bound1 + 1) in
      if bound2 > length request then (Bad_read, conn)
      else if c_at request bound2 \<noteq> CR \<and> c_at request bound2 \<noteq> LF then (Failed, conn)
      else
        (let proto = split_string request bound1 bound2 in
         if strcasecmp proto ''HTTP/1.1'' = 0 then (Parsed, conn\<lparr>c_conn_close := False\<rparr>)
         else if strcasecmp proto ''HTTP/1.0'' \<noteq> 0 then (Failed, conn)
         else (Parsed, conn)))"

definition parse_fields :: "config \<Rightarrow> connection \<Rightarrow> connection" where
  "parse_fields cfg conn =
     (let tmp = parse_field conn (LF # ''Connection: '');
          conn = (case tmp of None \<Rightarrow> conn
            | Some tmp \<Rightarrow>
                if strcasecmp tmp ''close'' = 0 then conn\<lparr>c_conn_close := True\<rparr>
                else if strcasecmp tmp ''keep-alive'' = 0 then conn\<lparr>c_conn_close := False\<rparr>
                else conn);
          conn = (if \<not> want_keepalive cfg then conn\<lparr>c_conn_close := True\<rparr> else conn);
          conn = conn\<lparr>c_referer := parse_field conn (LF # ''Referer: '')\<rparr>;
          conn = conn\<lparr>c_user_agent := parse_field conn (LF # ''User-Agent: '')\<rparr>;
          conn = conn\<lparr>c_authorization := parse_field conn (LF # ''Authorization: '')\<rparr>;
          conn = (if trusted_ip cfg \<noteq> None
            then conn\<lparr>c_forwarded_for := parse_field conn (LF # ''X-Forwarded-For: '')\<rparr> else conn)
      in parse_range_field conn)"

definition parse_request :: "config \<Rightarrow> connection \<Rightarrow> parse_result \<times> connection" where
  "parse_request cfg conn =
     (let request = request_bytes conn;
          bound1 = scan (\<lambda>c. c \<noteq> CHR '' '') request 0;
          conn = conn\<lparr>c_method := Some (strntoupper (split_string request 0 bound1) bound1)\<rparr>;
          bound1 = scan (\<lambda>c. c = CHR '' '') request bound1 in
      if bound1 = length request then (Failed, conn)
      else
        (let bound2 = scan (\<lambda>c. c \<noteq> CHR '' '' \<and> c \<noteq> CR \<and> c \<noteq> LF \<and> c \<noteq> NUL) request (bound1 + 1) in
         if bound2 < length request \<and> request ! bound2 = NUL then (Failed, conn)
         else if bound2 > length request then (Bad_read, conn)
         else
           (let conn = conn\<lparr>c_url := Some (split_string request bound1 bound2)\<rparr>;
                (r, conn) = (if c_at request bound2 = CHR '' '' then parse_protocol conn bound2
                             else (Parsed, conn)) in
            if r \<noteq> Parsed then (r, conn) else (Parsed, parse_fields cfg conn))))"

section \<open>Header fields\<close>

lemma parse_field_search:
  "parse_field conn field =
     (case strcasestr (cstr (request_bytes conn)) field of
        None \<Rightarrow> None
      | Some pos \<Rightarrow> Some (split_string (request_bytes conn) (pos + length field)
          (scan (\<lambda>c. c \<noteq> CR \<and> c \<noteq> LF) (request_bytes conn) (pos + length field))))"
  by (simp add: parse_field_def field_bounds_def Let_def split: option.split)

lemma parse_field_value:
  assumes "parse_field conn field = Some v"
  shows "nul_free_str v \<and> CR \<notin> set v \<and> LF \<notin> set v"
proof -
  from assms obtain pos where p: "strcasestr (cstr (request_bytes conn)) field = Some pos"
    and v: "v = split_string (request_bytes conn) (pos + length field)
      (scan (\<lambda>c. c \<noteq> CR \<and> c \<noteq> LF) (request_bytes conn) (pos + length field))"
    by (auto simp: parse_field_search split: option.splits)
  have "v = cstr (takeWhile (\<lambda>c. c \<noteq> CR \<and> c \<noteq> LF) (drop (pos + length field) (request_bytes conn)))"
  proof (cases "pos + length field \<le> length (request_bytes conn)")
    case True
    then show ?thesis using v by (simp add: split_string_scan)
  next
    case False
    then show ?thesis using v by (simp add: split_string_def)
  qed
  then show ?thesis by (auto simp: cstr_def dest!: set_takeWhileD)
qed

text \<open>The search in a text without NULs, line by line.\<close>

definition field_value :: "string \<Rightarrow> string \<Rightarrow> string option" where
  "field_value field s =
     (case strcasestr s field of None \<Rightarrow> None
      | Some pos \<Rightarrow> Some (takeWhile (\<lambda>c. \<not> eol c) (drop (pos + length field) s)))"

lemma parse_field_field_value:
  assumes "nul_free_str (request_bytes conn)"
  shows "parse_field conn field = field_value field (request_bytes conn)"
proof (cases "strcasestr (request_bytes conn) field")
  case None
  with assms show ?thesis by (simp add: parse_field_search field_value_def cstr_id)
next
  case (Some i)
  then have "i \<le> length (request_bytes conn)" "length field \<le> length (request_bytes conn) - i"
    by (auto simp: strcasestr_def find_sub_Some dest!: prefix_length_le)
  then have "i + length field \<le> length (request_bytes conn)" by linarith
  moreover have "nul_free_str (takeWhile p (drop n (request_bytes conn)))" for p n
    using assms by (auto dest!: set_takeWhileD in_set_dropD)
  ultimately show ?thesis using Some assms
    by (simp add: parse_field_search field_value_def cstr_id split_string_scan eol_def)
qed

lemma strcasestr_Cons:
  "strcasestr (c # s) f = (if prefix (map tolower f) (map tolower (c # s)) then Some 0
     else map_option Suc (strcasestr s f))"
  by (simp add: strcasestr_def)

lemma tolower_fixed:
  assumes "byte k < 65 \<or> 90 < byte k \<and> byte k < 97 \<or> 122 < byte k"
  shows "tolower c = k \<longleftrightarrow> c = k"
proof
  assume "tolower c = k"
  with assms byte_tolower [of c] show "c = k"
    by (cases "65 \<le> byte c \<and> byte c \<le> 90") (simp_all add: tolower_def split: if_splits)
next
  assume "c = k"
  with assms show "tolower c = k" by (auto simp: tolower_def)
qed

lemma tolower_LF_iff [simp]: "tolower c = LF \<longleftrightarrow> c = LF"
  by (rule tolower_fixed) simp

lemma field_value_skip:
  "LF \<notin> set xs \<Longrightarrow> field_value (LF # g) (xs @ s) = field_value (LF # g) s"
proof (induction xs)
  case (Cons x xs)
  then have "field_value (LF # g) (x # xs @ s) = field_value (LF # g) (xs @ s)"
    using tolower_LF_iff [of x] tolower_LF_iff [of LF]
    by (auto simp: field_value_def strcasestr_Cons split: option.splits simp del: tolower_LF_iff)
  with Cons show ?case by simp
qed simp

lemma field_value_LF:
  "field_value (LF # g) (LF # s) =
     (if prefix (map tolower g) (map tolower s) then Some (takeWhile (\<lambda>c. \<not> eol c) (drop (length g) s))
      else field_value (LF # g) s)"
  by (auto simp: field_value_def strcasestr_Cons split: option.splits)

text \<open>The text of header lines.  Lines end in CR LF or in LF alone.\<close>

definition line_end :: "string \<Rightarrow> bool" where
  "line_end e \<longleftrightarrow> e = CRLF \<or> e = [LF]"

definition header_line :: "string \<Rightarrow> string \<times> string \<Rightarrow> string" where
  "header_line e h = fst h @ '': '' @ snd h @ e"

definition header_lines :: "string \<Rightarrow> (string \<times> string) list \<Rightarrow> string" where
  "header_lines e hs = concat (map (header_line e) hs) @ e"

definition field_name :: "string \<Rightarrow> bool" where
  "field_name n \<longleftrightarrow> n \<noteq> [] \<and> (\<forall>c \<in> set n. c \<noteq> CHR '':'' \<and> \<not> eol c \<and> c \<noteq> NUL)"

definition header_ok :: "string \<times> string \<Rightarrow> bool" where
  "header_ok h \<longleftrightarrow> field_name (fst h) \<and> (\<forall>c \<in> set (snd h). \<not> eol c \<and> c \<noteq> NUL)"

definition header_get :: "(string \<times> string) list \<Rightarrow> string \<Rightarrow> string option" where
  "header_get hs name = map_of (map (\<lambda>(n, v). (map tolower n, v)) hs) (map tolower name)"

lemma tolower_colon_iff [simp]: "tolower c = CHR '':'' \<longleftrightarrow> c = CHR '':''"
  by (rule tolower_fixed) simp

lemma tolower_CR_iff [simp]: "tolower c = CR \<longleftrightarrow> c = CR"
  by (rule tolower_fixed) simp

lemma colon_in_folded: "CHR '':'' \<in> set (map tolower s) \<longleftrightarrow> CHR '':'' \<in> set s"
proof -
  have "CHR '':'' = tolower c \<longleftrightarrow> CHR '':'' = c" for c using tolower_colon_iff [of c] by metis
  then show ?thesis by (induction s) (simp_all del: set_map)
qed

lemma prefix_colon:
  assumes "CHR '':'' \<notin> set a" "CHR '':'' \<notin> set b"
  shows "prefix (a @ CHR '':'' # t) (b @ CHR '':'' # u) \<longleftrightarrow> a = b \<and> prefix t u"
  using assms
proof (induction a arbitrary: b)
  case Nil
  then show ?case by (cases b) auto
next
  case (Cons x a)
  then show ?case by (cases b) auto
qed

text \<open>The first header of a name whose value begins with \<open>u\<close>, without this beginning: \<open>Range: bytes=\<close> is
  looked up like this.\<close>

fun header_unit :: "(string \<times> string) list \<Rightarrow> string \<Rightarrow> string \<Rightarrow> string option" where
  "header_unit [] name u = None"
| "header_unit ((n, v) # hs) name u =
     (if map tolower n = map tolower name \<and> prefix (map tolower u) (map tolower v)
      then Some (drop (length u) v) else header_unit hs name u)"

lemma header_unit_get: "header_unit hs name [] = header_get hs name"
  by (induction hs) (auto simp: header_get_def)

lemma prefix_before_eol:
  assumes "\<forall>c \<in> set u. \<not> eol c" "e \<noteq> []" "eol (hd e)"
  shows "prefix (map tolower u) (map tolower (v @ e)) \<longleftrightarrow> prefix (map tolower u) (map tolower v)"
  using assms
proof (induction u arbitrary: v)
  case (Cons c u)
  show ?case
  proof (cases v)
    case Nil
    have "tolower c \<noteq> tolower (hd e)"
      using Cons.prems(1,3) unfolding eol_def list.set by (metis insertI1 tolower_CR_iff tolower_LF_iff)
    with Cons.prems(2) Nil show ?thesis by (cases e) auto
  next
    case (Cons x v')
    with Cons.IH [of v'] Cons.prems show ?thesis by auto
  qed
qed simp

lemma field_value_unit:
  assumes "line_end e" "\<forall>h \<in> set hs. header_ok h" "field_name name" "\<forall>c \<in> set u. \<not> eol c"
  shows "field_value (LF # name @ '': '' @ u) (LF # header_lines e hs) = header_unit hs name u"
  using assms(2)
proof (induction hs)
  case Nil
  have "\<not> prefix (map tolower (name @ '': '' @ u)) (map tolower e)"
  proof -
    obtain c n where n: "name = c # n" "c \<noteq> CR" "c \<noteq> LF"
      using assms(3) by (cases name) (auto simp: field_name_def eol_def)
    have t: "tolower CR = CR" "tolower LF = LF" by (simp_all only: tolower_CR_iff tolower_LF_iff)
    have "tolower c \<noteq> CR" "tolower c \<noteq> LF" using n by simp_all
    then show ?thesis using assms(1) by (auto simp: line_end_def n t)
  qed
  moreover have "field_value (LF # name @ '': '' @ u) e = None"
  proof -
    have "field_value (LF # name @ '': '' @ u) [] = None"
      by (simp add: field_value_def strcasestr_def)
    then have "field_value (LF # name @ '': '' @ u) [LF] = None"
      by (subst field_value_LF) simp
    moreover have "field_value (LF # name @ '': '' @ u) [CR, LF] = field_value (LF # name @ '': '' @ u) [LF]"
      using field_value_skip [of "[CR]" "name @ '': '' @ u" "[LF]"] by simp
    ultimately show ?thesis using assms(1) by (auto simp: line_end_def)
  qed
  ultimately show ?case by (simp add: header_lines_def field_value_LF)
next
  case (Cons h hs)
  obtain n v where h: "h = (n, v)" by fastforce
  from Cons have ok: "header_ok h"
    and IH: "field_value (LF # name @ '': '' @ u) (LF # header_lines e hs) = header_unit hs name u" by auto
  obtain e' where e': "e = e' @ [LF]" "LF \<notin> set e'" "\<forall>c \<in> set e'. eol c"
    using assms(1) by (auto simp: line_end_def eol_def)
  have v: "takeWhile (\<lambda>c. \<not> eol c) (drop k v @ e' @ LF # r) = drop k v" for r k
    using ok e' by (intro takeWhile_append_stop) (auto simp: h header_ok_def eol_def hd_append dest: in_set_dropD)
  have skip: "LF \<notin> set (n @ '': '' @ v @ e')"
    using ok e'(2) by (auto simp: h header_ok_def field_name_def eol_def)
  have lines: "header_lines e (h # hs) = n @ '': '' @ v @ e' @ LF # header_lines e hs"
    by (simp add: header_lines_def header_line_def h e'(1))
  have match: "prefix (map tolower (name @ '': '' @ u)) (map tolower (n @ '': '' @ v @ e' @ LF # r))
      \<longleftrightarrow> map tolower n = map tolower name \<and> prefix (map tolower u) (map tolower v)" for r
  proof -
    have c: "CHR '':'' \<notin> set (map tolower name)" "CHR '':'' \<notin> set (map tolower n)"
      using assms(3) ok by (auto simp: h header_ok_def field_name_def colon_in_folded simp del: set_map)
    have t: "tolower (CHR '':'') = CHR '':''" "tolower (CHR '' '') = CHR '' ''" by code_simp+
    have "eol (hd (e' @ LF # r))" using e'(3) by (cases e') (simp_all add: eol_def)
    then have "prefix (map tolower u) (map tolower (v @ e' @ LF # r)) \<longleftrightarrow> prefix (map tolower u) (map tolower v)"
      using prefix_before_eol [OF assms(4), of "e' @ LF # r" v] by simp
    then show ?thesis using prefix_colon [OF c] by (auto simp: t simp del: tolower_colon_iff)
  qed
  have rest: "drop (length (name @ '': '' @ u)) (n @ '': '' @ v @ e' @ LF # r) = drop (length u) v @ e' @ LF # r"
    if "map tolower n = map tolower name \<and> prefix (map tolower u) (map tolower v)" for r
  proof -
    have "length n = length name" "length u \<le> length v"
      using that map_eq_imp_length_eq prefix_length_le by fastforce+
    then show ?thesis by simp
  qed
  show ?case
  proof (cases "map tolower n = map tolower name \<and> prefix (map tolower u) (map tolower v)")
    case True
    then have "header_unit (h # hs) name u = Some (drop (length u) v)" by (simp add: h)
    with True show ?thesis
      by (simp only: lines field_value_LF match rest v if_True simp_thms)
  next
    case False
    then have "field_value (LF # name @ '': '' @ u) (LF # header_lines e (h # hs))
        = field_value (LF # name @ '': '' @ u) (header_lines e (h # hs))"
      by (simp only: lines field_value_LF match if_False)
    also have "\<dots> = header_unit hs name u"
      using field_value_skip [OF skip, of "name @ '': '' @ u" "LF # header_lines e hs"] IH
      by (simp only: lines append_assoc)
    also have "\<dots> = header_unit (h # hs) name u" using False by (auto simp: h)
    finally show ?thesis .
  qed
qed

section \<open>The request line\<close>

lemma request_bytes_update [simp]:
  "request_bytes (conn\<lparr>c_method := m\<rparr>) = request_bytes conn"
  "request_bytes (conn\<lparr>c_url := m\<rparr>) = request_bytes conn"
  "request_bytes (conn\<lparr>c_conn_close := b\<rparr>) = request_bytes conn"
  "request_bytes (conn\<lparr>c_referer := m\<rparr>) = request_bytes conn"
  "request_bytes (conn\<lparr>c_user_agent := m\<rparr>) = request_bytes conn"
  "request_bytes (conn\<lparr>c_authorization := m\<rparr>) = request_bytes conn"
  "request_bytes (conn\<lparr>c_forwarded_for := m\<rparr>) = request_bytes conn"
  by (simp_all add: request_bytes_def)

lemma parse_field_cong: "request_bytes c = request_bytes d \<Longrightarrow> parse_field c f = parse_field d f"
  by (simp add: parse_field_search split: option.split)

lemma parse_range_frame [simp]:
  "c_socket (parse_range_field conn) = c_socket conn"
  "c_client (parse_range_field conn) = c_client conn"
  "c_last_active (parse_range_field conn) = c_last_active conn"
  "c_state (parse_range_field conn) = c_state conn"
  "c_request (parse_range_field conn) = c_request conn"
  "c_request_length (parse_range_field conn) = c_request_length conn"
  "c_method (parse_range_field conn) = c_method conn"
  "c_url (parse_range_field conn) = c_url conn"
  "c_referer (parse_range_field conn) = c_referer conn"
  "c_user_agent (parse_range_field conn) = c_user_agent conn"
  "c_authorization (parse_range_field conn) = c_authorization conn"
  "c_forwarded_for (parse_range_field conn) = c_forwarded_for conn"
  "c_header (parse_range_field conn) = c_header conn"
  "c_header_length (parse_range_field conn) = c_header_length conn"
  "c_header_sent (parse_range_field conn) = c_header_sent conn"
  "c_header_dont_free (parse_range_field conn) = c_header_dont_free conn"
  "c_header_only (parse_range_field conn) = c_header_only conn"
  "c_http_code (parse_range_field conn) = c_http_code conn"
  "c_conn_close (parse_range_field conn) = c_conn_close conn"
  "c_reply_type (parse_range_field conn) = c_reply_type conn"
  "c_reply (parse_range_field conn) = c_reply conn"
  "c_reply_dont_free (parse_range_field conn) = c_reply_dont_free conn"
  "c_reply_fd (parse_range_field conn) = c_reply_fd conn"
  "c_reply_start (parse_range_field conn) = c_reply_start conn"
  "c_reply_length (parse_range_field conn) = c_reply_length conn"
  "c_reply_sent (parse_range_field conn) = c_reply_sent conn"
  "c_total_sent (parse_range_field conn) = c_total_sent conn"
  by (simp_all add: parse_range_field_def Let_def split: option.splits)

lemma fst_strtoll_digits:
  assumes "\<forall>c \<in> set ds. isdigit c" "ds \<noteq> []" "rest = [] \<or> \<not> isdigit (hd rest)"
  shows "fst (strtoll (ds @ rest)) = min (int (digits_val ds)) LLONG_MAX"
proof -
  obtain d r where d: "ds = d # r" using assms(2) by (cases ds) auto
  have "\<not> isspace d" "d \<noteq> CHR ''-''" "d \<noteq> CHR ''+''"
    using assms(1) d by (auto simp: isdigit_def isspace_def byte_Char)
  then have ws: "scan isspace (ds @ rest) 0 = 0" and c: "c_at (ds @ rest) 0 = d"
    by (simp_all add: d scan.simps c_at_def)
  have en: "scan isdigit (ds @ rest) 0 = length ds"
    using takeWhile_append_stop [of ds isdigit rest] assms by (simp add: scan_takeWhile)
  show ?thesis
    using \<open>d \<noteq> CHR ''-''\<close> \<open>d \<noteq> CHR ''+''\<close> assms(2)
    by (simp add: strtoll_def ws c en Let_def min_def)
qed

text \<open>C10. A Range field \<open>first-last\<close>, \<open>first-\<close> or \<open>-last\<close>, alone or before a comma, gives
  exactly the numbers written, each marked as given only if it is written, and numbers that do
  not fit saturate at the largest \<^verbatim>\<open>off_t\<close>; nothing else of the connection changes.\<close>

theorem parse_range_field_numbers:
  assumes "parse_field conn (LF # ''Range: bytes='') = Some (a @ ''-'' @ b @ rest)"
    "\<forall>c \<in> set (a @ b). isdigit c" "rest = [] \<or> hd rest = CHR '',''"
  shows "parse_range_field conn = conn\<lparr>
    c_range_begin_given := c_range_begin_given conn \<or> a \<noteq> [],
    c_range_begin := (if a = [] then c_range_begin conn else min (int (digits_val a)) LLONG_MAX),
    c_range_end_given := c_range_end_given conn \<or> b \<noteq> [],
    c_range_end := (if b = [] then c_range_end conn else min (int (digits_val b)) LLONG_MAX)\<rparr>"
proof -
  let ?r = "a @ ''-'' @ b @ rest"
  have nd: "\<not> isdigit (CHR ''-'')" "\<not> isdigit (CHR '','')" by code_simp+
  have s1: "scan isdigit ?r 0 = length a"
    using takeWhile_append_stop [of a isdigit "''-'' @ b @ rest"] assms(2) nd by (simp add: scan_takeWhile)
  have br: "rest = [] \<or> \<not> isdigit (hd rest)" using assms(3) nd by auto
  have s2: "scan isdigit ?r (length a + 1) = length a + 1 + length b"
    using takeWhile_append_stop [of b isdigit rest] assms(2) br by (simp add: scan_takeWhile)
  have v1: "fst (strtoll ?r) = min (int (digits_val a)) LLONG_MAX" if "a \<noteq> []"
    using fst_strtoll_digits [of a "''-'' @ b @ rest"] that assms(2) nd by simp
  have d2: "drop (length a + 1) ?r = b @ rest" by simp
  have v2: "fst (strtoll (b @ rest)) = min (int (digits_val b)) LLONG_MAX" if "b \<noteq> []"
    using fst_strtoll_digits [of b rest] that assms(2) br by simp
  have e: "length a + 1 + length b = length ?r \<longleftrightarrow> rest = []" by auto
  have at: "?r ! length a = CHR ''-''" "rest \<noteq> [] \<Longrightarrow> ?r ! (length a + 1 + length b) = CHR '',''"
    using assms(3) by (auto simp: nth_append hd_conv_nth)
  show ?thesis
    unfolding parse_range_field_def assms(1) option.case Let_def s1 s2 d2 drop_0 e
    using at v1 v2 by (cases "a = []"; cases "b = []"; cases "rest = []") simp_all
qed

text \<open>What any value of the Range field means: the number before the first hyphen, and the number after
  it if the value or the first range of a list ends there.\<close>

definition written :: "string \<Rightarrow> int option" where
  "written ds = (if ds = [] then None else Some (min (int (digits_val ds)) LLONG_MAX))"

definition range_numbers :: "string \<Rightarrow> int option \<times> int option" where
  "range_numbers v =
     (case dropWhile isdigit v of
        [] \<Rightarrow> (None, None)
      | c # r \<Rightarrow>
          if c \<noteq> CHR ''-'' then (None, None)
          else (written (takeWhile isdigit v),
            if dropWhile isdigit r = [] \<or> hd (dropWhile isdigit r) = CHR '','' then written (takeWhile isdigit r)
            else None))"

definition with_range :: "int option \<times> int option \<Rightarrow> connection \<Rightarrow> connection" where
  "with_range = (\<lambda>(a, b) conn. conn\<lparr>
     c_range_begin_given := c_range_begin_given conn \<or> a \<noteq> None,
     c_range_begin := (case a of None \<Rightarrow> c_range_begin conn | Some n \<Rightarrow> n),
     c_range_end_given := c_range_end_given conn \<or> b \<noteq> None,
     c_range_end := (case b of None \<Rightarrow> c_range_end conn | Some n \<Rightarrow> n)\<rparr>)"

lemma with_range_None [simp]: "with_range (None, None) conn = conn"
  by (simp add: with_range_def)

lemma with_range_fields:
  "c_range_begin_given (with_range r c) \<longleftrightarrow> c_range_begin_given c \<or> fst r \<noteq> None"
  "c_range_begin (with_range r c) = (case fst r of None \<Rightarrow> c_range_begin c | Some n \<Rightarrow> n)"
  "c_range_end_given (with_range r c) \<longleftrightarrow> c_range_end_given c \<or> snd r \<noteq> None"
  "c_range_end (with_range r c) = (case snd r of None \<Rightarrow> c_range_end c | Some n \<Rightarrow> n)"
  by (simp_all add: with_range_def split: prod.split)

lemma parse_range_field_eq:
  "parse_range_field conn = (case parse_field conn (LF # ''Range: bytes='') of
     None \<Rightarrow> conn | Some v \<Rightarrow> with_range (range_numbers v) conn)"
proof (cases "parse_field conn (LF # ''Range: bytes='')")
  case None
  then show ?thesis by (simp add: parse_range_field_def)
next
  case (Some v)
  define a where "a = takeWhile isdigit v"
  have ad: "\<forall>c \<in> set a. isdigit c" by (auto simp: a_def dest: set_takeWhileD)
  have s1: "scan isdigit v 0 = length a" by (simp add: scan_takeWhile a_def)
  show ?thesis
  proof (cases "dropWhile isdigit v")
    case Nil
    have "a @ dropWhile isdigit v = v" by (simp add: a_def)
    with Nil have "a = v" unfolding Nil by (simp only: append_Nil2)
    with Some s1 show ?thesis
      by (simp add: parse_range_field_def range_numbers_def Let_def Nil del: dropWhile_eq_Nil_conv)
  next
    case (Cons c r)
    have v: "v = a @ c # r" using Cons takeWhile_dropWhile_id [of isdigit v] by (simp add: a_def)
    show ?thesis
    proof (cases "c = CHR ''-''")
      case False
      with Some Cons s1 v show ?thesis by (simp add: parse_range_field_def range_numbers_def Let_def nth_append)
    next
      case True
      define b rest where b: "b = takeWhile isdigit r" and rest: "rest = dropWhile isdigit r"
      have bd: "\<forall>c \<in> set b. isdigit c" "rest = [] \<or> \<not> isdigit (hd rest)" "r = b @ rest"
        using hd_dropWhile [of isdigit r] by (auto simp: b rest dest: set_takeWhileD)
      have vv: "v = a @ ''-'' @ b @ rest" using v True bd(3) by simp
      have nd: "\<not> isdigit (CHR ''-'')" by code_simp
      have s2: "scan isdigit v (length a + 1) = length a + 1 + length b"
        using takeWhile_append_stop [of b isdigit rest] bd by (simp add: scan_takeWhile vv)
      have v1: "fst (strtoll v) = min (int (digits_val a)) LLONG_MAX" if "a \<noteq> []"
        using fst_strtoll_digits [of a "''-'' @ b @ rest"] that ad nd vv by simp
      have v2: "fst (strtoll (drop (length a + 1) v)) = min (int (digits_val b)) LLONG_MAX" if "b \<noteq> []"
        using fst_strtoll_digits [of b rest] that bd vv by simp
      have at: "\<not> (length a = length v \<or> v ! length a \<noteq> CHR ''-'')"
        "length a + 1 + length b \<noteq> length v \<and> v ! (length a + 1 + length b) \<noteq> CHR '','' \<longleftrightarrow>
          \<not> (rest = [] \<or> hd rest = CHR '','')"
        by (auto simp: vv nth_append hd_conv_nth)
      have ne: "0 \<noteq> length a \<longleftrightarrow> a \<noteq> []" "length a + 1 \<noteq> length a + 1 + length b \<longleftrightarrow> b \<noteq> []" by auto
      have rn: "range_numbers v = (written a, if rest = [] \<or> hd rest = CHR '','' then written b else None)"
        by (simp add: range_numbers_def Cons True a_def b rest)
      have "parse_range_field conn = (let conn = (if a \<noteq> [] then conn\<lparr>c_range_begin_given := True,
            c_range_begin := fst (strtoll v)\<rparr> else conn) in
          if \<not> (rest = [] \<or> hd rest = CHR '','') then conn
          else if b \<noteq> [] then conn\<lparr>c_range_end_given := True,
            c_range_end := fst (strtoll (drop (length a + 1) v))\<rparr> else conn)"
        unfolding parse_range_field_def Some option.case Let_def s1 s2 drop_0 ne at(2) using at(1) by simp
      moreover define ok where "ok \<longleftrightarrow> rest = [] \<or> hd rest = CHR '',''"
      moreover define x y where "x = fst (strtoll v)" and "y = fst (strtoll (drop (length a + 1) v))"
      ultimately have p: "parse_range_field conn = (let conn = (if a \<noteq> [] then conn\<lparr>c_range_begin_given := True,
            c_range_begin := x\<rparr> else conn) in
          if \<not> ok then conn
          else if b \<noteq> [] then conn\<lparr>c_range_end_given := True, c_range_end := y\<rparr> else conn)"
        by simp
      have "written a = (if a = [] then None else Some x)" "written b = (if b = [] then None else Some y)"
        using v1 v2 by (simp_all add: written_def x_def y_def)
      then show ?thesis
        unfolding Some option.case rn ok_def [symmetric] p Let_def
        by (cases "a = []"; cases "b = []"; cases ok) (simp_all add: with_range_def)
    qed
  qed
qed

definition ranging_connection :: connection where
  "ranging_connection = sample_connection\<lparr>c_request_length := 38,
     c_request := Some (''GET / HTTP/1.1'' @ CRLF @ ''range: bytes=2-5,'' @ CRLF @ LF # LF # [])\<rparr>"

theorem parse_range_field_numbers_witness:
  "c_range_begin (parse_range_field ranging_connection) = 2 \<and>
   c_range_end (parse_range_field ranging_connection) = 5"
proof -
  have f: "parse_field ranging_connection (LF # ''Range: bytes='') = Some (''2'' @ ''-'' @ ''5'' @ '','')"
    by code_simp
  have d: "\<forall>c \<in> set (''2'' @ ''5''). isdigit c" "digits_val ''2'' = 2" "digits_val ''5'' = 5" by code_simp+
  from parse_range_field_numbers [OF f d(1)] d(2,3) show ?thesis by simp
qed

text \<open>A request as a client prints it.\<close>

definition print_request :: "string \<Rightarrow> string \<Rightarrow> string \<Rightarrow> (string \<times> string) list \<Rightarrow> string" where
  "print_request e meth url hs = meth @ '' '' @ url @ '' HTTP/1.1'' @ e @ header_lines e hs"

definition token :: "string \<Rightarrow> bool" where
  "token t \<longleftrightarrow> (\<forall>c \<in> set t. c \<noteq> CHR '' '' \<and> \<not> eol c \<and> c \<noteq> NUL)"

lemma line_end_eol: "line_end e \<Longrightarrow> e \<noteq> [] \<and> last e = LF \<and> (\<forall>c \<in> set e. eol c)"
  by (auto simp: line_end_def eol_def)

lemma eol_not_NUL: "\<not> eol NUL"
  by (simp add: eol_def)

lemma header_lines_nul_free:
  assumes "line_end e" "\<forall>h \<in> set hs. header_ok h"
  shows "nul_free_str (header_lines e hs)"
proof -
  have e: "nul_free_str e" using line_end_eol [OF assms(1)] eol_not_NUL by blast
  have "nul_free_str ('': '')" by simp
  then have "nul_free_str (header_line e h)" if "header_ok h" for h
    using that e unfolding header_line_def header_ok_def field_name_def set_append by blast
  with assms(2) e show ?thesis
    unfolding header_lines_def set_append set_concat set_map by blast
qed

lemma print_request_nul_free:
  assumes "line_end e" "token meth" "token url" "\<forall>h \<in> set hs. header_ok h"
  shows "nul_free_str (print_request e meth url hs)"
proof -
  have "nul_free_str e" using line_end_eol [OF assms(1)] eol_not_NUL by blast
  moreover have "nul_free_str ('' '')" "nul_free_str ('' HTTP/1.1'')" by simp_all
  moreover have "nul_free_str meth" "nul_free_str url" using assms(2,3) by (auto simp: token_def)
  ultimately show ?thesis using header_lines_nul_free [OF assms(1,4)]
    unfolding print_request_def set_append by blast
qed

lemma parse_unit_printed:
  assumes "request_bytes conn = print_request e meth url hs" "line_end e" "token meth" "token url"
    "\<forall>h \<in> set hs. header_ok h" "field_name name" "\<forall>c \<in> set u. \<not> eol c"
  shows "parse_field conn (LF # name @ '': '' @ u) = header_unit hs name u"
proof -
  obtain e' where e': "e = e' @ [LF]" "LF \<notin> set e'"
    using assms(2) by (auto simp: line_end_def)
  have "LF \<notin> set (meth @ '' '' @ url @ '' HTTP/1.1'' @ e')"
    using assms(3,4) e'(2) by (auto simp: token_def eol_def)
  note skip = field_value_skip [OF this, of "name @ '': '' @ u" "LF # header_lines e hs"]
  have "parse_field conn (LF # name @ '': '' @ u) = field_value (LF # name @ '': '' @ u) (print_request e meth url hs)"
    using parse_field_field_value [of conn] print_request_nul_free [OF assms(2-5)] assms(1) by simp
  also have "print_request e meth url hs =
      (meth @ '' '' @ url @ '' HTTP/1.1'' @ e') @ LF # header_lines e hs"
    by (simp only: print_request_def e'(1) append_assoc append.simps)
  finally show ?thesis using skip field_value_unit [OF assms(2,5,6,7)] by simp
qed

lemma parse_field_printed:
  assumes "request_bytes conn = print_request e meth url hs" "line_end e" "token meth" "token url"
    "\<forall>h \<in> set hs. header_ok h" "field_name name"
  shows "parse_field conn (LF # name @ '': '') = header_get hs name"
  using parse_unit_printed [OF assms, of "[]"] by (simp add: header_unit_get)

lemma scan_stop_at:
  assumes "\<forall>c \<in> set b. p c" "c = [] \<or> \<not> p (hd c)"
  shows "scan p (a @ b @ c) (length a) = length a + length b"
  using takeWhile_append_stop [OF assms] by (simp add: scan_takeWhile)

lemma at_end_of: "t \<noteq> [] \<Longrightarrow> (p @ t) ! length p = hd t \<and> length p < length (p @ t)"
  by (cases t) simp_all

lemma strntoupper_all [simp]: "strntoupper s (length s) = map toupper s"
  by (simp add: strntoupper_def)

lemma parse_protocol_printed:
  assumes "request_bytes conn = pre @ '' HTTP/1.1'' @ e @ rest" "line_end e"
  shows "parse_protocol conn (length pre) = (Parsed, conn\<lparr>c_conn_close := False\<rparr>)"
proof -
  let ?R = "pre @ '' HTTP/1.1'' @ e @ rest"
  have s1: "scan (\<lambda>c. c = CHR '' '') ?R (length pre) = length pre + 1"
    using scan_stop_at [of "'' ''" "\<lambda>c. c = CHR '' ''" "''HTTP/1.1'' @ e @ rest" pre] by simp
  have "e \<noteq> [] \<and> eol (hd e)" using assms(2) by (auto simp: line_end_def eol_def)
  then have hd: "eol (hd (e @ rest))" "e @ rest \<noteq> []" by auto
  have s2: "scan (\<lambda>c. c \<noteq> CHR '' '' \<and> c \<noteq> CR \<and> c \<noteq> LF) ?R (length pre + 1 + 1) = length pre + 9"
    using scan_stop_at [of "''TTP/1.1''" "\<lambda>c. c \<noteq> CHR '' '' \<and> c \<noteq> CR \<and> c \<noteq> LF" "e @ rest" "pre @ '' H''"] hd
    by (simp add: eol_def)
  have c: "c_at ?R (length pre + 9) = hd (e @ rest)"
    using hd by (cases "e @ rest") (auto simp: c_at_def nth_append)
  have proto: "split_string ?R (length pre + 1) (length pre + 9) = ''HTTP/1.1''"
    by (simp add: split_string_def cstr_def)
  show ?thesis
    unfolding parse_protocol_def assms(1) Let_def s1 s2 c proto
    using hd by (auto simp: eol_def strcasecmp_eq_0)
qed

lemma parse_request_line:
  assumes "request_bytes conn = print_request e meth url hs" "line_end e" "token meth"
    "token url" "url \<noteq> []"
  shows "parse_request cfg conn = (Parsed, parse_fields cfg
    (conn\<lparr>c_method := Some (map toupper meth), c_url := Some url, c_conn_close := False\<rparr>))"
proof -
  let ?R = "print_request e meth url hs"
  let ?t = "'' HTTP/1.1'' @ e @ header_lines e hs"
  have m: "\<forall>c \<in> set meth. c \<noteq> CHR '' ''" "cstr meth = meth"
    and u: "\<forall>c \<in> set (tl url). c \<noteq> CHR '' '' \<and> c \<noteq> CR \<and> c \<noteq> LF \<and> c \<noteq> NUL"
      "cstr url = url" "hd url \<noteq> CHR '' ''"
  proof -
    show "\<forall>c \<in> set meth. c \<noteq> CHR '' ''" using assms(3) unfolding token_def by blast
    show "cstr meth = meth" using assms(3) unfolding token_def by (intro cstr_id) blast
    show "cstr url = url" using assms(4) unfolding token_def by (intro cstr_id) blast
    show "\<forall>c \<in> set (tl url). c \<noteq> CHR '' '' \<and> c \<noteq> CR \<and> c \<noteq> LF \<and> c \<noteq> NUL"
      using assms(4) list.set_sel(2) [OF assms(5)] unfolding token_def eol_def by blast
    show "hd url \<noteq> CHR '' ''" using assms(4) list.set_sel(1) [OF assms(5)] unfolding token_def by blast
  qed
  have s1: "scan (\<lambda>c. c \<noteq> CHR '' '') ?R 0 = length meth"
    using scan_stop_at [OF m(1), of "'' '' @ url @ ?t" "[]"] by (simp add: print_request_def)
  have s2: "scan (\<lambda>c. c = CHR '' '') ?R (length meth) = length meth + 1"
    using scan_stop_at [of "'' ''" "\<lambda>c. c = CHR '' ''" "url @ ?t" meth] u(3) assms(5)
    by (simp add: print_request_def)
  have url: "url = [hd url] @ tl url" using assms(5) by simp
  have s3: "scan (\<lambda>c. c \<noteq> CHR '' '' \<and> c \<noteq> CR \<and> c \<noteq> LF \<and> c \<noteq> NUL) ?R (length meth + 1 + 1)
      = length meth + 1 + length url"
    using scan_stop_at [OF u(1), of ?t "meth @ '' '' @ [hd url]"] assms(5)
    by (cases url) (simp_all add: print_request_def)
  have c: "?R = (meth @ '' '' @ url) @ ?t" "length (meth @ '' '' @ url) = length meth + 1 + length url"
    by (simp_all add: print_request_def)
  have at: "?R ! (length meth + 1 + length url) = CHR '' ''" "length meth + 1 + length url < length ?R"
    using at_end_of [of ?t "meth @ '' '' @ url"] unfolding c(1) c(2) by simp_all
  then have cat: "c_at ?R (length meth + 1 + length url) = CHR '' ''" by (simp add: c_at_def)
  have p1: "split_string ?R 0 (length meth) = meth" "split_string ?R (length meth + 1) (length meth + 1 + length url) = url"
    by (simp_all add: split_string_def print_request_def m u)
  let ?c = "conn\<lparr>c_method := Some (map toupper meth), c_url := Some url\<rparr>"
  have pr: "parse_protocol ?c (length meth + 1 + length url) = (Parsed, ?c\<lparr>c_conn_close := False\<rparr>)"
    using parse_protocol_printed [of ?c "meth @ '' '' @ url" e "header_lines e hs"] assms(1,2) c by simp
  have ne: "length meth + 1 \<noteq> length ?R" using at(2) by linarith
  show ?thesis
    unfolding parse_request_def assms(1) Let_def s1 s2 s3 p1 cat strntoupper_all
    using at pr ne by (simp add: cat)
qed

lemma parse_field_update [simp]:
  "parse_field (conn\<lparr>c_method := m\<rparr>) f = parse_field conn f"
  "parse_field (conn\<lparr>c_url := m\<rparr>) f = parse_field conn f"
  "parse_field (conn\<lparr>c_conn_close := b\<rparr>) f = parse_field conn f"
  "parse_field (conn\<lparr>c_referer := m\<rparr>) f = parse_field conn f"
  "parse_field (conn\<lparr>c_user_agent := m\<rparr>) f = parse_field conn f"
  "parse_field (conn\<lparr>c_authorization := m\<rparr>) f = parse_field conn f"
  "parse_field (conn\<lparr>c_forwarded_for := m\<rparr>) f = parse_field conn f"
  by (rule parse_field_cong, simp)+

text \<open>Whether the connection closes after the reply, from the value of the Connection field.\<close>

definition close_wanted :: "config \<Rightarrow> string option \<Rightarrow> bool \<Rightarrow> bool" where
  "close_wanted cfg v dflt \<longleftrightarrow> \<not> want_keepalive cfg \<or>
     (case v of None \<Rightarrow> dflt
      | Some v \<Rightarrow> map tolower v = ''close'' \<or> (map tolower v \<noteq> ''keep-alive'' \<and> dflt))"

lemma parse_fields_eq:
  "parse_fields cfg conn = parse_range_field (conn\<lparr>
     c_conn_close := close_wanted cfg (parse_field conn (LF # ''Connection: '')) (c_conn_close conn),
     c_referer := parse_field conn (LF # ''Referer: ''),
     c_user_agent := parse_field conn (LF # ''User-Agent: ''),
     c_authorization := parse_field conn (LF # ''Authorization: ''),
     c_forwarded_for := (if trusted_ip cfg = None then c_forwarded_for conn
       else parse_field conn (LF # ''X-Forwarded-For: ''))\<rparr>)"
proof -
  have k: "map tolower ''close'' = ''close''" "map tolower ''keep-alive'' = ''keep-alive''" by code_simp+
  have close: "(let conn = (case tmp of None \<Rightarrow> c
            | Some tmp \<Rightarrow>
                if strcasecmp tmp ''close'' = 0 then c\<lparr>c_conn_close := True\<rparr>
                else if strcasecmp tmp ''keep-alive'' = 0 then c\<lparr>c_conn_close := False\<rparr>
                else c)
       in if \<not> want_keepalive cfg then conn\<lparr>c_conn_close := True\<rparr> else conn)
    = c\<lparr>c_conn_close := close_wanted cfg tmp (c_conn_close c)\<rparr>" for tmp c
    unfolding strcasecmp_eq_0 k close_wanted_def
    by (cases "want_keepalive cfg"; cases tmp) (simp_all add: Let_def)
  have forwarded: "(if trusted_ip cfg \<noteq> None then c\<lparr>c_forwarded_for := v\<rparr> else c)
    = c\<lparr>c_forwarded_for := (if trusted_ip cfg = None then c_forwarded_for c else v)\<rparr>" for c v by simp
  note close' = close [unfolded Let_def]
  show ?thesis
    unfolding parse_fields_def Let_def close' forwarded parse_field_update by simp
qed

text \<open>The numbers of the first Range header in bytes.\<close>

definition range_wanted :: "(string \<times> string) list \<Rightarrow> int option \<times> int option" where
  "range_wanted hs =
     (case header_unit hs ''Range'' ''bytes='' of None \<Rightarrow> (None, None) | Some v \<Rightarrow> range_numbers v)"

definition names_used :: "string list" where
  "names_used = [''Referer'', ''User-Agent'', ''Authorization'', ''X-Forwarded-For'', ''Connection'',
     ''Host'', ''X-Forwarded-Proto'', ''If-Modified-Since'']"

lemma field_names_used: "n \<in> set names_used \<Longrightarrow> field_name n"
proof -
  have "\<forall>n \<in> set names_used. field_name n" by code_simp
  then show "n \<in> set names_used \<Longrightarrow> field_name n" by blast
qed

text \<open>C8. A request that is printed from a method, a URL and any list of header fields (with
  CR LF or bare LF line ends) is parsed back: the method in upper case, the URL as it is, each
  field the parser stores with the value of the first header of that name, whatever its case and
  whatever the other values contain, X-Forwarded-For only under a trusted address; the range that
  the first \<open>Range: bytes=\<close> header asks for; and the connection is kept alive exactly if keep-alive is
  allowed and no Connection: close is sent.  The fields that are looked up later (Host,
  X-Forwarded-Proto, If-Modified-Since) are found in the parsed connection with their values.\<close>

theorem parse_request_print:
  assumes "request_bytes conn = print_request e meth url hs" "line_end e" "token meth"
    "token url" "url \<noteq> []" "\<forall>h \<in> set hs. header_ok h"
  shows "\<exists>conn'. parse_request cfg conn = (Parsed, conn') \<and>
    c_method conn' = Some (map toupper meth) \<and> c_url conn' = Some url \<and>
    c_referer conn' = header_get hs ''Referer'' \<and>
    c_user_agent conn' = header_get hs ''User-Agent'' \<and>
    c_authorization conn' = header_get hs ''Authorization'' \<and>
    c_forwarded_for conn' = (if trusted_ip cfg = None then c_forwarded_for conn
      else header_get hs ''X-Forwarded-For'') \<and>
    (c_conn_close conn' \<longleftrightarrow> \<not> want_keepalive cfg \<or>
      (\<exists>v. header_get hs ''Connection'' = Some v \<and> map tolower v = ''close'')) \<and>
    (c_range_begin_given conn' \<longleftrightarrow> c_range_begin_given conn \<or> fst (range_wanted hs) \<noteq> None) \<and>
    c_range_begin conn' = (case fst (range_wanted hs) of None \<Rightarrow> c_range_begin conn | Some n \<Rightarrow> n) \<and>
    (c_range_end_given conn' \<longleftrightarrow> c_range_end_given conn \<or> snd (range_wanted hs) \<noteq> None) \<and>
    c_range_end conn' = (case snd (range_wanted hs) of None \<Rightarrow> c_range_end conn | Some n \<Rightarrow> n) \<and>
    (\<forall>n \<in> set names_used. parse_field conn' (LF # n @ '': '') = header_get hs n)"
proof -
  let ?c = "conn\<lparr>c_method := Some (map toupper meth), c_url := Some url, c_conn_close := False\<rparr>"
  have f: "parse_field ?c (LF # n @ '': '') = header_get hs n" if "n \<in> set names_used" for n
    using parse_field_printed [of ?c, OF _ assms(2-4,6) field_names_used [OF that]] assms(1) by simp
  have "parse_field ?c (LF # ''Referer: '') = header_get hs ''Referer''"
    "parse_field ?c (LF # ''User-Agent: '') = header_get hs ''User-Agent''"
    "parse_field ?c (LF # ''Authorization: '') = header_get hs ''Authorization''"
    "parse_field ?c (LF # ''X-Forwarded-For: '') = header_get hs ''X-Forwarded-For''"
    "parse_field ?c (LF # ''Connection: '') = header_get hs ''Connection''"
    using f [of "''Referer''"] f [of "''User-Agent''"] f [of "''Authorization''"]
      f [of "''X-Forwarded-For''"] f [of "''Connection''"] by (simp_all add: names_used_def)
  note fields = this
  have "\<forall>c \<in> set ''bytes=''. \<not> eol c" "field_name ''Range''" by code_simp+
  with parse_unit_printed [of ?c, OF _ assms(2-4,6)] assms(1)
  have r: "parse_field ?c (LF # ''Range: bytes='') = header_unit hs ''Range'' ''bytes=''" by force
  define d where "d = ?c\<lparr>c_conn_close := close_wanted cfg (header_get hs ''Connection'') False,
     c_referer := header_get hs ''Referer'', c_user_agent := header_get hs ''User-Agent'',
     c_authorization := header_get hs ''Authorization'',
     c_forwarded_for := (if trusted_ip cfg = None then c_forwarded_for conn else header_get hs ''X-Forwarded-For'')\<rparr>"
  have "parse_field d g = parse_field ?c g" for g by (rule parse_field_cong) (simp add: d_def)
  then have p: "parse_request cfg conn = (Parsed, parse_range_field d)"
    and rd: "parse_field d (LF # ''Range: bytes='') = header_unit hs ''Range'' ''bytes=''"
    and fd: "\<forall>n \<in> set names_used. parse_field (parse_range_field d) (LF # n @ '': '') = header_get hs n"
    using parse_request_line [OF assms(1-5), of cfg] fields r f
      parse_field_cong [of "parse_range_field d" d] by (simp_all add: parse_fields_eq d_def request_bytes_def)
  have dr: "c_range_begin_given d = c_range_begin_given conn" "c_range_begin d = c_range_begin conn"
    "c_range_end_given d = c_range_end_given conn" "c_range_end d = c_range_end conn" by (simp_all add: d_def)
  have "parse_range_field d = with_range (range_wanted hs) d"
    by (simp add: parse_range_field_eq rd range_wanted_def split: option.split)
  then have range: "c_range_begin_given (parse_range_field d) \<longleftrightarrow> c_range_begin_given conn \<or> fst (range_wanted hs) \<noteq> None"
    "c_range_begin (parse_range_field d) = (case fst (range_wanted hs) of None \<Rightarrow> c_range_begin conn | Some n \<Rightarrow> n)"
    "c_range_end_given (parse_range_field d) \<longleftrightarrow> c_range_end_given conn \<or> snd (range_wanted hs) \<noteq> None"
    "c_range_end (parse_range_field d) = (case snd (range_wanted hs) of None \<Rightarrow> c_range_end conn | Some n \<Rightarrow> n)"
    using with_range_fields [of "range_wanted hs" d, unfolded dr] by simp_all
  show ?thesis
    by (rule exI [of _ "parse_range_field d"], intro conjI p range fd)
      (auto simp: d_def close_wanted_def split: option.splits)
qed

definition requesting_connection :: connection where
  "requesting_connection = (new_connection sample_server)\<lparr>c_socket := 5, c_state := RECV_REQUEST,
     c_request_length := 34,
     c_request := Some (''get /a HTTP/1.1'' @ CRLF @ ''REFERER: x: y'' @ CRLF @ CRLF)\<rparr>"

lemma requesting_bytes:
  "request_bytes requesting_connection = print_request CRLF ''get'' ''/a'' [(''REFERER'', ''x: y'')]"
  by (simp add: requesting_connection_def request_bytes_def print_request_def header_lines_def header_line_def)

lemma requesting_field:
  assumes "n \<in> set names_used"
  shows "parse_field requesting_connection (LF # n @ '': '') = header_get [(''REFERER'', ''x: y'')] n"
proof -
  have le: "line_end CRLF" by (simp add: line_end_def)
  have ok: "token ''get''" "token ''/a''" "\<forall>h \<in> set [(''REFERER'', ''x: y'')]. header_ok h" by code_simp+
  show ?thesis by (rule parse_field_printed [OF requesting_bytes le ok field_names_used [OF assms]])
qed

lemma requesting_no_authorization: "parse_field requesting_connection (LF # ''Authorization: '') = None"
proof -
  have "header_get [(''REFERER'', ''x: y'')] ''Authorization'' = None" by code_simp
  with requesting_field [of "''Authorization''"] show ?thesis by (simp add: names_used_def)
qed

text \<open>A request for a part of a file.\<close>

definition part_headers :: "(string \<times> string) list" where
  "part_headers = [(''Host'', ''h''), (''range'', ''lines=1-2''), (''RANGE'', ''bytes=2-5,7''), (''Referer'', ''x: y'')]"

definition part_connection :: connection where
  "part_connection = (new_connection sample_server)\<lparr>c_socket := 5, c_state := RECV_REQUEST,
     c_request_length := length (print_request CRLF ''get'' ''/a'' part_headers),
     c_request := Some (print_request CRLF ''get'' ''/a'' part_headers)\<rparr>"

theorem parse_request_print_witness:
  "\<exists>conn'. parse_request sample_config part_connection = (Parsed, conn') \<and>
     c_method conn' = Some ''GET'' \<and> c_url conn' = Some ''/a'' \<and> c_referer conn' = Some ''x: y'' \<and>
     \<not> c_conn_close conn' \<and> c_range_begin conn' = 2 \<and> c_range_end conn' = 5 \<and>
     parse_field conn' (LF # ''Host: '') = Some ''h''"
proof -
  have r: "request_bytes part_connection = print_request CRLF ''get'' ''/a'' part_headers"
    by (simp add: part_connection_def request_bytes_def)
  have le: "line_end CRLF" by (simp add: line_end_def)
  have ok: "token ''get''" "token ''/a''" "\<forall>h \<in> set part_headers. header_ok h" by code_simp+
  have v: "map toupper ''get'' = ''GET''" "header_get part_headers ''Referer'' = Some ''x: y''"
    "header_get part_headers ''Connection'' = None" "want_keepalive sample_config"
    "header_get part_headers ''Host'' = Some ''h''" "range_wanted part_headers = (Some 2, Some 5)" by code_simp+
  have ne: "''/a'' \<noteq> []" by simp
  obtain conn' where p: "parse_request sample_config part_connection = (Parsed, conn')"
    "c_method conn' = Some (map toupper ''get'')" "c_url conn' = Some ''/a''"
    "c_referer conn' = header_get part_headers ''Referer''" "\<not> c_conn_close conn'"
    "c_range_begin conn' = 2" "c_range_end conn' = 5"
    "\<forall>n \<in> set names_used. parse_field conn' (LF # n @ '': '') = header_get part_headers n"
    using parse_request_print [OF r le ok(1,2) ne ok(3), of sample_config] v(3,4,6) by auto
  have "''Host'' \<in> set names_used" by (simp add: names_used_def)
  with p(8) v(5) have "parse_field conn' (LF # ''Host'' @ '': '') = Some ''h''" by metis
  then have h: "parse_field conn' (LF # ''Host: '') = Some ''h''" by simp
  show ?thesis by (rule exI [of _ conn']) (use p(1-7) v(1,2) h in \<open>simp only: simp_thms\<close>)
qed

section \<open>No read beyond the buffer\<close>

lemma field_bounds_ok:
  assumes "field_bounds conn field = Some (b1, b2)"
  shows "b1 \<le> b2 \<and> b2 \<le> length (request_bytes conn)"
proof -
  let ?R = "request_bytes conn"
  from assms obtain pos where p: "strcasestr (cstr ?R) field = Some pos" "b1 = pos + length field"
    "b2 = scan (\<lambda>c. c \<noteq> CR \<and> c \<noteq> LF) ?R b1" by (auto simp: field_bounds_def Let_def split: option.splits)
  then have "pos \<le> length (cstr ?R)" "length field \<le> length (cstr ?R) - pos"
    by (auto simp: strcasestr_def find_sub_Some dest!: prefix_length_le)
  moreover have "length (cstr ?R) \<le> length ?R" by (simp add: cstr_def length_takeWhile_le)
  ultimately have "b1 \<le> length ?R" using p(2) by linarith
  with p(3) show ?thesis using scan_le scan_ge by blast
qed

text \<open>C9. On a request that ends in a newline, as every request does that the server parses, the parser
  of the request line reads and copies no byte beyond the NUL that ends the buffer, whatever the
  client sends; and wherever a header field is found, in any request, its value is copied from
  inside the buffer, with the start not after the end, as \<open>split_string\<close> asserts.\<close>

theorem parse_request_in_bounds:
  assumes "request_bytes conn \<noteq> []" "last (request_bytes conn) = LF"
  shows "fst (parse_request cfg conn) \<noteq> Bad_read \<and>
    (\<forall>field b1 b2. field_bounds conn field = Some (b1, b2) \<longrightarrow> b1 \<le> b2 \<and> b2 \<le> length (request_bytes conn))"
proof -
  let ?R = "request_bytes conn"
  have sp: "scan (\<lambda>c. c = CHR '' '') ?R n < length ?R" if n: "n < length ?R" for n
  proof (rule ccontr)
    assume "\<not> scan (\<lambda>c. c = CHR '' '') ?R n < length ?R"
    then have "?R ! (length ?R - 1) = CHR '' ''"
      using scan_between [of n "length ?R - 1" "\<lambda>c. c = CHR '' ''" ?R] n assms(1) by linarith
    with assms show False by (simp add: last_conv_nth)
  qed
  then have next_token: "scan p ?R (scan (\<lambda>c. c = CHR '' '') ?R n + 1) \<le> length ?R" if "n < length ?R" for p n
    using that by (intro scan_le) (simp add: Suc_leI)
  have pp: "fst (parse_protocol c n) \<noteq> Bad_read" if "request_bytes c = ?R" "n < length ?R" for c n
    using next_token [OF that(2), of "\<lambda>c. c \<noteq> CHR '' '' \<and> c \<noteq> CR \<and> c \<noteq> LF"]
    by (auto simp: parse_protocol_def that(1) Let_def not_less [symmetric])
  have c: "n < length ?R" if "c_at ?R n = CHR '' ''" for n
    using that by (auto simp: c_at_def split: if_splits)
  have pq: "\<not> parse_protocol (conn\<lparr>c_method := m, c_url := u\<rparr>) n = (Bad_read, d)"
    if "c_at ?R n = CHR '' ''" for m u n d
    using pp [of "conn\<lparr>c_method := m, c_url := u\<rparr>" n] c [OF that] by auto
  let ?b = "scan (\<lambda>c. c \<noteq> CHR '' '') ?R 0"
  have u: "scan (\<lambda>c. c = CHR '' '') ?R ?b = length ?R \<or> scan p ?R (scan (\<lambda>c. c = CHR '' '') ?R ?b + 1) \<le> length ?R" for p
    using next_token [of ?b p] scan_le [of 0 ?R "\<lambda>c. c \<noteq> CHR '' ''"] scan_outside [of ?R ?b "\<lambda>c. c = CHR '' ''"]
    by linarith
  have "fst (parse_request cfg conn) \<noteq> Bad_read"
    using u [of "\<lambda>c. c \<noteq> CHR '' '' \<and> c \<noteq> CR \<and> c \<noteq> LF \<and> c \<noteq> NUL"] pq
    by (auto simp: parse_request_def Let_def split: prod.splits if_splits)
  with field_bounds_ok show ?thesis by blast
qed

theorem parse_request_in_bounds_witness:
  "request_bytes requesting_connection \<noteq> [] \<and>
   fst (parse_request sample_config requesting_connection) \<noteq> Bad_read"
proof -
  have "request_bytes requesting_connection \<noteq> []" "last (request_bytes requesting_connection) = LF"
    by (simp_all add: request_bytes_def requesting_connection_def)
  with parse_request_in_bounds [OF this] show ?thesis by blast
qed

end
