(* ===== verification/Reply.thy ===== *)
theory Reply
  imports Request SafeUrl
begin

text \<open>
  Generated replies: error pages, redirects, and the redirect to HTTPS.  A reply is the header
  and, separately, the body; both are left in the connection for the sending code.
\<close>

section \<open>Operations\<close>

definition pkgname :: string where
  "pkgname = ''darkhttpd/1.17.from.git''"

definition keep_alive :: "config \<Rightarrow> connection \<Rightarrow> string" where
  "keep_alive cfg conn = (if c_conn_close conn then ''Connection: close'' @ CRLF else keep_alive_field cfg)"

text \<open>\<^verbatim>\<open>snprintf\<close> into a buffer of \<open>size\<close> bytes.\<close>

definition snprintf :: "nat \<Rightarrow> string \<Rightarrow> string" where
  "snprintf n s = take (n - 1) s"

definition generated_on :: "config \<Rightarrow> string \<Rightarrow> string" where
  "generated_on cfg date =
     (if \<not> want_server_id cfg then []
      else snprintf (13 + length pkgname + 4 + DATE_LEN + 2)
        (''Generated by '' @ pkgname @ '' on '' @ date @ [LF]))"

text \<open>The lines that all headers but those of redirects begin with.\<close>

definition header_start :: "config \<Rightarrow> server \<Rightarrow> connection \<Rightarrow> string \<Rightarrow> string" where
  "header_start cfg s conn status =
     ''HTTP/1.1 '' @ status @ CRLF @
     ''Date: '' @ rfc1123_date (now s) @ CRLF @
     server_hdr cfg @
     ''Accept-Ranges: bytes'' @ CRLF @
     keep_alive cfg conn @
     custom_hdrs cfg"

definition auth_header :: string where
  "auth_header = ''WWW-Authenticate: Basic realm='' @ [DQUOTE] @ ''User Visible Realm'' @ [DQUOTE] @ CRLF"

definition default_page :: "config \<Rightarrow> server \<Rightarrow> int \<Rightarrow> string \<Rightarrow> string \<Rightarrow> string" where
  "default_page cfg s errcode errname reason =
     ''<!DOCTYPE html><html><head><title>'' @ dec_int errcode @ '' '' @ errname @
     ''</title></head><body>'' @ [LF] @
     ''<h1>'' @ errname @ ''</h1>'' @ [LF] @
     reason @ [LF] @
     ''<hr>'' @ [LF] @
     generated_on cfg (rfc1123_date (now s)) @
     ''</body></html>'' @ [LF]"

definition default_reply ::
    "config \<Rightarrow> server \<Rightarrow> connection \<Rightarrow> int \<Rightarrow> string \<Rightarrow> string \<Rightarrow> connection" where
  "default_reply cfg s conn errcode errname reason =
     (let reply = default_page cfg s errcode errname reason;
          conn = conn\<lparr>c_reply := Some reply, c_reply_length := int (length reply)\<rparr>;
          header = header_start cfg s conn (dec_int errcode @ '' '' @ errname) @
            ''Content-Length: '' @ dec (llu (c_reply_length conn)) @ CRLF @
            ''Content-Type: text/html; charset=UTF-8'' @ CRLF @
            (if auth_key cfg \<noteq> None then auth_header else []) @
            CRLF
      in conn\<lparr>c_header := Some header, c_header_length := length header,
              c_reply_type := Some REPLY_GENERATED, c_http_code := errcode, c_reply_start := 0\<rparr>)"

definition redirect_page :: "config \<Rightarrow> server \<Rightarrow> string \<Rightarrow> string" where
  "redirect_page cfg s dest =
     ''<!DOCTYPE html><html><head><title>301 Moved Permanently</title></head><body>'' @ [LF] @
     ''<h1>Moved Permanently</h1>'' @ [LF] @
     ''Moved to: <a href='' @ [DQUOTE] @ dest @ [DQUOTE] @ ''>'' @ dest @ ''</a>'' @ [LF] @
     ''<hr>'' @ [LF] @
     generated_on cfg (rfc1123_date (now s)) @
     ''</body></html>'' @ [LF]"

definition redirect :: "config \<Rightarrow> server \<Rightarrow> connection \<Rightarrow> string \<Rightarrow> connection" where
  "redirect cfg s conn dest =
     (let reply = redirect_page cfg s dest;
          conn = conn\<lparr>c_reply := Some reply, c_reply_length := int (length reply)\<rparr>;
          header = ''HTTP/1.1 301 Moved Permanently'' @ CRLF @
            ''Date: '' @ rfc1123_date (now s) @ CRLF @
            server_hdr cfg @
            ''Location: '' @ dest @ CRLF @
            keep_alive cfg conn @
            custom_hdrs cfg @
            ''Content-Length: '' @ dec (llu (c_reply_length conn)) @ CRLF @
            ''Content-Type: text/html; charset=UTF-8'' @ CRLF @
            CRLF
      in conn\<lparr>c_header := Some header, c_header_length := length header,
              c_reply_type := Some REPLY_GENERATED, c_http_code := 301\<rparr>)"

definition redirect_https :: "config \<Rightarrow> server \<Rightarrow> connection \<Rightarrow> connection" where
  "redirect_https cfg s conn =
     (case make_safe_url (normalize_path (urldecode (the (c_url conn)))) of
        None \<Rightarrow> default_reply cfg s conn 400 ''Bad Request'' ''You requested an invalid URL.''
      | Some url \<Rightarrow>
          (case parse_field conn (LF # ''Host: '') of
             None \<Rightarrow> default_reply cfg s conn 400 ''Bad Request''
               (''Missing '' @ [QUOTE] @ ''Host'' @ [QUOTE] @ '' header.'')
           | Some h \<Rightarrow> redirect cfg s conn (''https://'' @ h @ url)))"

definition needs_https_redirect :: "config \<Rightarrow> connection \<Rightarrow> bool" where
  "needs_https_redirect cfg conn =
     (if \<not> forward_to_https cfg then False
      else case parse_field conn (LF # ''X-Forwarded-Proto: '') of
          None \<Rightarrow> False
        | Some proto \<Rightarrow> strcasecmp proto ''https'' \<noteq> 0)"

section \<open>Headers are lines\<close>

definition clean :: "string \<Rightarrow> bool" where
  "clean l \<longleftrightarrow> LF \<notin> set l \<and> NUL \<notin> set l"

inductive hdr_block :: "string \<Rightarrow> bool" where
  hdr_block_Nil: "hdr_block []"
| hdr_block_line: "clean l \<Longrightarrow> hdr_block b \<Longrightarrow> hdr_block (l @ CRLF @ b)"

lemma hdr_block_append: "hdr_block a \<Longrightarrow> hdr_block b \<Longrightarrow> hdr_block (a @ b)"
  by (induction rule: hdr_block.induct) (auto intro: hdr_block_line [simplified])

text \<open>\<open>header_has h l\<close>: the header consists of clean lines and a blank line, and the line \<open>l\<close> is
  among them.\<close>

definition header_has :: "string \<Rightarrow> string \<Rightarrow> bool" where
  "header_has h l \<longleftrightarrow> clean l \<and> (\<exists>a b. hdr_block a \<and> hdr_block b \<and> h = a @ l @ CRLF @ b @ CRLF)"

definition config_ok :: "config \<Rightarrow> bool" where
  "config_ok cfg \<longleftrightarrow> hdr_block (server_hdr cfg) \<and> hdr_block (keep_alive_field cfg) \<and>
     hdr_block (custom_hdrs cfg)"

lemma clean_append [simp]: "clean (a @ b) \<longleftrightarrow> clean a \<and> clean b"
  by (auto simp: clean_def)

lemma clean_Nil [simp]: "clean []"
  by (simp add: clean_def)

lemma clean_Cons [simp]: "clean (c # s) \<longleftrightarrow> c \<noteq> LF \<and> c \<noteq> NUL \<and> clean s"
  by (auto simp: clean_def)

lemma clean_log_safe: "\<forall>c \<in> set s. log_safe c \<Longrightarrow> clean s"
  using log_safe_not by (auto simp: clean_def)

lemma clean_dec [simp]: "clean (dec n)" "clean (dec_int i)"
  by (rule clean_log_safe, blast intro: dec_log_safe dec_int_log_safe)+

lemma clean_rfc1123 [simp]: "clean (rfc1123_date t)"
proof -
  note f = gmtime_fields [OF refl, of t]
  have d: "\<forall>j \<in> set [0..<7]. clean (day_names ! j)" by code_simp
  have "clean (day_names ! nat (tm_wday (gmtime t)))"
    using d month_of_gmtime(2) [of t] by simp
  moreover have "clean (month_names ! nat (tm_mon (gmtime t)))"
    using month_log_safe [OF month_of_gmtime(1)] by (intro clean_log_safe) blast
  moreover have "clean (two_digits n)" if "0 \<le> n" "n < 100" for n
    using two_digits_log_safe [OF that] by (intro clean_log_safe) blast
  ultimately show ?thesis using f
    by (auto simp: rfc1123_date_def fit_def rfc1123_text_def)
qed

lemma hdr_block_keep_alive: "config_ok cfg \<Longrightarrow> hdr_block (keep_alive cfg conn)"
  using hdr_block_line [OF _ hdr_block_Nil, of "''Connection: close''"]
  by (auto simp: keep_alive_def config_ok_def)

lemma hdr_block_line1: "clean l \<Longrightarrow> hdr_block (l @ CRLF)"
  using hdr_block_line [OF _ hdr_block_Nil] by simp

lemma hdr_block_header_start:
  assumes "config_ok cfg" "clean status"
  shows "hdr_block (header_start cfg s conn status)"
proof -
  have "header_start cfg s conn status = (''HTTP/1.1 '' @ status) @ CRLF @
    (''Date: '' @ rfc1123_date (now s)) @ CRLF @ server_hdr cfg @ ''Accept-Ranges: bytes'' @ CRLF @
    keep_alive cfg conn @ custom_hdrs cfg" by (simp add: header_start_def)
  moreover have "hdr_block (server_hdr cfg)" "hdr_block (custom_hdrs cfg)"
    using assms(1) by (simp_all add: config_ok_def)
  moreover have "clean (''HTTP/1.1 '' @ status)" "clean (''Date: '' @ rfc1123_date (now s))"
    "clean (''Accept-Ranges: bytes'')" using assms(2) by simp_all
  ultimately show ?thesis using hdr_block_keep_alive [OF assms(1), of conn]
    by (simp only:) (intro hdr_block_line hdr_block_append)
qed

lemma header_hasI:
  assumes "h = a @ l @ CRLF @ b @ CRLF" "clean l" "hdr_block a" "hdr_block b"
  shows "header_has h l"
  using assms unfolding header_has_def by blast

section \<open>What a reply must look like\<close>

text \<open>\<open>generated conn status\<close>: the connection holds a complete generated reply.  The header
  is a block of clean lines that begins with the status line and is ended by a blank line, one
  of the lines is the Content-Length of the body that is there, and the lengths stored for the
  sending code are those of the texts.\<close>

definition generated :: "connection \<Rightarrow> string \<Rightarrow> bool" where
  "generated conn status \<longleftrightarrow> (\<exists>h r.
     c_header conn = Some h \<and> c_header_length conn = length h \<and>
     c_reply conn = Some r \<and> c_reply_length conn = int (length r) \<and>
     c_reply_type conn = Some REPLY_GENERATED \<and>
     prefix (''HTTP/1.1 '' @ status @ CRLF) h \<and>
     header_has h (''Content-Length: '' @ dec (length r)))"

lemma hdr_block_auth: "hdr_block (if b then auth_header else [])"
  using hdr_block_line1 [of "''WWW-Authenticate: Basic realm='' @ [DQUOTE] @ ''User Visible Realm'' @ [DQUOTE]"]
  by (auto simp: auth_header_def intro: hdr_block_Nil)

lemma llu_of_nat: "n < 2 ^ 64 \<Longrightarrow> llu (int n) = n"
  by (simp add: llu_id)

text \<open>A header that has the start of the program's headers, a Content-Length and more lines.\<close>

lemma header_start_has:
  assumes "config_ok cfg" "clean status" "hdr_block b" "clean l"
  shows "header_has (header_start cfg s conn status @ l @ CRLF @ b @ CRLF) l"
  using header_hasI [OF refl assms(4) hdr_block_header_start [OF assms(1,2)] assms(3)] .

lemma default_reply_header:
  assumes "length (default_page cfg s errcode errname reason) < 2 ^ 64"
  shows "c_header (default_reply cfg s conn errcode errname reason) = Some (
      header_start cfg s conn (dec_int errcode @ '' '' @ errname) @
      (''Content-Length: '' @ dec (length (default_page cfg s errcode errname reason))) @ CRLF @
      ((''Content-Type: text/html; charset=UTF-8'' @ CRLF) @ (if auth_key cfg \<noteq> None then auth_header else [])) @ CRLF)"
  by (simp add: default_reply_def Let_def llu_of_nat [OF assms(1)] header_start_def keep_alive_def)

lemma default_reply_fields [simp]:
  "c_header_length (default_reply cfg s conn errcode errname reason) =
     length (the (c_header (default_reply cfg s conn errcode errname reason)))"
  "c_reply (default_reply cfg s conn errcode errname reason) = Some (default_page cfg s errcode errname reason)"
  "c_reply_length (default_reply cfg s conn errcode errname reason) =
     int (length (default_page cfg s errcode errname reason))"
  "c_reply_type (default_reply cfg s conn errcode errname reason) = Some REPLY_GENERATED"
  "c_http_code (default_reply cfg s conn errcode errname reason) = errcode"
  "c_reply_start (default_reply cfg s conn errcode errname reason) = 0"
  by (simp_all add: default_reply_def Let_def)

lemma generatedI:
  assumes "c_header conn = Some h" "c_header_length conn = length h" "c_reply conn = Some r"
    "c_reply_length conn = int (length r)" "c_reply_type conn = Some REPLY_GENERATED"
    "prefix (''HTTP/1.1 '' @ status @ CRLF) h" "header_has h (''Content-Length: '' @ dec (length r))"
  shows "generated conn status"
  using assms unfolding generated_def by blast

lemma default_reply_generated:
  assumes "config_ok cfg" "clean errname" "length (default_page cfg s errcode errname reason) < 2 ^ 64"
  shows "generated (default_reply cfg s conn errcode errname reason) (dec_int errcode @ '' '' @ errname)"
proof -
  let ?r = "default_page cfg s errcode errname reason"
  let ?st = "dec_int errcode @ '' '' @ errname"
  let ?b = "(''Content-Type: text/html; charset=UTF-8'' @ CRLF) @ (if auth_key cfg \<noteq> None then auth_header else [])"
  let ?h = "header_start cfg s conn ?st @ (''Content-Length: '' @ dec (length ?r)) @ CRLF @ ?b @ CRLF"
  have "hdr_block ?b" by (intro hdr_block_append hdr_block_line1 hdr_block_auth) simp
  then have h: "header_has ?h (''Content-Length: '' @ dec (length ?r))"
    using assms by (intro header_start_has) simp_all
  have p: "prefix (''HTTP/1.1 '' @ ?st @ CRLF) ?h" by (simp add: header_start_def)
  show ?thesis
    by (rule generatedI [OF default_reply_header [OF assms(3)] _ _ _ _ p h])
      (simp_all only: default_reply_fields default_reply_header [OF assms(3)] option.sel)
qed

lemma header_has_two:
  assumes "hdr_block a" "clean l" "hdr_block m" "clean k" "hdr_block b"
  shows "header_has (a @ l @ CRLF @ m @ k @ CRLF @ b @ CRLF) l"
    "header_has (a @ l @ CRLF @ m @ k @ CRLF @ b @ CRLF) k"
proof -
  have lines: "hdr_block (l @ CRLF)" "hdr_block (k @ CRLF)" using assms by (simp_all add: hdr_block_line1)
  have "hdr_block (m @ (k @ CRLF) @ b)" "hdr_block (a @ (l @ CRLF) @ m)"
    using assms lines by (blast intro: hdr_block_append)+
  then show "header_has (a @ l @ CRLF @ m @ k @ CRLF @ b @ CRLF) l"
    "header_has (a @ l @ CRLF @ m @ k @ CRLF @ b @ CRLF) k"
    using assms by (auto intro: header_hasI [of _ a _ "m @ (k @ CRLF) @ b"] header_hasI [of _ "a @ (l @ CRLF) @ m" _ b])
qed

lemma redirect_header:
  assumes "length (redirect_page cfg s dest) < 2 ^ 64"
  shows "c_header (redirect cfg s conn dest) = Some (
    ((''HTTP/1.1 301 Moved Permanently'' @ CRLF) @ ((''Date: '' @ rfc1123_date (now s)) @ CRLF) @ server_hdr cfg) @
    (''Location: '' @ dest) @ CRLF @
    (keep_alive cfg (conn\<lparr>c_reply := Some (redirect_page cfg s dest),
        c_reply_length := int (length (redirect_page cfg s dest))\<rparr>) @ custom_hdrs cfg) @
    (''Content-Length: '' @ dec (length (redirect_page cfg s dest))) @ CRLF @
    (''Content-Type: text/html; charset=UTF-8'' @ CRLF) @ CRLF)"
  by (simp add: redirect_def Let_def llu_of_nat [OF assms])

lemma redirect_fields [simp]:
  "c_header_length (redirect cfg s conn dest) = length (the (c_header (redirect cfg s conn dest)))"
  "c_reply (redirect cfg s conn dest) = Some (redirect_page cfg s dest)"
  "c_reply_length (redirect cfg s conn dest) = int (length (redirect_page cfg s dest))"
  "c_reply_type (redirect cfg s conn dest) = Some REPLY_GENERATED"
  "c_http_code (redirect cfg s conn dest) = 301"
  by (simp_all add: redirect_def Let_def)

lemma redirect_generated:
  assumes "config_ok cfg" "clean dest" "length (redirect_page cfg s dest) < 2 ^ 64"
  shows "generated (redirect cfg s conn dest) ''301 Moved Permanently'' \<and>
    header_has (the (c_header (redirect cfg s conn dest))) (''Location: '' @ dest)"
proof -
  let ?c = "conn\<lparr>c_reply := Some (redirect_page cfg s dest),
        c_reply_length := int (length (redirect_page cfg s dest))\<rparr>"
  have ok: "hdr_block (server_hdr cfg)" "hdr_block (custom_hdrs cfg)" "hdr_block (keep_alive cfg ?c)"
    using assms(1) hdr_block_keep_alive by (simp_all add: config_ok_def)
  have l: "clean (''HTTP/1.1 301 Moved Permanently'')" "clean (''Date: '' @ rfc1123_date (now s))"
    "clean (''Location: '' @ dest)" "clean (''Content-Type: text/html; charset=UTF-8'')"
    "clean (''Content-Length: '' @ dec (length (redirect_page cfg s dest)))"
    using assms(2) by simp_all
  have a: "hdr_block ((''HTTP/1.1 301 Moved Permanently'' @ CRLF) @ ((''Date: '' @ rfc1123_date (now s)) @ CRLF) @ server_hdr cfg)"
    by (intro hdr_block_append hdr_block_line1 l ok)
  note two = header_has_two [OF a l(3) hdr_block_append [OF ok(3,2)] l(5) hdr_block_line1 [OF l(4)]]
  have pre: "prefix (''HTTP/1.1 '' @ ''301 Moved Permanently'' @ CRLF)
    (((''HTTP/1.1 301 Moved Permanently'' @ CRLF) @ ((''Date: '' @ rfc1123_date (now s)) @ CRLF) @ server_hdr cfg) @ x)" for x
    by simp
  show ?thesis
    using two(1) generatedI [OF redirect_header [OF assms(3)] _ _ _ _ pre two(2)]
    by (simp only: redirect_fields redirect_header [OF assms(3)] option.sel simp_thms)
qed

text \<open>What a reply leaves alone.\<close>

lemma default_reply_frame [simp]:
  "c_socket (default_reply cfg s conn code name reason) = c_socket conn"
  "c_client (default_reply cfg s conn code name reason) = c_client conn"
  "c_last_active (default_reply cfg s conn code name reason) = c_last_active conn"
  "c_state (default_reply cfg s conn code name reason) = c_state conn"
  "c_request (default_reply cfg s conn code name reason) = c_request conn"
  "c_request_length (default_reply cfg s conn code name reason) = c_request_length conn"
  "c_method (default_reply cfg s conn code name reason) = c_method conn"
  "c_url (default_reply cfg s conn code name reason) = c_url conn"
  "c_referer (default_reply cfg s conn code name reason) = c_referer conn"
  "c_user_agent (default_reply cfg s conn code name reason) = c_user_agent conn"
  "c_authorization (default_reply cfg s conn code name reason) = c_authorization conn"
  "c_forwarded_for (default_reply cfg s conn code name reason) = c_forwarded_for conn"
  "c_range_begin (default_reply cfg s conn code name reason) = c_range_begin conn"
  "c_range_end (default_reply cfg s conn code name reason) = c_range_end conn"
  "c_range_begin_given (default_reply cfg s conn code name reason) = c_range_begin_given conn"
  "c_range_end_given (default_reply cfg s conn code name reason) = c_range_end_given conn"
  "c_header_sent (default_reply cfg s conn code name reason) = c_header_sent conn"
  "c_header_dont_free (default_reply cfg s conn code name reason) = c_header_dont_free conn"
  "c_header_only (default_reply cfg s conn code name reason) = c_header_only conn"
  "c_conn_close (default_reply cfg s conn code name reason) = c_conn_close conn"
  "c_reply_dont_free (default_reply cfg s conn code name reason) = c_reply_dont_free conn"
  "c_reply_fd (default_reply cfg s conn code name reason) = c_reply_fd conn"
  "c_reply_sent (default_reply cfg s conn code name reason) = c_reply_sent conn"
  "c_total_sent (default_reply cfg s conn code name reason) = c_total_sent conn"
  by (simp_all add: default_reply_def Let_def)

lemma redirect_frame [simp]:
  "c_socket (redirect cfg s conn dest) = c_socket conn"
  "c_client (redirect cfg s conn dest) = c_client conn"
  "c_last_active (redirect cfg s conn dest) = c_last_active conn"
  "c_state (redirect cfg s conn dest) = c_state conn"
  "c_request (redirect cfg s conn dest) = c_request conn"
  "c_request_length (redirect cfg s conn dest) = c_request_length conn"
  "c_method (redirect cfg s conn dest) = c_method conn"
  "c_url (redirect cfg s conn dest) = c_url conn"
  "c_referer (redirect cfg s conn dest) = c_referer conn"
  "c_user_agent (redirect cfg s conn dest) = c_user_agent conn"
  "c_authorization (redirect cfg s conn dest) = c_authorization conn"
  "c_forwarded_for (redirect cfg s conn dest) = c_forwarded_for conn"
  "c_range_begin (redirect cfg s conn dest) = c_range_begin conn"
  "c_range_end (redirect cfg s conn dest) = c_range_end conn"
  "c_range_begin_given (redirect cfg s conn dest) = c_range_begin_given conn"
  "c_range_end_given (redirect cfg s conn dest) = c_range_end_given conn"
  "c_header_sent (redirect cfg s conn dest) = c_header_sent conn"
  "c_header_dont_free (redirect cfg s conn dest) = c_header_dont_free conn"
  "c_header_only (redirect cfg s conn dest) = c_header_only conn"
  "c_conn_close (redirect cfg s conn dest) = c_conn_close conn"
  "c_reply_dont_free (redirect cfg s conn dest) = c_reply_dont_free conn"
  "c_reply_fd (redirect cfg s conn dest) = c_reply_fd conn"
  "c_reply_sent (redirect cfg s conn dest) = c_reply_sent conn"
  "c_total_sent (redirect cfg s conn dest) = c_total_sent conn"
  "c_reply_start (redirect cfg s conn dest) = c_reply_start conn"
  by (simp_all add: redirect_def Let_def)

lemma redirect_https_cases:
  obtains reason where "redirect_https cfg s conn = default_reply cfg s conn 400 ''Bad Request'' reason"
      "length reason < 100"
  | h p where "redirect_https cfg s conn = redirect cfg s conn (''https://'' @ h @ p)"
      "parse_field conn (LF # ''Host: '') = Some h"
      "make_safe_url (normalize_path (urldecode (the (c_url conn)))) = Some p"
proof (cases "make_safe_url (normalize_path (urldecode (the (c_url conn))))")
  case None
  with that(1) [of "''You requested an invalid URL.''"] show ?thesis by (simp add: redirect_https_def)
next
  case (Some p)
  show ?thesis
  proof (cases "parse_field conn (LF # ''Host: '')")
    case None
    have "length (''Missing '' @ [QUOTE] @ ''Host'' @ [QUOTE] @ '' header.'') < 100" by simp
    moreover have "redirect_https cfg s conn = default_reply cfg s conn 400 ''Bad Request''
        (''Missing '' @ [QUOTE] @ ''Host'' @ [QUOTE] @ '' header.'')"
      by (simp only: redirect_https_def Some None option.case)
    ultimately show ?thesis by (rule that(1) [rotated])
  next
    case (Some h)
    show ?thesis
      by (rule that(2) [OF _ Some \<open>make_safe_url _ = _\<close>])
        (simp only: redirect_https_def Some \<open>make_safe_url _ = _\<close> option.case)
  qed
qed

lemma request_bytes_default_reply [simp]:
  "request_bytes (default_reply cfg s conn code name reason) = request_bytes conn"
  by (simp add: request_bytes_def)

text \<open>Every error page is a well-formed message: a status line, header lines and a blank
  line, with a Content-Length that is the length of the page, and the lengths the sending code
  uses are those of the texts.\<close>

theorem default_reply_well_formed:
  assumes "config_ok cfg" "clean errname" "length (default_page cfg s errcode errname reason) < 2 ^ 64"
  shows "generated (default_reply cfg s conn errcode errname reason) (dec_int errcode @ '' '' @ errname)"
  by (rule default_reply_generated [OF assms])

lemma hdr_block_sample: "config_ok sample_config"
proof -
  have "clean (''Server: darkhttpd'')" "clean (''Keep-Alive: timeout=30'')" by simp_all
  from hdr_block_line1 [OF this(1)] hdr_block_line1 [OF this(2)] show ?thesis
    by (simp add: config_ok_def sample_config_def hdr_block_Nil)
qed

lemma length_generated_on: "length (generated_on cfg d) \<le> 80"
  by (auto simp: generated_on_def snprintf_def pkgname_def DATE_LEN_def min_def)

lemma length_default_page:
  "length (default_page cfg s code name reason) \<le> 300 + length (dec_int code) + 2 * length name + length reason"
  using length_generated_on [of cfg "rfc1123_date (now s)"] by (simp add: default_page_def)

theorem default_reply_well_formed_witness:
  "generated (default_reply sample_config sample_server sample_connection 404 ''Not Found'' ''gone'')
     (dec_int 404 @ '' '' @ ''Not Found'')"
proof -
  have "length (dec_int 404) = 3" by code_simp
  then have "length (default_page sample_config sample_server 404 ''Not Found'' ''gone'') < 2 ^ 64"
    using length_default_page [of sample_config sample_server 404 "''Not Found''" "''gone''"] by simp
  with default_reply_well_formed [OF hdr_block_sample, of "''Not Found''"] show ?thesis by simp
qed

end
