(* ===== verification/DirList.thy ===== *)
theory DirList
  imports Reply Apbuf
begin

text \<open>
  Directory listings: reading a directory, sorting it, and the page that is built in an append
  buffer.  The page is proved equal to a plain concatenation of its parts, and the order to be
  that of the names' bytes.
\<close>

section \<open>Reading a directory\<close>

definition MAXNAMLEN :: nat where "MAXNAMLEN = 255"

definition file_exists :: "os \<Rightarrow> string \<Rightarrow> server \<Rightarrow> bool \<times> server" where
  "file_exists os path s =
     (case os_stat os path of
        Inl e \<Rightarrow> (e \<noteq> ENOENT, emit (Stat path) s)
      | Inr st \<Rightarrow> (True, emit (Stat path) s))"

record dlent =
  dl_name :: string
  dl_is_dir :: bool
  dl_size :: int
  dl_mtime :: int

definition dlent_cmp :: "dlent \<Rightarrow> dlent \<Rightarrow> int" where
  "dlent_cmp a b = strcmp (dl_name a) (dl_name b)"

fun read_entries :: "config \<Rightarrow> os \<Rightarrow> string \<Rightarrow> string list \<Rightarrow> dlent list \<Rightarrow> server \<Rightarrow> dlent list \<times> server" where
  "read_entries cfg os path [] list s = (list, s)"
| "read_entries cfg os path (d_name # ents) list s =
     (if strcmp d_name ''.'' = 0 \<or> strcmp d_name ''..'' = 0 then read_entries cfg os path ents list s
      else if want_hide_dotfiles cfg \<and> c_at d_name 0 = CHR ''.'' then read_entries cfg os path ents list s
      else if length d_name > MAXNAMLEN then read_entries cfg os path ents list s
      else
        (let currname = path @ d_name; s = emit (Stat currname) s in
         case os_stat os currname of
           Inl e \<Rightarrow> read_entries cfg os path ents list s
         | Inr st \<Rightarrow> read_entries cfg os path ents
             (list @ [\<lparr>dl_name = d_name, dl_is_dir = (st_mode st = S_IFDIR),
                        dl_size = st_size st, dl_mtime = st_mtime st\<rparr>]) s))"

definition make_sorted_dirlist ::
    "config \<Rightarrow> os \<Rightarrow> string \<Rightarrow> server \<Rightarrow> (errno + dlent list) \<times> server" where
  "make_sorted_dirlist cfg os path s =
     (let s = emit (Opendir path) s in
      case os_opendir os path of
        Inl e \<Rightarrow> (Inl e, s)
      | Inr ents \<Rightarrow>
          (let (list, s) = read_entries cfg os path ents [] s in (Inr (qsort dlent_cmp list), s)))"

section \<open>Sizes\<close>

text \<open>\<^verbatim>\<open>(double)size\<close>: the nearest number of 53 significant bits, ties to even.\<close>

definition div_half_even :: "nat \<Rightarrow> nat \<Rightarrow> nat" where
  "div_half_even a b =
     (let q = a div b; r = a mod b in
      if 2 * r < b then q else if b < 2 * r then q + 1 else if even q then q else q + 1)"

function bit_length :: "nat \<Rightarrow> nat" where
  "bit_length n = (if n = 0 then 0 else bit_length (n div 2) + 1)"
  by pat_completeness auto
termination
  by (relation "measure id") auto

declare bit_length.simps [simp del]

definition to_double :: "nat \<Rightarrow> nat" where
  "to_double n = (let sh = bit_length n - 53 in div_half_even n (2 ^ sh) * 2 ^ sh)"

text \<open>The loop of divisions by 1024, which are exact; the value is \<open>val / 1024 ^ i\<close>.\<close>

function scale :: "nat \<Rightarrow> nat \<Rightarrow> nat" where
  "scale val i = (if 1024 ^ (i + 1) \<le> val \<and> i < 6 then scale val (i + 1) else i)"
  by pat_completeness auto
termination
  by (relation "measure (\<lambda>(v, i). 6 - i)") auto

declare scale.simps [simp del]

definition suffix_char :: "nat \<Rightarrow> char" where
  "suffix_char i = '' KMGTPE'' ! i"

definition humanize_size :: "int \<Rightarrow> string" where
  "humanize_size sz =
     (let val = to_double (nat sz); i = scale val 0 in
      if i = 0 then pad_left 10 (dec (llu sz))
      else
        (let tenths = div_half_even (10 * val) (1024 ^ i) in
         pad_left 9 (dec (tenths div 10) @ ''.'' @ dec (tenths mod 10)) @ [suffix_char i]))"

section \<open>The page\<close>

definition max_name :: "dlent list \<Rightarrow> nat" where
  "max_name list = foldl (\<lambda>maxlen e.
     let tmp = length (dl_name e) + (if dl_is_dir e then 1 else 0) in
     if maxlen < tmp then tmp else maxlen) 0 list"

definition mtime_buf :: "os \<Rightarrow> int \<Rightarrow> string" where
  "mtime_buf os mtime =
     (case mtime_text (os_localtime os) mtime of
        Some t \<Rightarrow> t | None \<Rightarrow> cstr (take DIR_LIST_MTIME_SIZE (os_undef os)))"

definition append_entry :: "config \<Rightarrow> os \<Rightarrow> nat \<Rightarrow> apbuf \<Rightarrow> dlent \<Rightarrow> apbuf" where
  "append_entry cfg os maxlen listing e =
     (let spaces = replicate maxlen (CHR '' '');
          safe_url = urlencode (dl_name e);
          listing = append_str listing (''<a href='' @ [DQUOTE]);
          listing = append_str listing safe_url;
          listing = (if dl_is_dir e then append_str listing ''/'' else listing);
          listing = append_str listing (DQUOTE # ''>'');
          listing = append_escaped listing (dl_name e);
          listing = append_str listing ''</a>'';
          buf = mtime_buf os (dl_mtime e) in
      if dl_is_dir e then
        (let listing = append_str listing ''/'';
             listing = appendl listing spaces (maxlen - length (dl_name e));
             listing = append_str listing buf
         in append_str listing [LF])
      else
        (let listing = appendl listing spaces (maxlen - length (dl_name e));
             listing = append_str listing '' '';
             listing = append_str listing buf
         in if humanize_sizes cfg
            then append_str listing ('' '' @ humanize_size (dl_size e) @ [LF])
            else append_str listing ('' '' @ pad_left 10 (dec (llu (dl_size e))) @ [LF])))"

definition listing_page ::
    "config \<Rightarrow> os \<Rightarrow> string \<Rightarrow> string \<Rightarrow> dlent list \<Rightarrow> string \<Rightarrow> apbuf" where
  "listing_page cfg os path decoded_url list date =
     (let maxlen = max_name list;
          listing = make_apbuf;
          listing = append_str listing
            (''<!DOCTYPE html>'' @ [LF] @ ''<html>'' @ [LF] @ ''<head>'' @ [LF] @ ''<title>'');
          listing = append_escaped listing decoded_url;
          listing = append_str listing
            (''</title>'' @ [LF] @
             ''<meta name='' @ [DQUOTE] @ ''viewport'' @ [DQUOTE] @ '' content='' @ [DQUOTE] @
             ''width=device-width, initial-scale=1'' @ [DQUOTE] @ ''>'' @ [LF] @
             ''</head>'' @ [LF] @ ''<body>'' @ [LF] @ ''<h1>'');
          listing = append_escaped listing decoded_url;
          listing = append_str listing (''</h1>'' @ [LF] @ ''<pre>'' @ [LF]);
          listing = (if strncmp path (wwwroot cfg) (length path - 1) \<noteq> 0
            then append_str listing (''<a href='' @ [DQUOTE] @ ''../'' @ [DQUOTE] @ ''>..</a>/'' @ [LF])
            else listing);
          listing = foldl (append_entry cfg os maxlen) listing list;
          listing = append_str listing (''</pre>'' @ [LF] @ ''<hr>'' @ [LF]);
          listing = append_str listing (generated_on cfg date)
      in append_str listing (''</body>'' @ [LF] @ ''</html>'' @ [LF]))"

definition generate_dir_listing ::
    "config \<Rightarrow> os \<Rightarrow> connection \<Rightarrow> string \<Rightarrow> string \<Rightarrow> server \<Rightarrow> connection \<times> server" where
  "generate_dir_listing cfg os conn path decoded_url s =
     (let (r, s) = make_sorted_dirlist cfg os path s in
      case r of
        Inl e \<Rightarrow>
          (if e = EACCES then
             (default_reply cfg s conn 403 ''Forbidden''
                (''You don'' @ [QUOTE] @ ''t have permission to access this URL.''), s)
           else if e = ENOENT then
             (default_reply cfg s conn 404 ''Not Found'' ''The URL you requested was not found.'', s)
           else
             (default_reply cfg s conn 500 ''Internal Server Error''
                (''Couldn'' @ [QUOTE] @ ''t list directory: '' @ os_strerror os e), s))
      | Inr list \<Rightarrow>
          (let date = rfc1123_date (now s);
               listing = listing_page cfg os path decoded_url list date;
               conn = conn\<lparr>c_reply := Some (ap_contents listing),
                           c_reply_length := int (ap_length listing)\<rparr>;
               header = header_start cfg s conn ''200 OK'' @
                 ''Content-Length: '' @ dec (llu (c_reply_length conn)) @ CRLF @
                 ''Content-Type: text/html; charset=UTF-8'' @ CRLF @ CRLF
           in (conn\<lparr>c_header := Some header, c_header_length := length header,
                    c_reply_type := Some REPLY_GENERATED, c_http_code := 200\<rparr>, s)))"

section \<open>The order of the entries\<close>

interpretation dl: comparison dlent_cmp
proof
  fix x y z
  show "dlent_cmp y x = - dlent_cmp x y" unfolding dlent_cmp_def by (rule strcmp_sym)
  assume "dlent_cmp x y \<le> 0" "dlent_cmp y z \<le> 0"
  then show "dlent_cmp x z \<le> 0" by (simp add: dlent_cmp_def strcmp_le)
qed

text \<open>The entry a listing shows for a name, if it shows one.\<close>

definition listed :: "config \<Rightarrow> os \<Rightarrow> string \<Rightarrow> string \<Rightarrow> dlent option" where
  "listed cfg os path n =
     (if n = ''.'' \<or> n = ''..'' \<or> (want_hide_dotfiles cfg \<and> n \<noteq> [] \<and> hd n = CHR ''.'') \<or>
         length n > MAXNAMLEN then None
      else case os_stat os (path @ n) of Inl _ \<Rightarrow> None
        | Inr st \<Rightarrow> Some \<lparr>dl_name = n, dl_is_dir = (st_mode st = S_IFDIR), dl_size = st_size st,
                          dl_mtime = st_mtime st\<rparr>)"

lemma c_at_0_dot: "c_at n 0 = CHR ''.'' \<longleftrightarrow> n \<noteq> [] \<and> hd n = CHR ''.''"
  by (cases n) (simp_all add: c_at_def)

lemma read_entries_eq:
  "fst (read_entries cfg os path ents list s) = list @ List.map_filter (listed cfg os path) ents"
  by (induction ents arbitrary: list s)
    (simp_all add: listed_def List.map_filter_simps c_at_0_dot Let_def split: sum.splits)

lemma listed_name: "listed cfg os path n = Some e \<Longrightarrow> dl_name e = n"
  by (auto simp: listed_def split: if_splits sum.splits)

definition sorted_entries :: "config \<Rightarrow> os \<Rightarrow> string \<Rightarrow> string list \<Rightarrow> dlent list" where
  "sorted_entries cfg os path ents = qsort dlent_cmp (List.map_filter (listed cfg os path) ents)"

lemma now_emit [simp]: "now (emit e s) = now s"
  by (simp add: emit_def)

lemma read_entries_now: "now (snd (read_entries cfg os path ents list s)) = now s"
  by (induction ents arbitrary: list s) (simp_all add: Let_def split: sum.splits)

lemma make_sorted_dirlist_eq:
  assumes "os_opendir os path = Inr ents"
  shows "\<exists>s'. make_sorted_dirlist cfg os path s = (Inr (sorted_entries cfg os path ents), s') \<and> now s' = now s"
proof (cases "read_entries cfg os path ents [] (emit (Opendir path) s)")
  case (Pair l s')
  with read_entries_eq [of cfg os path ents "[]" "emit (Opendir path) s"]
    read_entries_now [of cfg os path ents "[]" "emit (Opendir path) s"]
  have "l = List.map_filter (listed cfg os path) ents" "now s' = now s" by simp_all
  with Pair assms show ?thesis by (simp add: make_sorted_dirlist_def sorted_entries_def Let_def)
qed

text \<open>C25. A listing shows exactly the directory's entries other than \<^verbatim>\<open>.\<close> and \<^verbatim>\<open>..\<close>, without the
  hidden ones, the overlong ones and those that cannot be examined; each once, with its type,
  size and time, in the order of the names' bytes.  No other list has this content and order, so
  the listing does not depend on the sorting algorithm.\<close>

theorem make_sorted_dirlist_entries:
  assumes "os_opendir os path = Inr ents"
  shows "\<exists>list s'. make_sorted_dirlist cfg os path s = (Inr list, s') \<and>
    mset list = mset (List.map_filter (listed cfg os path) ents) \<and>
    sorted_wrt (\<lambda>a b. dl_name a \<le> dl_name b) list \<and>
    (\<forall>list'. mset list' = mset list \<longrightarrow>
       sorted_wrt (\<lambda>a b. dl_name a \<le> dl_name b) list' \<longrightarrow> list' = list)"
proof -
  let ?es = "List.map_filter (listed cfg os path) ents"
  have cmp: "dlent_cmp a b \<le> 0 \<longleftrightarrow> dl_name a \<le> dl_name b" for a b by (simp add: dlent_cmp_def strcmp_le)
  have m: "\<exists>s'. make_sorted_dirlist cfg os path s = (Inr (qsort dlent_cmp ?es), s')"
    using make_sorted_dirlist_eq [OF assms] unfolding sorted_entries_def by blast
  have uniq: "list' = qsort dlent_cmp ?es"
    if "mset list' = mset ?es" "sorted_wrt (\<lambda>a b. dl_name a \<le> dl_name b) list'" for list'
  proof -
    have same: "x = y" if "x \<in> set ?es" "y \<in> set ?es" "dlent_cmp x y = 0" for x y
    proof -
      from that have "dl_name x = dl_name y" by (simp add: dlent_cmp_def)
      moreover from that obtain n n' where "listed cfg os path n = Some x" "listed cfg os path n' = Some y"
        by (auto simp: List.map_filter_def)
      ultimately show ?thesis using listed_name by (metis option.inject)
    qed
    have "sorted_wrt (\<lambda>a b. dlent_cmp a b \<le> 0) list'" using that(2) by (simp only: cmp)
    from dl.qsort_unique [OF same this that(1)] show ?thesis by (rule sym)
  qed
  from m show ?thesis using dl.sorted [of ?es] uniq by (auto simp: cmp)
qed

theorem make_sorted_dirlist_entries_witness:
  "\<exists>list s'. make_sorted_dirlist sample_config sample_os ''/w/d/'' sample_server = (Inr list, s') \<and>
     map dl_name list = [''f'']"
proof -
  have o: "os_opendir sample_os ''/w/d/'' = Inr [''f'', ''.'', ''..'']" by (simp add: sample_os_def)
  have "List.map_filter (listed sample_config sample_os ''/w/d/'') [''f'', ''.'', ''..'']
      = [\<lparr>dl_name = ''f'', dl_is_dir = False, dl_size = 5, dl_mtime = 86400\<rparr>]"
    by (simp add: List.map_filter_simps listed_def sample_os_def sample_config_def MAXNAMLEN_def)
  with make_sorted_dirlist_entries [OF o, of sample_config sample_server] show ?thesis
    by auto
qed

section \<open>The text of the page\<close>

text \<open>The page as one text.\<close>

definition entry_text :: "config \<Rightarrow> os \<Rightarrow> nat \<Rightarrow> dlent \<Rightarrow> string" where
  "entry_text cfg os maxlen e =
     ''<a href='' @ [DQUOTE] @ urlencode (dl_name e) @ (if dl_is_dir e then ''/'' else []) @
     [DQUOTE] @ ''>'' @ html_escape (dl_name e) @ ''</a>'' @ (if dl_is_dir e then ''/'' else []) @
     replicate (maxlen - length (dl_name e)) (CHR '' '') @
     (if dl_is_dir e then [] else '' '') @ mtime_buf os (dl_mtime e) @
     (if dl_is_dir e then []
      else '' '' @ (if humanize_sizes cfg then humanize_size (dl_size e)
                    else pad_left 10 (dec (llu (dl_size e))))) @ [LF]"

definition page_text :: "config \<Rightarrow> os \<Rightarrow> string \<Rightarrow> dlent list \<Rightarrow> string \<Rightarrow> bool \<Rightarrow> string" where
  "page_text cfg os decoded_url list date up =
     ''<!DOCTYPE html>'' @ [LF] @ ''<html>'' @ [LF] @ ''<head>'' @ [LF] @ ''<title>'' @
     html_escape decoded_url @ ''</title>'' @ [LF] @
     ''<meta name='' @ [DQUOTE] @ ''viewport'' @ [DQUOTE] @ '' content='' @ [DQUOTE] @
     ''width=device-width, initial-scale=1'' @ [DQUOTE] @ ''>'' @ [LF] @
     ''</head>'' @ [LF] @ ''<body>'' @ [LF] @ ''<h1>'' @ html_escape decoded_url @
     ''</h1>'' @ [LF] @ ''<pre>'' @ [LF] @
     (if up then ''<a href='' @ [DQUOTE] @ ''../'' @ [DQUOTE] @ ''>..</a>/'' @ [LF] else []) @
     concat (map (entry_text cfg os (max_name list)) list) @
     ''</pre>'' @ [LF] @ ''<hr>'' @ [LF] @ generated_on cfg date @
     ''</body>'' @ [LF] @ ''</html>'' @ [LF]"

lemmas buf_simps = ap.put_inv ap.put_contents appendl_correct append_escaped_foldl

lemma append_entry_text:
  assumes "ap_inv b"
  shows "ap_inv (append_entry cfg os maxlen b e) \<and>
    ap_contents (append_entry cfg os maxlen b e) = ap_contents b @ entry_text cfg os maxlen e"
  using assms by (cases "dl_is_dir e"; cases "humanize_sizes cfg")
    (simp_all add: append_entry_def entry_text_def Let_def buf_simps)

lemma append_entries_text:
  "ap_inv b \<Longrightarrow> ap_inv (foldl (append_entry cfg os maxlen) b es) \<and>
   ap_contents (foldl (append_entry cfg os maxlen) b es) = ap_contents b @ concat (map (entry_text cfg os maxlen) es)"
  by (induction es arbitrary: b) (simp_all add: append_entry_text)

lemma listing_page_text:
  "ap_inv (listing_page cfg os path url list date) \<and>
   ap_contents (listing_page cfg os path url list date) =
     page_text cfg os url list date (strncmp path (wwwroot cfg) (length path - 1) \<noteq> 0)"
  by (cases "strncmp path (wwwroot cfg) (length path - 1) = 0")
    (simp_all only: listing_page_def page_text_def Let_def buf_simps append_entries_text
      ap_inv_make ap_contents_make if_True if_False append_assoc append_Nil simp_thms)

lemma ap_length_contents: "ap_inv b \<Longrightarrow> ap_length b = length (ap_contents b)"
  by (simp add: ap_inv_def ap_contents_def)

text \<open>The link to the parent directory is there except in the root of the site.\<close>

lemma parent_link_iff:
  assumes "p \<noteq> []" "hd p = CHR ''/''"
  shows "strncmp (root @ p) root (length (root @ p) - 1) \<noteq> 0 \<longleftrightarrow> p \<noteq> ''/''"
proof (cases "tl p")
  case Nil
  with assms have "p = ''/''" by (cases p) auto
  then show ?thesis by simp
next
  case (Cons c q)
  with assms have "p = CHR ''/'' # c # q" by (cases p) auto
  then show ?thesis by auto
qed

text \<open>The reply of a listing.\<close>

lemma generate_dir_listing_ok:
  fixes cfg :: config and os :: os and path url
  defines "page list s \<equiv> page_text cfg os url list (rfc1123_date (now s)) (strncmp path (wwwroot cfg) (length path - 1) \<noteq> 0)"
  assumes "make_sorted_dirlist cfg os path s = (Inr list, s')"
    "config_ok cfg" "length (page list s') < 2 ^ 64"
  shows "\<exists>conn'. generate_dir_listing cfg os conn path url s = (conn', s') \<and>
    generated conn' ''200 OK'' \<and> c_reply conn' = Some (page list s') \<and> c_http_code conn' = 200"
proof -
  let ?p = "page list s'"
  let ?l = "listing_page cfg os path url list (rfc1123_date (now s'))"
  have l: "ap_contents ?l = ?p" "ap_length ?l = length ?p"
    using listing_page_text [of cfg os path url list "rfc1123_date (now s')"]
    by (simp_all only: page_def ap_length_contents)
  let ?c = "conn\<lparr>c_reply := Some ?p, c_reply_length := int (length ?p)\<rparr>"
  let ?h = "header_start cfg s' ?c ''200 OK'' @ (''Content-Length: '' @ dec (length ?p)) @ CRLF @
    (''Content-Type: text/html; charset=UTF-8'' @ CRLF) @ CRLF"
  have h: "header_has ?h (''Content-Length: '' @ dec (length ?p))"
    using assms(3) by (intro header_start_has hdr_block_line1) simp_all
  have p: "prefix (''HTTP/1.1 '' @ ''200 OK'' @ CRLF) ?h" by (simp add: header_start_def)
  obtain conn' where g: "generate_dir_listing cfg os conn path url s = (conn', s')"
    and c: "c_header conn' = Some ?h" "c_header_length conn' = length ?h" "c_reply conn' = Some ?p"
      "c_reply_length conn' = int (length ?p)" "c_reply_type conn' = Some REPLY_GENERATED" "c_http_code conn' = 200"
    by (simp add: generate_dir_listing_def assms(2) l llu_of_nat [OF assms(4)] Let_def)
  from generatedI [OF c(1-5) p h] g c show ?thesis by blast
qed

text \<open>C26. The page built in the append buffer is the concatenation of its parts, with the URL and
  the names escaped and each link the encoded name of its entry; it is sent with its own length.
  It links to the parent directory unless the URL is the root of the site.\<close>

theorem generate_dir_listing_page:
  assumes "os_opendir os (wwwroot cfg @ url) = Inr ents" "make_safe_url u = Some url" "nul_free_str u"
    "config_ok cfg"
    "length (page_text cfg os url (sorted_entries cfg os (wwwroot cfg @ url) ents)
       (rfc1123_date (now s)) (url \<noteq> ''/'')) < 2 ^ 64"
  shows "\<exists>conn' s'. generate_dir_listing cfg os conn (wwwroot cfg @ url) url s = (conn', s') \<and>
    generated conn' ''200 OK'' \<and>
    c_reply conn' = Some (page_text cfg os url (sorted_entries cfg os (wwwroot cfg @ url) ents)
      (rfc1123_date (now s)) (url \<noteq> ''/''))"
proof -
  have "safe_form url" using assms(2,3) by (auto simp: make_safe_url_safe_path dest: safe_path_form)
  then have up: "strncmp (wwwroot cfg @ url) (wwwroot cfg) (length (wwwroot cfg @ url) - 1) \<noteq> 0 \<longleftrightarrow> url \<noteq> ''/''"
    using safe_form_hd by (intro parent_link_iff) blast+
  obtain s' where m: "make_sorted_dirlist cfg os (wwwroot cfg @ url) s
      = (Inr (sorted_entries cfg os (wwwroot cfg @ url) ents), s')" "now s' = now s"
    using make_sorted_dirlist_eq [OF assms(1)] by blast
  from generate_dir_listing_ok [OF m(1) assms(4), of url conn] assms(5) show ?thesis
    unfolding up m(2) by blast
qed

theorem generate_dir_listing_page_witness:
  "\<exists>conn' s' page. generate_dir_listing sample_config sample_os sample_connection ''/w/d/'' ''/d/'' sample_server
       = (conn', s') \<and> c_reply conn' = Some page \<and> generated conn' ''200 OK''"
proof -
  let ?e = "\<lparr>dl_name = ''f'', dl_is_dir = False, dl_size = 5, dl_mtime = 86400\<rparr>"
  have w: "wwwroot sample_config @ ''/d/'' = ''/w/d/''" by (simp add: sample_config_def)
  have o: "os_opendir sample_os (wwwroot sample_config @ ''/d/'') = Inr [''f'', ''.'', ''..'']"
    by (simp add: sample_os_def w)
  have m: "make_safe_url ''/d/'' = Some ''/d/''" by (subst make_safe_url_safe_path) (simp, code_simp)
  have nf: "nul_free_str ''/d/''" by simp
  have es: "sorted_entries sample_config sample_os (wwwroot sample_config @ ''/d/'') [''f'', ''.'', ''..''] = [?e]"
    by (simp add: sorted_entries_def List.map_filter_simps listed_def sample_os_def sample_config_def MAXNAMLEN_def)
  have ent: "length (entry_text sample_config sample_os (max_name [?e]) ?e) < 1000"
  proof -
    have "mtime_buf sample_os 86400 = ''1970-01-02 00:00''" by code_simp
    moreover have "urlencode ''f'' = ''f''" "html_escape ''f'' = ''f''" "length (dec (llu 5)) = 1" by code_simp+
    ultimately show ?thesis
      by (simp add: entry_text_def max_name_def sample_config_def pad_left_def)
  qed
  have "html_escape ''/d/'' = ''/d/''" by code_simp
  then have "length (page_text sample_config sample_os ''/d/'' [?e] (rfc1123_date (now sample_server)) (''/d/'' \<noteq> ''/'')) < 2 ^ 64"
    using ent length_generated_on [of sample_config "rfc1123_date (now sample_server)"]
    by (simp add: page_text_def)
  from generate_dir_listing_page [OF o m nf hdr_block_sample, of sample_server sample_connection, unfolded es, OF this]
  show ?thesis unfolding w by blast
qed

section \<open>Human-readable sizes\<close>

lemma div_half_even_near:
  assumes "0 < b"
  shows "2 * (a - div_half_even a b * b) \<le> b" "2 * (div_half_even a b * b - a) \<le> b"
proof -
  let ?q = "a div b" and ?r = "a mod b"
  have a: "a = ?q * b + ?r" by simp
  have r: "?r < b" using assms by simp
  have "div_half_even a b = ?q \<and> 2 * ?r \<le> b \<or> div_half_even a b = ?q + 1 \<and> b \<le> 2 * ?r"
    unfolding div_half_even_def Let_def by (simp split: if_split)
  then obtain d where d: "div_half_even a b = ?q + d" "d = 0 \<and> 2 * ?r \<le> b \<or> d = 1 \<and> b \<le> 2 * ?r"
    by (metis add_0_right)
  from d(2) show "2 * (a - div_half_even a b * b) \<le> b"
  proof
    assume "d = 0 \<and> 2 * ?r \<le> b"
    then show ?thesis using d(1) by (simp add: minus_div_mult_eq_mod)
  next
    assume "d = 1 \<and> b \<le> 2 * ?r"
    then have "div_half_even a b * b = ?q * b + b" using d(1) by (simp add: algebra_simps)
    then have "a - div_half_even a b * b = 0" using a r by linarith
    then show ?thesis by simp
  qed
  from d(2) show "2 * (div_half_even a b * b - a) \<le> b"
  proof
    assume "d = 0 \<and> 2 * ?r \<le> b"
    then have "div_half_even a b * b - a = 0" using d(1) by simp
    then show ?thesis by simp
  next
    assume d1: "d = 1 \<and> b \<le> 2 * ?r"
    then have "div_half_even a b * b = ?q * b + b" using d(1) by (simp add: algebra_simps)
    with a r d1 show ?thesis by linarith
  qed
qed

lemma div_half_even_le: "0 < b \<Longrightarrow> a \<le> k * b \<Longrightarrow> div_half_even a b \<le> k"
proof -
  assume b: "0 < b" and a: "a \<le> k * b"
  have q: "a div b \<le> k" using a b by (metis div_le_mono nonzero_mult_div_cancel_right neq0_conv)
  show "div_half_even a b \<le> k"
  proof (cases "a div b = k")
    case True
    then have "k * b + a mod b = a" by (metis div_mult_mod_eq)
    then have "a mod b = 0" using a by linarith
    then show ?thesis using q by (simp add: div_half_even_def Let_def b)
  next
    case False
    with q show ?thesis by (auto simp: div_half_even_def Let_def)
  qed
qed

lemma bit_length_le: "n < 2 ^ k \<Longrightarrow> bit_length n \<le> k"
proof (induction k arbitrary: n)
  case 0
  then show ?case by (simp add: bit_length.simps)
next
  case (Suc k)
  then have "n div 2 < 2 ^ k" by simp
  from Suc.IH [OF this] show ?case by (simp add: bit_length.simps [of n])
qed

lemma to_double_exact: "n < 2 ^ 53 \<Longrightarrow> to_double n = n"
  using bit_length_le [of n 53] by (simp add: to_double_def div_half_even_def)

lemma to_double_le: "n < 2 ^ 63 \<Longrightarrow> to_double n \<le> 2 ^ 63"
proof -
  assume n: "n < 2 ^ 63"
  define sh where "sh = bit_length n - 53"
  have sh: "sh \<le> 10" using bit_length_le [OF n] by (simp add: sh_def)
  have p: "(2::nat) ^ (63 - sh) * 2 ^ sh = 2 ^ 63" using sh by (simp add: power_add [symmetric])
  then have "div_half_even n (2 ^ sh) \<le> 2 ^ (63 - sh)" using n by (intro div_half_even_le) simp_all
  then have "div_half_even n (2 ^ sh) * 2 ^ sh \<le> 2 ^ (63 - sh) * 2 ^ sh" by (rule mult_le_mono1)
  then show ?thesis by (simp only: to_double_def Let_def sh_def [symmetric] p)
qed

lemma scale_bounds:
  "i \<le> 6 \<Longrightarrow> 0 < i \<longrightarrow> 1024 ^ i \<le> val \<Longrightarrow>
   scale val i \<le> 6 \<and> (0 < scale val i \<longrightarrow> 1024 ^ scale val i \<le> val) \<and>
   (scale val i < 6 \<longrightarrow> val < 1024 ^ (scale val i + 1))"
proof (induction val i rule: scale.induct)
  case (1 val i)
  show ?case
  proof (cases "1024 ^ (i + 1) \<le> val \<and> i < 6")
    case True
    with "1.IH" show ?thesis by (simp add: scale.simps [of val i])
  next
    case False
    with "1.prems" show ?thesis by (auto simp: scale.simps [of val i])
  qed
qed

lemma length_pad_left: "length s \<le> w \<Longrightarrow> length (pad_left w s) = w"
  by (simp add: pad_left_def)

text \<open>C27. A size is shown in exactly ten columns, as the plain byte count is, whatever the size.
  Below 1024 it is the number itself; from there to \<open>2 ^ 53\<close> it is the number of tenths of the
  unit of the suffix that is nearest to the size.  From \<open>2 ^ 53\<close> on it is the nearest but for the
  rounding of the size to a \<^verbatim>\<open>double\<close>, which is by at most 512 bytes.\<close>

definition rounding :: "int \<Rightarrow> int" where
  "rounding sz = (if sz < 2 ^ 53 then 0 else 512)"

theorem humanize_size_accurate:
  assumes "0 \<le> sz" "sz < 2 ^ 63"
  shows "length (humanize_size sz) = 10 \<and>
    (sz < 1024 \<longrightarrow> humanize_size sz = pad_left 10 (dec (nat sz))) \<and>
    (1024 \<le> sz \<longrightarrow> (\<exists>i tenths. 0 < i \<and> i \<le> 6 \<and> 1024 ^ i \<le> sz + rounding sz \<and>
       humanize_size sz = pad_left 9 (dec (tenths div 10) @ ''.'' @ dec (tenths mod 10)) @ ['' KMGTPE'' ! i] \<and>
       2 * \<bar>10 * sz - int tenths * 1024 ^ i\<bar> \<le> 1024 ^ i + 20 * rounding sz))"
proof -
  define n where "n = nat sz"
  define v where "v = to_double n"
  define i where "i = scale v 0"
  define t where "t = div_half_even (10 * v) (1024 ^ i)"
  have n: "sz = int n" "n < 2 ^ 63" using assms by (auto simp: n_def)
  have i: "i \<le> 6" "0 < i \<longrightarrow> 1024 ^ i \<le> v" "i < 6 \<longrightarrow> v < 1024 ^ (i + 1)"
    using scale_bounds [of 0 v] by (simp_all add: i_def)
  have v: "v \<le> 2 ^ 63" using to_double_le [OF n(2)] by (simp add: v_def)
  have exact: "n < 2 ^ 53 \<Longrightarrow> v = n" by (simp add: v_def to_double_exact)
  have p10: "(2::nat) ^ 10 = 1024" by simp
  have "(2::nat) ^ (bit_length n - 53) \<le> 2 ^ 10" using bit_length_le [OF n(2)] by (intro power_increasing) simp_all
  moreover have "2 * (n - v) \<le> 2 ^ (bit_length n - 53)" "2 * (v - n) \<le> 2 ^ (bit_length n - 53)"
    unfolding v_def to_double_def Let_def by (rule div_half_even_near, simp)+
  ultimately have round: "2 * (n - v) \<le> 1024" "2 * (v - n) \<le> 1024" using p10 by linarith+
  then have vn: "\<bar>sz - int v\<bar> \<le> rounding sz"
    using n(1) exact by (cases "n < 2 ^ 53") (auto simp: rounding_def)
  have small: "v = n" if "i = 0"
  proof (cases "n < 2 ^ 53")
    case False
    then have "(1024::nat) \<le> v" using round(1) by simp
    with i(3) that show ?thesis by simp
  qed (simp add: exact)
  have llu: "llu sz = n" using n by (simp add: llu_id)
  have h0: "humanize_size sz = pad_left 10 (dec n)" if "i = 0"
    using that by (simp add: humanize_size_def n_def [symmetric] v_def [symmetric] i_def [symmetric] Let_def llu)
  have h1: "humanize_size sz = pad_left 9 (dec (t div 10) @ ''.'' @ dec (t mod 10)) @ ['' KMGTPE'' ! i]" if "0 < i"
    using that by (simp add: humanize_size_def n_def [symmetric] v_def [symmetric] i_def [symmetric]
        t_def [symmetric] Let_def suffix_char_def)
  have "t \<le> 10240"
  proof -
    have "v \<le> 1024 * 1024 ^ i"
    proof (cases "i < 6")
      case True with i(3) show ?thesis by simp
    next
      case False
      then have "i = 6" using i(1) by simp
      then show ?thesis using v by simp
    qed
    then show ?thesis unfolding t_def by (intro div_half_even_le) simp_all
  qed
  then have "length (dec (t div 10)) \<le> 4" "length (dec (t mod 10)) \<le> 1"
    by (auto intro!: length_dec)
  then have len1: "length (humanize_size sz) = 10" if "0 < i" using h1 [OF that] by (simp add: length_pad_left)
  have len0: "length (humanize_size sz) = 10" if "i = 0"
  proof -
    have "n < 10 ^ 4" using small [OF that] i(3) that by simp
    then have "length (dec n) \<le> 4" by (rule length_dec) simp
    then show ?thesis using h0 [OF that] by (simp add: length_pad_left)
  qed
  have lt: "i = 0" if "sz < 1024"
  proof (rule ccontr)
    assume "i \<noteq> 0"
    then have "1024 ^ 1 \<le> (1024::nat) ^ i" by (intro power_increasing) simp_all
    with i(2) \<open>i \<noteq> 0\<close> exact n that show False by simp
  qed
  have mid: "\<exists>i tenths. 0 < i \<and> i \<le> 6 \<and> 1024 ^ i \<le> sz + rounding sz \<and>
       humanize_size sz = pad_left 9 (dec (tenths div 10) @ ''.'' @ dec (tenths mod 10)) @ ['' KMGTPE'' ! i] \<and>
       2 * \<bar>10 * sz - int tenths * 1024 ^ i\<bar> \<le> 1024 ^ i + 20 * rounding sz" if c: "1024 \<le> sz"
  proof -
    have "1024 \<le> v" using exact round(1) c n(1) by (cases "n < 2 ^ 53") auto
    then have ip: "0 < i" using i(3) by (cases "i = 0") auto
    have near: "2 * (10 * v - t * 1024 ^ i) \<le> 1024 ^ i" "2 * (t * 1024 ^ i - 10 * v) \<le> 1024 ^ i"
      unfolding t_def by (rule div_half_even_near, simp)+
    have abs: "2 * \<bar>int a - int b\<bar> \<le> int k" if "2 * (a - b) \<le> k" "2 * (b - a) \<le> k" for a b k :: nat
    proof (cases "a \<le> b")
      case True
      then obtain d where "b = a + d" using le_Suc_ex by blast
      with that(2) show ?thesis by simp
    next
      case False
      then obtain d where "a = b + d" using le_Suc_ex [of b a] by auto
      with that(1) show ?thesis by simp
    qed
    have "2 * \<bar>10 * int v - int t * 1024 ^ i\<bar> \<le> 1024 ^ i"
      using abs [OF near] by simp
    moreover have shift: "2 * \<bar>10 * a - x\<bar> \<le> k + 20 * r" if "2 * \<bar>10 * b - x\<bar> \<le> k" "\<bar>a - b\<bar> \<le> r"
      for a b k r x :: int
      using that by arith
    ultimately have "2 * \<bar>10 * sz - int t * 1024 ^ i\<bar> \<le> 1024 ^ i + 20 * rounding sz" using vn by blast
    moreover have "1024 ^ i \<le> sz + rounding sz"
    proof -
      have "int (1024 ^ i) \<le> int v" using i(2) ip by (simp only: zle_int)
      then have "1024 ^ i \<le> int v" by simp
      with vn show ?thesis by linarith
    qed
    ultimately show ?thesis using ip i(1) h1 [OF ip] by blast
  qed
  show ?thesis
  proof (intro conjI impI)
    show "length (humanize_size sz) = 10" using len0 len1 by (cases "i = 0") blast+
    show "humanize_size sz = pad_left 10 (dec (nat sz))" if "sz < 1024"
      using h0 [OF lt [OF that]] by (simp only: n_def)
    show "\<exists>i tenths. 0 < i \<and> i \<le> 6 \<and> 1024 ^ i \<le> sz + rounding sz \<and>
       humanize_size sz = pad_left 9 (dec (tenths div 10) @ ''.'' @ dec (tenths mod 10)) @ ['' KMGTPE'' ! i] \<and>
       2 * \<bar>10 * sz - int tenths * 1024 ^ i\<bar> \<le> 1024 ^ i + 20 * rounding sz" if "1024 \<le> sz"
      using that by (rule mid)
  qed
qed

theorem humanize_size_accurate_witness:
  "humanize_size 0 = ''         0'' \<and> humanize_size 1536 = ''      1.5K'' \<and> length (humanize_size 1536) = 10"
proof -
  have d: "digit_char 0 = CHR ''0''" "digit_char 1 = CHR ''1''" "digit_char 5 = CHR ''5''"
    by code_simp+
  have r: "replicate 9 (CHR '' '') = ''         ''" "replicate 6 (CHR '' '') = ''      ''" by code_simp+
  have dec: "dec 0 = ''0''" "dec (Suc 0) = ''1''" "dec 5 = ''5''" by code_simp+
  have sc: "scale 0 0 = 0" "scale 1536 0 = 1"
    by (simp_all add: scale.simps [of 0] scale.simps [of 1536 0] scale.simps [of 1536 "Suc 0"])
  have half: "div_half_even 15360 1024 = 15" by (simp add: div_half_even_def)
  have "to_double (nat 0) = 0" "to_double (nat 1536) = 1536" "llu 0 = 0"
    by (simp_all add: to_double_exact llu_def)
  then have "humanize_size 0 = ''         0''" "humanize_size 1536 = ''      1.5K''"
    unfolding humanize_size_def by (simp_all add: sc half dec r Let_def pad_left_def suffix_char_def)
  moreover have "(0::int) \<le> 1536" "(1536::int) < 2 ^ 63" by simp_all
  from humanize_size_accurate [OF this, THEN conjunct1] have "length (humanize_size 1536) = 10" .
  ultimately show ?thesis by blast
qed

end
