(* ===== verification/ProcessGet.thy ===== *)
theory ProcessGet
  imports DirList Auth
begin

text \<open>
  Serving a request: the choice of the file, opening it, conditional and range requests, and
  \<open>process_request\<close>, which parses the request, checks the credentials and dispatches on the
  method.
\<close>

section \<open>Which file\<close>

definition strip_query :: "connection \<Rightarrow> connection" where
  "strip_query conn =
     (case strchr (the (c_url conn)) (CHR ''?'') of
        None \<Rightarrow> conn | Some e \<Rightarrow> conn\<lparr>c_url := Some (take e (the (c_url conn)))\<rparr>)"

fun forward_lookup :: "forward_mapping list \<Rightarrow> string \<Rightarrow> string option" where
  "forward_lookup [] h = None"
| "forward_lookup (m # ms) h =
     (if strcasecmp (host m) h = 0 then Some (target_url m) else forward_lookup ms h)"

definition forward_to :: "config \<Rightarrow> connection \<Rightarrow> string option" where
  "forward_to cfg conn =
     (let mapped = (if forward_map cfg \<noteq> [] then
            (case parse_field conn (LF # ''Host: '') of
               None \<Rightarrow> None | Some h \<Rightarrow> forward_lookup (forward_map cfg) h) else None)
      in if mapped = None then forward_all_url cfg else mapped)"

definition has_dotfile :: "string \<Rightarrow> bool" where
  "has_dotfile decoded_url \<longleftrightarrow>
     list_ex (\<lambda>i. decoded_url ! i = CHR ''/'' \<and> decoded_url ! (i + 1) = CHR ''.'')
       [0..<length decoded_url - 1]"

definition not_found :: "config \<Rightarrow> server \<Rightarrow> connection \<Rightarrow> connection" where
  "not_found cfg s conn = default_reply cfg s conn 404 ''Not Found'' ''The URL you requested was not found.''"

definition forbidden :: "config \<Rightarrow> server \<Rightarrow> connection \<Rightarrow> connection" where
  "forbidden cfg s conn = default_reply cfg s conn 403 ''Forbidden''
     (''You don'' @ [QUOTE] @ ''t have permission to access this URL.'')"

definition content_type :: "config \<Rightarrow> string \<Rightarrow> string" where
  "content_type cfg url = url_content_type (mime cfg) (default_mimetype cfg) url"

text \<open>Either the request is answered already, or the file to send and its type.\<close>

definition choose_target ::
    "config \<Rightarrow> os \<Rightarrow> connection \<Rightarrow> string \<Rightarrow> server \<Rightarrow> (connection + string \<times> string) \<times> server" where
  "choose_target cfg os conn decoded_url s =
     (if want_single_file cfg then
        (Inr (wwwroot cfg, content_type cfg (wwwroot cfg)), s)
      else if decoded_url ! (length decoded_url - 1) = CHR ''/'' then
        (let target = wwwroot cfg @ decoded_url @ index_name cfg;
             (ex, s) = file_exists os target s in
         if \<not> ex then
           (if no_listing cfg then (Inl (not_found cfg s conn), s)
            else
              (let target = wwwroot cfg @ decoded_url;
                   (conn, s) = generate_dir_listing cfg os conn target decoded_url s
               in (Inl conn, s)))
         else (Inr (target, content_type cfg (index_name cfg)), s))
      else (Inr (wwwroot cfg @ decoded_url, content_type cfg decoded_url), s))"

section \<open>Ranges\<close>

text \<open>The first and last byte to send, or the reason why the range cannot be satisfied.\<close>

definition compute_range :: "connection \<Rightarrow> int \<Rightarrow> string + int \<times> int" where
  "compute_range conn sz =
     (let (from, to) =
        (if c_range_begin_given conn \<and> c_range_end_given conn then
           (let from = c_range_begin conn; to = c_range_end conn in
            (from, if to > sz - 1 then sz - 1 else to))
         else if c_range_begin_given conn \<and> \<not> c_range_end_given conn then
           (c_range_begin conn, sz - 1)
         else
           (let to = sz - 1; from = to - c_range_end conn + 1 in
            (if from < 0 then 0 else from, to)))
      in if from \<ge> sz then Inl ''You requested a range outside of the file.''
         else if to < from then Inl ''You requested a backward range.''
         else Inr (from, to))"

section \<open>Sending a file\<close>

definition header_end :: "string \<Rightarrow> string \<Rightarrow> string" where
  "header_end ctype lastmod =
     ''Content-Type: '' @ ctype @ CRLF @ ''Last-Modified: '' @ lastmod @ CRLF @ CRLF"

definition serve_range :: "config \<Rightarrow> server \<Rightarrow> connection \<Rightarrow> int \<Rightarrow> string \<Rightarrow> string \<Rightarrow> connection" where
  "serve_range cfg s conn sz ctype lastmod =
     (case compute_range conn sz of
        Inl reason \<Rightarrow> default_reply cfg s conn 416 ''Requested Range Not Satisfiable'' reason
      | Inr (from, to) \<Rightarrow>
          (let conn = conn\<lparr>c_reply_start := from, c_reply_length := to - from + 1\<rparr>;
               header = header_start cfg s conn ''206 Partial Content'' @
                 ''Content-Length: '' @ dec (llu (c_reply_length conn)) @ CRLF @
                 ''Content-Range: bytes '' @ dec (llu from) @ ''-'' @ dec (llu to) @ ''/'' @
                 dec (llu sz) @ CRLF @
                 header_end ctype lastmod
           in conn\<lparr>c_header := Some header, c_header_length := length header, c_http_code := 206\<rparr>))"

definition serve_whole :: "config \<Rightarrow> server \<Rightarrow> connection \<Rightarrow> int \<Rightarrow> string \<Rightarrow> string \<Rightarrow> connection" where
  "serve_whole cfg s conn sz ctype lastmod =
     (let conn = conn\<lparr>c_reply_length := sz\<rparr>;
          header = header_start cfg s conn ''200 OK'' @
            ''Content-Length: '' @ dec (llu (c_reply_length conn)) @ CRLF @
            header_end ctype lastmod
      in conn\<lparr>c_header := Some header, c_header_length := length header, c_http_code := 200\<rparr>)"

definition not_modified :: "config \<Rightarrow> server \<Rightarrow> connection \<Rightarrow> connection" where
  "not_modified cfg s conn =
     (let header = header_start cfg s conn ''304 Not Modified'' @ CRLF in
      conn\<lparr>c_http_code := 304, c_header := Some header, c_header_length := length header,
           c_reply_length := 0, c_reply_type := Some REPLY_GENERATED, c_header_only := True\<rparr>)"

definition serve_file :: "config \<Rightarrow> server \<Rightarrow> connection \<Rightarrow> stat \<Rightarrow> string \<Rightarrow> connection" where
  "serve_file cfg s conn filestat ctype =
     (let conn = conn\<lparr>c_reply_type := Some REPLY_FROMFILE\<rparr>;
          lastmod = rfc1123_date (st_mtime filestat);
          if_mod_since = parse_field conn (LF # ''If-Modified-Since: '') in
      if if_mod_since \<noteq> None \<and> strcmp (the if_mod_since) lastmod = 0 then not_modified cfg s conn
      else if c_range_begin_given conn \<or> c_range_end_given conn then
        serve_range cfg s conn (st_size filestat) ctype lastmod
      else serve_whole cfg s conn (st_size filestat) ctype lastmod)"

definition serve_target ::
    "config \<Rightarrow> os \<Rightarrow> connection \<Rightarrow> string \<Rightarrow> string \<Rightarrow> server \<Rightarrow> connection \<times> server" where
  "serve_target cfg os conn target ctype s =
     (case os_open os target of
        Inl e \<Rightarrow>
          (let conn = conn\<lparr>c_reply_fd := -1\<rparr>; s = emit (Open_failed target) s in
           (if e = EACCES then forbidden cfg s conn
            else if e = ENOENT then not_found cfg s conn
            else default_reply cfg s conn 500 ''Internal Server Error''
              (''The URL you requested cannot be returned: '' @ os_strerror os e @ ''.''), s))
      | Inr fd \<Rightarrow>
          (let conn = conn\<lparr>c_reply_fd := fd\<rparr>; s = emit (Opened target fd) s in
           (case os_fstat os fd of
              Inl e \<Rightarrow> default_reply cfg s conn 500 ''Internal Server Error''
                (''fstat() failed: '' @ os_strerror os e @ ''.'')
            | Inr filestat \<Rightarrow>
                (if st_mode filestat = S_IFDIR \<and> \<not> want_single_file cfg then
                   redirect cfg s conn (the (c_url conn) @ ''/'')
                 else if st_mode filestat \<noteq> S_IFREG then
                   default_reply cfg s conn 403 ''Forbidden'' ''Not a regular file.''
                 else serve_file cfg s conn filestat ctype), s)))"

section \<open>The GET and HEAD methods\<close>

definition process_get :: "config \<Rightarrow> os \<Rightarrow> connection \<Rightarrow> server \<Rightarrow> connection \<times> server" where
  "process_get cfg os conn s =
     (let conn = strip_query conn in
      case make_safe_url (normalize_path (urldecode (the (c_url conn)))) of
        None \<Rightarrow> (default_reply cfg s conn 400 ''Bad Request'' ''You requested an invalid URL.'', s)
      | Some decoded_url \<Rightarrow>
          (case forward_to cfg conn of
             Some dest \<Rightarrow> (redirect cfg s conn (dest @ decoded_url), s)
           | None \<Rightarrow>
               (if want_hide_dotfiles cfg \<and> has_dotfile decoded_url then (not_found cfg s conn, s)
                else
                  (case choose_target cfg os conn decoded_url s of
                     (Inl conn, s) \<Rightarrow> (conn, s)
                   | (Inr (target, ctype), s) \<Rightarrow> serve_target cfg os conn target ctype s))))"

section \<open>Requests\<close>

definition process_request :: "config \<Rightarrow> os \<Rightarrow> connection \<Rightarrow> server \<Rightarrow> connection \<times> server" where
  "process_request cfg os conn s =
     (let s = s\<lparr>num_requests := num_requests s + 1\<rparr>;
          (r, conn) = parse_request cfg conn;
          (conn, s) =
            (if r \<noteq> Parsed then
               (default_reply cfg s (conn\<lparr>c_conn_close := True\<rparr>) 400 ''Bad Request''
                  (''You sent a request that the server couldn'' @ [QUOTE] @ ''t understand.''), s)
             else if needs_https_redirect cfg conn then (redirect_https cfg s conn, s)
             else if auth_key cfg \<noteq> None \<and>
                 (c_authorization conn = None \<or>
                  \<not> password_equal (the (c_authorization conn)) (the (auth_key cfg))) then
               (default_reply cfg s conn 401 ''Unauthorized'' ''Access denied due to invalid credentials.'', s)
             else if strcmp (the (c_method conn)) ''GET'' = 0 then process_get cfg os conn s
             else if strcmp (the (c_method conn)) ''HEAD'' = 0 then
               (let (conn, s) = process_get cfg os conn s in (conn\<lparr>c_header_only := True\<rparr>, s))
             else
               (default_reply cfg s conn 501 ''Not Implemented''
                  ''The method you specified is not implemented.'', s))
      in (conn\<lparr>c_state := SEND_HEADER, c_request := None\<rparr>, s))"

section \<open>Which paths are touched\<close>

fun touched :: "event \<Rightarrow> string option" where
  "touched (Opened p fd) = Some p"
| "touched (Open_failed p) = Some p"
| "touched (Stat p) = Some p"
| "touched (Opendir p) = Some p"
| "touched _ = None"

text \<open>\<open>acts P s s'\<close>: between the two states nothing happened but calls that satisfy \<open>P\<close>;
  \<open>touches P s s'\<close>: nothing but calls on paths that satisfy \<open>P\<close>.\<close>

definition acts :: "(event \<Rightarrow> bool) \<Rightarrow> server \<Rightarrow> server \<Rightarrow> bool" where
  "acts P s s' \<longleftrightarrow> (\<exists>evs. s' = s\<lparr>trace := trace s @ evs\<rparr> \<and> (\<forall>e \<in> set evs. P e))"

definition touches :: "(string \<Rightarrow> bool) \<Rightarrow> server \<Rightarrow> server \<Rightarrow> bool" where
  "touches P s s' \<longleftrightarrow> acts (\<lambda>e. \<exists>p. touched e = Some p \<and> P p) s s'"

lemma acts_refl [simp]: "acts P s s"
  unfolding acts_def by (rule exI [of _ "[]"]) simp

lemma acts_trans: "acts P s t \<Longrightarrow> acts P t u \<Longrightarrow> acts P s u"
  unfolding acts_def
proof (elim exE conjE)
  fix e1 e2
  assume "t = s\<lparr>trace := trace s @ e1\<rparr>" "u = t\<lparr>trace := trace t @ e2\<rparr>" "\<forall>e \<in> set e1. P e" "\<forall>e \<in> set e2. P e"
  then show "\<exists>evs. u = s\<lparr>trace := trace s @ evs\<rparr> \<and> (\<forall>e \<in> set evs. P e)"
    by (intro exI [of _ "e1 @ e2"]) auto
qed

lemma acts_emit: "P e \<Longrightarrow> acts P s (emit e s)"
  unfolding acts_def emit_def by (rule exI [of _ "[e]"]) simp

lemma acts_mono: "acts P s s' \<Longrightarrow> (\<And>e. P e \<Longrightarrow> Q e) \<Longrightarrow> acts Q s s'"
  unfolding acts_def by blast

lemma touches_refl [simp]: "touches P s s"
  by (simp add: touches_def)

lemma touches_trans: "touches P s t \<Longrightarrow> touches P t u \<Longrightarrow> touches P s u"
  unfolding touches_def by (rule acts_trans)

lemma touches_emit: "touched e = Some p \<Longrightarrow> P p \<Longrightarrow> touches P s (emit e s)"
  unfolding touches_def by (rule acts_emit) blast

lemma touches_mono: "touches P s s' \<Longrightarrow> (\<And>p. P p \<Longrightarrow> Q p) \<Longrightarrow> touches Q s s'"
  unfolding touches_def by (erule acts_mono) blast

lemma file_exists_acts: "P (Stat path) \<Longrightarrow> acts P s (snd (file_exists os path s))"
  by (auto simp: file_exists_def intro: acts_emit split: sum.splits)

lemma read_entries_acts:
  "(\<And>n. n \<in> set ents \<Longrightarrow> n \<noteq> ''.'' \<Longrightarrow> n \<noteq> ''..'' \<Longrightarrow>
      (want_hide_dotfiles cfg \<Longrightarrow> c_at n 0 \<noteq> CHR ''.'') \<Longrightarrow> P (Stat (path @ n))) \<Longrightarrow>
   acts P s (snd (read_entries cfg os path ents list s))"
proof (induction ents arbitrary: list s)
  case (Cons n ents)
  have e: "acts P s (emit (Stat (path @ n)) s)"
    if "n \<noteq> ''.''" "n \<noteq> ''..''" "want_hide_dotfiles cfg \<longrightarrow> c_at n 0 \<noteq> CHR ''.''"
    using Cons.prems [of n] that by (intro acts_emit) simp_all
  have IH: "acts P t (snd (read_entries cfg os path ents l t))" for l t
    using Cons.prems by (intro Cons.IH) simp
  show ?case using e acts_trans [OF e IH] IH
    by (auto simp: Let_def split: sum.splits)
qed simp

lemma make_sorted_dirlist_acts:
  assumes "P (Opendir path)"
    "\<And>names n. os_opendir os path = Inr names \<Longrightarrow> n \<in> set names \<Longrightarrow> n \<noteq> ''.'' \<Longrightarrow> n \<noteq> ''..'' \<Longrightarrow>
      (want_hide_dotfiles cfg \<Longrightarrow> c_at n 0 \<noteq> CHR ''.'') \<Longrightarrow> P (Stat (path @ n))"
  shows "acts P s (snd (make_sorted_dirlist cfg os path s))"
proof -
  have o: "acts P s (emit (Opendir path) s)" using assms(1) by (rule acts_emit)
  have "acts P t (snd (read_entries cfg os path names [] t))" if "os_opendir os path = Inr names" for names t
    using assms(2) [OF that] by (intro read_entries_acts) blast
  from o acts_trans [OF o this] show ?thesis
    by (auto simp: make_sorted_dirlist_def Let_def split: sum.splits prod.splits)
qed

lemma file_exists_touches: "P path \<Longrightarrow> touches P s (snd (file_exists os path s))"
  unfolding touches_def by (rule file_exists_acts) simp

text \<open>The paths under the root: those of the resolved URL, the index file of a directory, whose name
  the administrator has chosen, and the entries of a directory that is listed, without those that
  begin with a dot if they are to be hidden.\<close>

definition below_root :: "config \<Rightarrow> os \<Rightarrow> string \<Rightarrow> string \<Rightarrow> bool" where
  "below_root cfg os url path \<longleftrightarrow>
     (\<exists>rest. path = wwwroot cfg @ url @ rest \<and>
       (rest = [] \<or> last url = CHR ''/'' \<and>
         (rest = index_name cfg \<or>
          (\<exists>names. os_opendir os (wwwroot cfg @ url) = Inr names \<and> rest \<in> set names \<and>
             rest \<noteq> ''.'' \<and> rest \<noteq> ''..'' \<and> (want_hide_dotfiles cfg \<longrightarrow> c_at rest 0 \<noteq> CHR ''.'')))))"

lemma below_rootI:
  "below_root cfg os url (wwwroot cfg @ url)"
  "last url = CHR ''/'' \<Longrightarrow> below_root cfg os url (wwwroot cfg @ url @ index_name cfg)"
  "last url = CHR ''/'' \<Longrightarrow> os_opendir os (wwwroot cfg @ url) = Inr names \<Longrightarrow> n \<in> set names \<Longrightarrow>
   n \<noteq> ''.'' \<Longrightarrow> n \<noteq> ''..'' \<Longrightarrow> (want_hide_dotfiles cfg \<Longrightarrow> c_at n 0 \<noteq> CHR ''.'') \<Longrightarrow>
   below_root cfg os url ((wwwroot cfg @ url) @ n)"
  unfolding below_root_def by auto

lemma make_sorted_dirlist_touches:
  assumes "last url = CHR ''/''"
  shows "touches (below_root cfg os url) s (snd (make_sorted_dirlist cfg os (wwwroot cfg @ url) s))"
  unfolding touches_def
proof (rule make_sorted_dirlist_acts)
  show "\<exists>p. touched (Opendir (wwwroot cfg @ url)) = Some p \<and> below_root cfg os url p"
    using below_rootI(1) by simp
next
  fix names n
  assume "os_opendir os (wwwroot cfg @ url) = Inr names" "n \<in> set names" "n \<noteq> ''.''" "n \<noteq> ''..''"
    "want_hide_dotfiles cfg \<Longrightarrow> c_at n 0 \<noteq> CHR ''.''"
  from below_rootI(3) [OF assms this]
  show "\<exists>p. touched (Stat ((wwwroot cfg @ url) @ n)) = Some p \<and> below_root cfg os url p" by simp
qed

lemma generate_dir_listing_touches:
  "snd (generate_dir_listing cfg os conn path url s) = snd (make_sorted_dirlist cfg os path s)"
  by (simp add: generate_dir_listing_def Let_def split: prod.splits sum.splits)

lemma choose_target_touches:
  assumes "url \<noteq> []" "choose_target cfg os conn url s = (r, s')"
  shows "touches (below_root cfg os url) s s' \<and>
    (\<forall>target ctype. r = Inr (target, ctype) \<longrightarrow>
       (if want_single_file cfg then target = wwwroot cfg else below_root cfg os url target))"
proof (cases "\<not> want_single_file cfg \<and> last url = CHR ''/''")
  case True
  let ?t = "wwwroot cfg @ url @ index_name cfg"
  have b: "below_root cfg os url ?t" using True by (simp add: below_rootI)
  obtain ex t where fe: "file_exists os ?t s = (ex, t)" by fastforce
  then have t: "touches (below_root cfg os url) s t"
    using file_exists_touches [where P = "below_root cfg os url", OF b, of s os] by simp
  obtain conn' u where g: "generate_dir_listing cfg os conn (wwwroot cfg @ url) url t = (conn', u)" by fastforce
  then have "touches (below_root cfg os url) t u"
    using generate_dir_listing_touches make_sorted_dirlist_touches True by (metis snd_conv)
  with t have "touches (below_root cfg os url) s u" by (rule touches_trans)
  with assms True t b g fe show ?thesis
    by (auto simp: choose_target_def last_conv_nth split: if_splits)
next
  case False
  with assms show ?thesis
    by (auto simp: choose_target_def last_conv_nth below_rootI split: if_splits)
qed

lemma serve_target_touches:
  "P target \<Longrightarrow> touches P s (snd (serve_target cfg os conn target ctype s))"
  by (auto simp: serve_target_def Let_def intro: touches_emit split: sum.splits)

lemma process_get_touches:
  assumes "process_get cfg os conn s = (conn', s')"
  shows "touches (\<lambda>p. (want_single_file cfg \<and> p = wwwroot cfg) \<or>
    (\<exists>url. safe_form url \<and> (want_hide_dotfiles cfg \<longrightarrow> \<not> has_dotfile url) \<and> below_root cfg os url p)) s s'"
    (is "touches ?P s s'")
proof -
  let ?c = "strip_query conn"
  show ?thesis
  proof (cases "make_safe_url (normalize_path (urldecode (the (c_url ?c))))")
    case None
    with assms(1) show ?thesis by (simp add: process_get_def Let_def)
  next
    case (Some url)
    have "nul_free_str (normalize_path (urldecode (the (c_url ?c))))" by (simp add: nul_free)
    with Some have safe: "safe_form url" by (auto simp: make_safe_url_safe_path dest: safe_path_form)
    show ?thesis
    proof (cases "forward_to cfg ?c \<noteq> None \<or> want_hide_dotfiles cfg \<and> has_dotfile url")
      case True
      with assms(1) Some have "s' = s" by (auto simp: process_get_def Let_def split: option.splits)
      then show ?thesis by simp
    next
      case False
      obtain r t where ct: "choose_target cfg os ?c url s = (r, t)" by fastforce
      note c = choose_target_touches [OF _ ct] safe_form_hd [OF safe]
      have "touches (below_root cfg os url) s t" using c by blast
      then have t: "touches ?P s t" by (rule touches_mono) (use safe False in auto)
      show ?thesis
      proof (cases r)
        case (Inl a)
        with assms(1) Some False ct t show ?thesis by (auto simp: process_get_def Let_def)
      next
        case (Inr p)
        obtain target ctype where p: "p = (target, ctype)" by fastforce
        have "?P target" using c Inr p safe False by (auto split: if_splits)
        then have "touches ?P t (snd (serve_target cfg os ?c target ctype t))" by (rule serve_target_touches)
        moreover have "serve_target cfg os ?c target ctype t = (conn', s')"
          using assms(1) Some False ct Inr p by (auto simp: process_get_def Let_def)
        ultimately show ?thesis using touches_trans [OF t] by simp
      qed
    qed
  qed
qed

section \<open>Requests: frame and credentials\<close>

lemma parse_protocol_frame: "parse_protocol c n = (r, d) \<Longrightarrow> d = c \<or> d = c\<lparr>c_conn_close := False\<rparr>"
  by (auto simp: parse_protocol_def Let_def split: if_splits)

text \<open>What parsing can change, and that what it takes from the request holds no NUL.\<close>

lemma parse_request_cases:
  assumes "parse_request cfg conn = (r, d)"
  obtains m where "d = conn\<lparr>c_method := Some m\<rparr>" "r \<noteq> Parsed"
  | m u b where "d = conn\<lparr>c_method := Some m, c_url := Some u, c_conn_close := b\<rparr>" "nul_free_str u" "r \<noteq> Parsed"
  | m u b where "d = parse_fields cfg (conn\<lparr>c_method := Some m, c_url := Some u, c_conn_close := b\<rparr>)"
      "nul_free_str u" "r = Parsed"
proof -
  define m where "m = strntoupper (split_string (request_bytes conn) 0 (scan (\<lambda>c. c \<noteq> CHR '' '') (request_bytes conn) 0))
    (scan (\<lambda>c. c \<noteq> CHR '' '') (request_bytes conn) 0)"
  define b1 where "b1 = scan (\<lambda>c. c = CHR '' '') (request_bytes conn) (scan (\<lambda>c. c \<noteq> CHR '' '') (request_bytes conn) 0)"
  define b2 where "b2 = scan (\<lambda>c. c \<noteq> CHR '' '' \<and> c \<noteq> CR \<and> c \<noteq> LF \<and> c \<noteq> NUL) (request_bytes conn) (b1 + 1)"
  define u where "u = split_string (request_bytes conn) b1 b2"
  let ?c = "conn\<lparr>c_method := Some m, c_url := Some u\<rparr>"
  note defs = m_def [symmetric] b1_def [symmetric] b2_def [symmetric] u_def [symmetric]
  have u: "nul_free_str u" by (simp add: u_def)
  consider "d = conn\<lparr>c_method := Some m\<rparr>" "r \<noteq> Parsed"
    | p c1 where "(if c_at (request_bytes conn) b2 = CHR '' '' then parse_protocol ?c b2 else (Parsed, ?c)) = (p, c1)"
        "(r, d) = (if p \<noteq> Parsed then (p, c1) else (Parsed, parse_fields cfg c1))"
  proof (cases "b1 = length (request_bytes conn) \<or> b2 < length (request_bytes conn) \<and> request_bytes conn ! b2 = NUL \<or>
      length (request_bytes conn) < b2")
    case True
    with assms that(1) show ?thesis unfolding parse_request_def Let_def defs by (auto split: if_splits)
  next
    case False
    obtain p c1 where pc: "(if c_at (request_bytes conn) b2 = CHR '' '' then parse_protocol ?c b2 else (Parsed, ?c)) = (p, c1)"
      by (meson surj_pair)
    have "(r, d) = (if p \<noteq> Parsed then (p, c1) else (Parsed, parse_fields cfg c1))"
      using assms False unfolding parse_request_def Let_def defs pc by auto
    with pc show ?thesis by (rule that(2))
  qed
  then show thesis
  proof cases
    case 1
    with that(1) show thesis by simp
  next
    case (2 p c1)
    from 2(1) have "c1 = ?c \<or> c1 = ?c\<lparr>c_conn_close := False\<rparr>"
      by (auto split: if_splits dest: parse_protocol_frame)
    then obtain b where c1: "c1 = ?c\<lparr>c_conn_close := b\<rparr>"
    proof
      assume "c1 = ?c"
      then show thesis using that [of "c_conn_close conn"] by simp
    qed (use that in blast)
    show thesis
    proof (cases "p = Parsed")
      case True
      with 2(2) c1 u show thesis using that(3) [of b u m] by simp
    next
      case False
      with 2(2) c1 u show thesis using that(2) [of b u m] by simp
    qed
  qed
qed



text \<open>C2. Whatever a request asks for, every path that is examined, opened or listed for it is the
  root followed by a resolved path, or the index file or an entry of such a directory (or the
  single file that is served).  Under \<^verbatim>\<open>--hide-dotfiles\<close> neither the resolved path has a component
  that begins with a dot nor does an entry that is examined; only the index file has the name that
  was configured, whatever it is.  Apart from this nothing but the counters changes.\<close>

theorem process_request_stays_below_root:
  "touches (\<lambda>p. (want_single_file cfg \<and> p = wwwroot cfg) \<or>
     (\<exists>url. safe_form url \<and> (want_hide_dotfiles cfg \<longrightarrow> \<not> has_dotfile url) \<and> below_root cfg os url p))
     (s\<lparr>num_requests := num_requests s + 1\<rparr>) (snd (process_request cfg os conn s))"
proof -
  obtain r d where p: "parse_request cfg conn = (r, d)" by fastforce
  let ?t = "s\<lparr>num_requests := num_requests s + 1\<rparr>"
  have "snd (process_request cfg os conn s) = ?t \<or>
      snd (process_request cfg os conn s) = snd (process_get cfg os d ?t)"
    by (simp add: process_request_def p Let_def split: prod.splits)
  moreover obtain c t where g: "process_get cfg os d ?t = (c, t)" by fastforce
  ultimately show ?thesis using process_get_touches [OF g] by auto
qed

theorem process_request_stays_below_root_witness:
  "\<exists>s'. snd (process_request (sample_config\<lparr>want_hide_dotfiles := True\<rparr>) sample_os requesting_connection
       sample_server) = s' \<and>
     touches (\<lambda>p. \<exists>url. safe_form url \<and> \<not> has_dotfile url \<and>
         below_root (sample_config\<lparr>want_hide_dotfiles := True\<rparr>) sample_os url p)
       (sample_server\<lparr>num_requests := 1\<rparr>) s'"
proof -
  have c: "num_requests sample_server = 0" "\<not> want_single_file sample_config"
    by (simp_all add: sample_server_def sample_config_def)
  from process_request_stays_below_root [of "sample_config\<lparr>want_hide_dotfiles := True\<rparr>" sample_os sample_server
      requesting_connection]
  show ?thesis by (simp add: c)
qed

section \<open>Ranges\<close>

text \<open>The bytes that were asked for, whether the file has them or not.\<close>

definition requested :: "connection \<Rightarrow> int \<Rightarrow> int set" where
  "requested conn sz =
     (if c_range_begin_given conn then
        (if c_range_end_given conn then {c_range_begin conn..c_range_end conn} else {c_range_begin conn..})
      else {sz - c_range_end conn..})"

lemma compute_range_requested:
  assumes "0 \<le> sz" "0 \<le> c_range_begin conn" "0 \<le> c_range_end conn"
    "c_range_begin_given conn \<or> c_range_end_given conn"
  shows "case compute_range conn sz of
      Inl reason \<Rightarrow> requested conn sz \<inter> {0..<sz} = {}
    | Inr (from, to) \<Rightarrow> requested conn sz \<inter> {0..<sz} = {from..to} \<and> 0 \<le> from \<and> from \<le> to \<and> to < sz"
  using assms by (auto simp: compute_range_def requested_def Let_def split: if_splits)

text \<open>C24. A range request gets exactly the bytes it asks for that the file has: the computed range
  is the requested one cut to the file, it is refused exactly if nothing is left, and no
  intermediate result overflows \<^verbatim>\<open>off_t\<close>.\<close>

theorem compute_range_exact:
  assumes "0 \<le> sz" "sz \<le> LLONG_MAX" "0 \<le> c_range_begin conn" "0 \<le> c_range_end conn"
    "c_range_end conn \<le> LLONG_MAX" "c_range_begin_given conn \<or> c_range_end_given conn"
  shows "(case compute_range conn sz of
      Inl reason \<Rightarrow> requested conn sz \<inter> {0..<sz} = {}
    | Inr (from, to) \<Rightarrow> requested conn sz \<inter> {0..<sz} = {from..to} \<and> 0 \<le> from \<and> from \<le> to \<and> to < sz \<and>
        to - from + 1 \<le> LLONG_MAX) \<and>
    LLONG_MIN \<le> sz - 1 - c_range_end conn"
proof -
  note r = compute_range_requested [OF assms(1,3,4,6)]
  have "LLONG_MIN \<le> sz - 1 - c_range_end conn" using assms by simp
  with r assms(2) show ?thesis by (auto split: sum.splits prod.splits)
qed

theorem compute_range_exact_witness:
  "compute_range (sample_connection\<lparr>c_range_end_given := True, c_range_end := 3\<rparr>) 5 = Inr (2, 4) \<and>
   requested (sample_connection\<lparr>c_range_end_given := True, c_range_end := 3\<rparr>) 5 \<inter> {0..<5} = {2..4}"
proof -
  let ?c = "sample_connection\<lparr>c_range_end_given := True, c_range_end := 3\<rparr>"
  have r: "compute_range ?c 5 = Inr (2, 4)"
    by (simp add: compute_range_def sample_connection_def new_connection_def)
  have "0 \<le> c_range_begin ?c" "c_range_begin_given ?c \<or> c_range_end_given ?c"
    by (simp_all add: sample_connection_def new_connection_def)
  with compute_range_exact [of 5 ?c] r show ?thesis by simp
qed

section \<open>The answers\<close>

text \<open>A connection whose reply has not begun.\<close>

definition fresh :: "connection \<Rightarrow> bool" where
  "fresh conn \<longleftrightarrow> c_header_sent conn = 0 \<and> c_reply_sent conn = 0 \<and> c_reply_start conn = 0 \<and>
     c_total_sent conn = 0 \<and> 0 \<le> c_range_begin conn \<and> 0 \<le> c_range_end conn \<and>
     c_range_end conn \<le> LLONG_MAX"

text \<open>Content types come from the configuration.\<close>

definition types_ok :: "config \<Rightarrow> bool" where
  "types_ok cfg \<longleftrightarrow> clean (default_mimetype cfg) \<and> (\<forall>m \<in> set (mime_map (mime cfg)). clean (mimetype m))"

lemma bsearch_loop_in_set:
  "u \<le> length xs \<Longrightarrow> bsearch_loop kcmp k xs l u = Some x \<Longrightarrow> x \<in> set xs"
proof (induction kcmp k xs l u rule: bsearch_loop.induct)
  case (1 kcmp k xs l u)
  then show ?case
    by (subst (asm) (2) bsearch_loop.simps) (auto simp: Let_def split: if_splits)
qed

lemma clean_content_type: "types_ok cfg \<Longrightarrow> clean (content_type cfg url)"
  using bsearch_loop_in_set [OF order_refl]
  by (fastforce simp: content_type_def url_content_type_def Let_def types_ok_def bsearch_def split: option.splits)

text \<open>The five kinds of answer, and HEAD.  \<open>fresh\<close> connections are those the request was parsed
  into, \<open>t\<close> is the time.\<close>

inductive answered :: "config \<Rightarrow> os \<Rightarrow> int \<Rightarrow> connection \<Rightarrow> bool" for cfg os t where
  error: "fresh d \<Longrightarrow> clean name \<Longrightarrow> 400 \<le> code \<Longrightarrow> now s = t \<Longrightarrow>
    answered cfg os t (default_reply cfg s d code name reason)"
| redirected: "fresh d \<Longrightarrow> now s = t \<Longrightarrow> answered cfg os t (redirect cfg s d dest)"
| listing: "fresh d \<Longrightarrow> make_sorted_dirlist cfg os path s = (Inr list, s') \<Longrightarrow> now s = t \<Longrightarrow>
    answered cfg os t (fst (generate_dir_listing cfg os d path url s))"
| sent_file: "fresh d \<Longrightarrow> now s = t \<Longrightarrow> os_fstat os (c_reply_fd d) = Inr st \<Longrightarrow> st_mode st = S_IFREG \<Longrightarrow>
    answered cfg os t (serve_file cfg s d st (content_type cfg url))"
| head: "answered cfg os t d \<Longrightarrow> answered cfg os t (d\<lparr>c_header_only := True\<rparr>)"

lemma strtoll_digit_nonneg:
  assumes "isdigit (hd s)" "s \<noteq> []"
  shows "0 \<le> fst (strtoll s) \<and> fst (strtoll s) \<le> LLONG_MAX"
proof -
  let ?ds = "takeWhile isdigit s"
  have "\<forall>c \<in> set ?ds. isdigit c" by (auto dest: set_takeWhileD)
  moreover have "?ds \<noteq> []" using assms by (cases s) auto
  moreover have "dropWhile isdigit s = [] \<or> \<not> isdigit (hd (dropWhile isdigit s))"
    using hd_dropWhile by blast
  ultimately have "fst (strtoll (?ds @ dropWhile isdigit s)) = min (int (digits_val ?ds)) LLONG_MAX"
    by (rule fst_strtoll_digits)
  then show ?thesis by simp
qed

lemma scan_first:
  assumes "scan p s i \<noteq> i"
  shows "i < length s \<and> p (s ! i)"
  using assms scan_between [of i i p s] scan_ge [of i p s] by simp

lemma parse_range_nonneg:
  assumes "fresh conn"
  shows "fresh (parse_range_field conn)"
proof -
  have a: "0 \<le> fst (strtoll (drop i r)) \<and> fst (strtoll (drop i r)) \<le> LLONG_MAX" if "scan isdigit r i \<noteq> i" for i r
    using scan_first [OF that] by (intro strtoll_digit_nonneg) (simp_all add: hd_drop_conv_nth)
  show ?thesis
    using assms a [of _ 0] a
    by (auto simp: fresh_def parse_range_field_def Let_def split: option.splits)
qed

lemma fresh_update [simp]:
  "fresh (conn\<lparr>c_method := m\<rparr>) = fresh conn" "fresh (conn\<lparr>c_url := m\<rparr>) = fresh conn"
  "fresh (conn\<lparr>c_conn_close := b\<rparr>) = fresh conn" "fresh (conn\<lparr>c_referer := m\<rparr>) = fresh conn"
  "fresh (conn\<lparr>c_user_agent := m\<rparr>) = fresh conn" "fresh (conn\<lparr>c_authorization := m\<rparr>) = fresh conn"
  "fresh (conn\<lparr>c_forwarded_for := m\<rparr>) = fresh conn" "fresh (conn\<lparr>c_reply_fd := fd\<rparr>) = fresh conn"
  by (simp_all add: fresh_def)

lemma fresh_parse_request:
  assumes "fresh conn" "parse_request cfg conn = (r, d)"
  shows "fresh d"
  using assms(1) by (rule_tac parse_request_cases [OF assms(2)]) (simp_all add: parse_fields_eq parse_range_nonneg)

lemma fresh_strip_query: "fresh conn \<Longrightarrow> fresh (strip_query conn)"
  by (simp add: strip_query_def split: option.splits)

lemma const_clean:
  "clean ''Not Found''" "clean ''Forbidden''" "clean ''Internal Server Error''" "clean ''Bad Request''"
  "clean ''Unauthorized''" "clean ''Not Implemented''" "clean ''Requested Range Not Satisfiable''"
  by simp_all

lemma answered_not_found: "fresh d \<Longrightarrow> now s = t \<Longrightarrow> answered cfg os t (not_found cfg s d)"
  unfolding not_found_def by (intro answered.error const_clean) simp_all

lemma answered_forbidden: "fresh d \<Longrightarrow> now s = t \<Longrightarrow> answered cfg os t (forbidden cfg s d)"
  unfolding forbidden_def by (intro answered.error const_clean) simp_all

lemma now_file_exists [simp]: "now (snd (file_exists os p s)) = now s"
  by (simp add: file_exists_def split: sum.splits)

lemma answered_listing:
  assumes "fresh d" "now s = t"
  shows "answered cfg os t (fst (generate_dir_listing cfg os d path url s))"
proof (cases "make_sorted_dirlist cfg os path s")
  case (Pair r s')
  show ?thesis
  proof (cases r)
    case (Inr list)
    with Pair assms show ?thesis by (intro answered.listing) simp_all
  next
    case (Inl e)
    have "now s' = t"
      using Pair Inl assms(2) by (auto simp: make_sorted_dirlist_def Let_def split: sum.splits prod.splits)
    with Pair Inl assms(1) show ?thesis
      by (auto simp: generate_dir_listing_def Let_def intro!: answered.error const_clean simp del: clean_Cons)
  qed
qed

lemma answered_serve_target:
  assumes "fresh d" "now s = t"
  shows "answered cfg os t (fst (serve_target cfg os d target (content_type cfg url) s))"
proof (cases "os_open os target")
  case (Inl e)
  with assms show ?thesis
    by (auto simp: serve_target_def Let_def simp del: clean_Cons
        intro!: answered_forbidden answered_not_found answered.error const_clean)
next
  case (Inr fd)
  show ?thesis
  proof (cases "os_fstat os fd")
    case (Inl e)
    with Inr assms show ?thesis
      by (auto simp: serve_target_def Let_def simp del: clean_Cons intro!: answered.error const_clean)
  next
    case (Inr st)
    with \<open>os_open os target = Inr fd\<close> assms show ?thesis
      by (auto simp: serve_target_def Let_def simp del: clean_Cons
          intro!: answered.redirected answered.error answered.sent_file const_clean)
  qed
qed

lemma choose_target_answer:
  assumes "choose_target cfg os d url s = (r, s')" "fresh d"
  shows "now s' = now s \<and> (case r of Inl c \<Rightarrow> answered cfg os (now s) c
    | Inr (target, ctype) \<Rightarrow> \<exists>u. ctype = content_type cfg u)"
proof -
  have n: "now (snd (generate_dir_listing cfg os d p u t)) = now t" for p u t
    by (auto simp: generate_dir_listing_touches make_sorted_dirlist_def Let_def read_entries_now
        split: sum.splits prod.splits) (metis read_entries_now now_emit snd_conv)
  obtain ex t where fe: "file_exists os (wwwroot cfg @ url @ index_name cfg) s = (ex, t)" by fastforce
  then have t: "now t = now s" using now_file_exists by (metis snd_conv)
  have l: "generate_dir_listing cfg os d p u t = (c, w) \<Longrightarrow> answered cfg os (now s) c \<and> now w = now s" for p u c w
    using answered_listing [OF assms(2) t, of cfg os p u] n [of p u t] t by simp
  from assms fe t l show ?thesis
    by (auto simp: choose_target_def Let_def answered_not_found split: if_splits prod.splits)
qed

lemma process_get_answered:
  assumes "fresh conn"
  shows "answered cfg os (now s) (fst (process_get cfg os conn s))"
proof -
  let ?c = "strip_query conn"
  have f: "fresh ?c" using assms by (rule fresh_strip_query)
  show ?thesis
  proof (cases "make_safe_url (normalize_path (urldecode (the (c_url ?c))))")
    case None
    with f show ?thesis
      by (auto simp: process_get_def Let_def simp del: clean_Cons intro!: answered.error const_clean)
  next
    case (Some url)
    obtain r t where ct: "choose_target cfg os ?c url s = (r, t)" by fastforce
    note a = choose_target_answer [OF ct f]
    show ?thesis
    proof (cases r)
      case (Inl c)
      with Some f ct a show ?thesis
        by (auto simp: process_get_def Let_def intro: answered.redirected answered_not_found split: option.splits)
    next
      case (Inr p)
      then obtain target u where "r = Inr (target, content_type cfg u)" "now t = now s"
        using a by (cases p) auto
      with Some f ct show ?thesis
        by (auto simp: process_get_def Let_def split: option.splits
            intro: answered.redirected answered_not_found answered_serve_target)
    qed
  qed
qed

lemma process_request_answered:
  assumes "fresh conn"
  shows "\<exists>d. answered cfg os (now s) d \<and>
    fst (process_request cfg os conn s) = d\<lparr>c_state := SEND_HEADER, c_request := None\<rparr>"
proof -
  obtain r d where p: "parse_request cfg conn = (r, d)" by fastforce
  let ?t = "s\<lparr>num_requests := num_requests s + 1\<rparr>"
  have f: "fresh d" using fresh_parse_request [OF assms p] .
  have https: "answered cfg os (now s) (redirect_https cfg ?t d)"
    by (rule redirect_https_cases [of cfg ?t d])
      (auto intro!: answered.error answered.redirected f const_clean simp del: clean_Cons)
  obtain c u where g: "process_get cfg os d ?t = (c, u)" by fastforce
  have get: "answered cfg os (now s) c" using process_get_answered [OF f, of cfg os ?t] g by simp
  have err: "answered cfg os (now s) (default_reply cfg ?t d code name reason)"
    if "clean name" "400 \<le> code" for code name reason
    using f that by (intro answered.error) simp_all
  have err': "answered cfg os (now s) (default_reply cfg ?t (d\<lparr>c_conn_close := True\<rparr>) code name reason)"
    if "clean name" "400 \<le> code" for code name reason
    using f that by (intro answered.error) simp_all
  let ?X = "if r \<noteq> Parsed then
      (default_reply cfg ?t (d\<lparr>c_conn_close := True\<rparr>) 400 ''Bad Request''
         (''You sent a request that the server couldn'' @ [QUOTE] @ ''t understand.''), ?t)
    else if needs_https_redirect cfg d then (redirect_https cfg ?t d, ?t)
    else if auth_key cfg \<noteq> None \<and>
        (c_authorization d = None \<or> \<not> password_equal (the (c_authorization d)) (the (auth_key cfg))) then
      (default_reply cfg ?t d 401 ''Unauthorized'' ''Access denied due to invalid credentials.'', ?t)
    else if strcmp (the (c_method d)) ''GET'' = 0 then (c, u)
    else if strcmp (the (c_method d)) ''HEAD'' = 0 then (c\<lparr>c_header_only := True\<rparr>, u)
    else (default_reply cfg ?t d 501 ''Not Implemented''
      ''The method you specified is not implemented.'', ?t)"
  have "fst (process_request cfg os conn s) = (fst ?X)\<lparr>c_state := SEND_HEADER, c_request := None\<rparr>"
    unfolding process_request_def p Let_def prod.case g by (simp only: prod.case_eq_if fst_conv)
  moreover have "answered cfg os (now s) (fst ?X)"
    by (simp only: if_distrib [where f = fst] fst_conv split: if_split)
      (intro conjI impI https get answered.head err err' const_clean; simp)
  ultimately show ?thesis by blast
qed

section \<open>Every answer is a message\<close>

text \<open>The header is a status line with the connection's code, clean lines and a blank line; its
  stored length is right, and a Content-Length line announces the body that will be sent (a 304
  has no body and no such line).\<close>

definition message_ok :: "connection \<Rightarrow> bool" where
  "message_ok conn \<longleftrightarrow> (\<exists>h. c_header conn = Some h \<and> c_header_length conn = length h \<and>
     prefix (''HTTP/1.1 '' @ dec_int (c_http_code conn)) h \<and>
     (if c_http_code conn = 304 then c_header_only conn \<and> (\<exists>b. hdr_block b \<and> h = b @ CRLF)
      else header_has h (''Content-Length: '' @ dec (nat (c_reply_length conn)))))"

lemma message_okI:
  assumes "c_header conn = Some h" "c_header_length conn = length h" "c_http_code conn = code"
    "prefix (''HTTP/1.1 '' @ dec_int code) h" "code \<noteq> 304"
    "header_has h (''Content-Length: '' @ dec (nat (c_reply_length conn)))"
  shows "message_ok conn"
  using assms by (simp add: message_ok_def)

lemma prefix_status: "prefix (''HTTP/1.1 '' @ (a @ '' '' @ b) @ CRLF) h \<Longrightarrow> prefix (''HTTP/1.1 '' @ a) h"
  by (rule prefix_order.trans) simp_all

lemma generated_message_ok:
  assumes "generated conn (dec_int (c_http_code conn) @ '' '' @ name)" "c_http_code conn \<noteq> 304"
  shows "message_ok conn"
proof -
  from assms(1) obtain h and r :: string where g: "c_header conn = Some h" "c_header_length conn = length h"
    "c_reply_length conn = int (length r)"
    "prefix (''HTTP/1.1 '' @ (dec_int (c_http_code conn) @ '' '' @ name) @ CRLF) h"
    "header_has h (''Content-Length: '' @ dec (length r))" unfolding generated_def by blast
  from g(5) have "header_has h (''Content-Length: '' @ dec (nat (c_reply_length conn)))" by (simp only: g(3) nat_int)
  with g assms(2) show ?thesis by (intro message_okI [OF _ _ refl prefix_status]) blast+
qed

lemma default_reply_message_ok:
  assumes "config_ok cfg" "clean name" "c_reply_length (default_reply cfg s d code name reason) < 2 ^ 64" "code \<noteq> 304"
  shows "message_ok (default_reply cfg s d code name reason)"
proof -
  have "length (default_page cfg s code name reason) < 2 ^ 64" using assms(3) by simp
  from default_reply_generated [OF assms(1,2) this, of d] assms(4) show ?thesis
    by (intro generated_message_ok [of _ name]) simp_all
qed

definition header_tail :: "string \<Rightarrow> string \<Rightarrow> string" where
  "header_tail ctype lastmod =
     ((''Content-Type: '' @ ctype) @ CRLF) @ ((''Last-Modified: '' @ lastmod) @ CRLF)"

lemma header_end_tail: "header_end ctype lastmod = header_tail ctype lastmod @ CRLF"
  by (simp add: header_end_def header_tail_def)

lemma hdr_block_tail: "clean ctype \<Longrightarrow> clean lastmod \<Longrightarrow> hdr_block (header_tail ctype lastmod)"
  unfolding header_tail_def by (intro hdr_block_append hdr_block_line1) simp_all

lemma code_prefix:
  "dec_int 200 = ''200''" "dec_int 206 = ''206''" "dec_int 304 = ''304''"
  by code_simp+

lemma prefix_header_start:
  "prefix code st \<Longrightarrow> prefix (''HTTP/1.1 '' @ code) (header_start cfg s d st @ x)"
  by (auto simp: header_start_def prefix_def)

lemma serve_whole_message_ok:
  assumes "config_ok cfg" "clean ctype" "0 \<le> sz" "sz < 2 ^ 64"
  shows "message_ok (serve_whole cfg s d sz ctype (rfc1123_date t))"
proof -
  let ?h = "header_start cfg s (d\<lparr>c_reply_length := sz\<rparr>) ''200 OK'' @ (''Content-Length: '' @ dec (llu sz)) @ CRLF @
    header_tail ctype (rfc1123_date t) @ CRLF"
  have "header_has ?h (''Content-Length: '' @ dec (llu sz))"
    using assms by (intro header_start_has hdr_block_tail) simp_all
  moreover have "prefix (''HTTP/1.1 '' @ dec_int 200) ?h"
    by (rule prefix_header_start) (simp add: code_prefix)
  moreover have "c_header (serve_whole cfg s d sz ctype (rfc1123_date t)) = Some ?h"
    by (simp add: serve_whole_def Let_def header_end_tail)
  moreover have "c_header_length (serve_whole cfg s d sz ctype (rfc1123_date t)) = length ?h"
    by (simp add: serve_whole_def Let_def header_end_tail)
  ultimately show ?thesis using assms(3,4)
    by (intro message_okI [where code = 200]) (simp_all add: serve_whole_def Let_def llu_id)
qed

lemma serve_range_message_ok:
  assumes "config_ok cfg" "clean ctype" "0 \<le> sz" "sz < 2 ^ 64" "0 \<le> c_range_begin d" "0 \<le> c_range_end d"
    "c_range_begin_given d \<or> c_range_end_given d"
    "c_reply_length (serve_range cfg s d sz ctype (rfc1123_date t)) < 2 ^ 64"
  shows "message_ok (serve_range cfg s d sz ctype (rfc1123_date t))"
proof (cases "compute_range d sz")
  case (Inl reason)
  with assms show ?thesis
    by (simp add: serve_range_def del: clean_Cons)
      (intro default_reply_message_ok const_clean, simp_all)
next
  case (Inr p)
  obtain f l where p: "p = (f, l)" by fastforce
  have b: "0 \<le> f" "f \<le> l" "l < sz"
    using compute_range_requested [OF assms(3,5,6,7)] Inr p by auto
  let ?d = "d\<lparr>c_reply_start := f, c_reply_length := l - f + 1\<rparr>"
  let ?cr = "''Content-Range: bytes '' @ dec (llu f) @ ''-'' @ dec (llu l) @ ''/'' @ dec (llu sz)"
  let ?h = "header_start cfg s ?d ''206 Partial Content'' @ (''Content-Length: '' @ dec (llu (l - f + 1))) @ CRLF @
    ((?cr @ CRLF) @ header_tail ctype (rfc1123_date t)) @ CRLF"
  have "clean ?cr" by simp
  then have "header_has ?h (''Content-Length: '' @ dec (llu (l - f + 1)))"
    using assms(1,2) by (intro header_start_has hdr_block_append hdr_block_tail hdr_block_line1) simp_all
  moreover have "prefix (''HTTP/1.1 '' @ dec_int 206) ?h"
    by (rule prefix_header_start) (simp add: code_prefix)
  moreover have "c_header (serve_range cfg s d sz ctype (rfc1123_date t)) = Some ?h"
    by (simp add: serve_range_def Inr p Let_def header_end_tail)
  moreover have "c_header_length (serve_range cfg s d sz ctype (rfc1123_date t)) = length ?h"
    by (simp add: serve_range_def Inr p Let_def header_end_tail)
  ultimately show ?thesis using b assms(4)
    by (intro message_okI [where code = 206]) (simp_all add: serve_range_def Inr p Let_def llu_id)
qed

lemma not_modified_message_ok:
  assumes "config_ok cfg"
  shows "message_ok (not_modified cfg s d)"
proof -
  let ?h = "header_start cfg s d ''304 Not Modified''"
  have "hdr_block ?h" using assms by (intro hdr_block_header_start) simp_all
  moreover have "prefix (''HTTP/1.1 '' @ dec_int 304) (?h @ CRLF)"
    by (rule prefix_header_start) (simp add: code_prefix)
  ultimately show ?thesis by (auto simp: message_ok_def not_modified_def Let_def)
qed

lemma message_ok_update [simp]:
  "message_ok (d\<lparr>c_state := x, c_request := r\<rparr>) = message_ok d"
  by (simp add: message_ok_def)

lemma message_ok_head: "message_ok d \<Longrightarrow> message_ok (d\<lparr>c_header_only := True\<rparr>)"
  unfolding message_ok_def by (cases "c_http_code d = 304") (simp_all only: connection.simps, auto)

lemma serve_file_message_ok:
  assumes "config_ok cfg" "clean ctype" "0 \<le> st_size st" "st_size st \<le> LLONG_MAX" "fresh d"
    "c_reply_length (serve_file cfg s d st ctype) < 2 ^ 64"
  shows "message_ok (serve_file cfg s d st ctype)"
proof -
  let ?d = "d\<lparr>c_reply_type := Some REPLY_FROMFILE\<rparr>"
  have f: "0 \<le> c_range_begin ?d" "0 \<le> c_range_end ?d" using assms(5) by (simp_all add: fresh_def)
  note r = serve_range_message_ok [of cfg ctype "st_size st" ?d s "st_mtime st", OF assms(1-3) _ f]
  note w = serve_whole_message_ok [of cfg ctype "st_size st" s ?d "st_mtime st", OF assms(1-3)]
  show ?thesis
    using not_modified_message_ok [OF assms(1)] r w assms(4,6)
    by (auto simp: serve_file_def Let_def simp del: clean_Cons split: if_splits)
qed

lemma answered_message_ok:
  assumes "answered cfg os t d" "os_ok os" "config_ok cfg" "types_ok cfg"
    "c_http_code d \<noteq> 301" "c_reply_length d < 2 ^ 64"
  shows "message_ok d"
  using assms
proof (induction rule: answered.induct)
  case (listing d path s list s' url)
  let ?p = "page_text cfg os url list (rfc1123_date (now s')) (strncmp path (wwwroot cfg) (length path - 1) \<noteq> 0)"
  have "ap_length (listing_page cfg os path url list (rfc1123_date (now s'))) = length ?p"
    using listing_page_text [of cfg os path url list "rfc1123_date (now s')"] by (simp only: ap_length_contents)
  moreover have "c_reply_length (fst (generate_dir_listing cfg os d path url s))
      = int (ap_length (listing_page cfg os path url list (rfc1123_date (now s'))))"
    by (simp add: generate_dir_listing_def listing.hyps(2) Let_def)
  ultimately have "length ?p < 2 ^ 64" using listing.prems(5) by simp
  from generate_dir_listing_ok [OF listing.hyps(2) listing.prems(2) this, of d]
  obtain c where "generate_dir_listing cfg os d path url s = (c, s')" "generated c ''200 OK''" "c_http_code c = 200"
    by (elim exE conjE) (rule that; assumption)
  moreover from this(2,3) have "generated c (dec_int (c_http_code c) @ '' '' @ ''OK'')"
    by (simp only: code_prefix append.simps)
  from generated_message_ok [OF this] \<open>c_http_code c = 200\<close> have "message_ok c" by simp
  ultimately show ?case by (simp only: fst_conv)
qed (auto intro: default_reply_message_ok serve_file_message_ok clean_content_type os_okD message_ok_head)

lemma fresh_requesting: "fresh requesting_connection"
  by (simp add: fresh_def requesting_connection_def new_connection_def)

lemma types_ok_sample: "types_ok sample_config"
  by (simp add: types_ok_def sample_config_def empty_mime_state_def)

text \<open>C23. Whatever a client sends and whatever is on the disk, every answer other than a redirect
  is a well-formed HTTP message: a status line with the answer's code, clean header lines that no
  part of the request can add to, a blank line, and a Content-Length that is the number of bytes
  of the body that will be sent (none for 304).\<close>

theorem process_request_message_ok:
  assumes "fresh conn" "os_ok os" "config_ok cfg" "types_ok cfg"
    "c_http_code (fst (process_request cfg os conn s)) \<noteq> 301"
    "c_reply_length (fst (process_request cfg os conn s)) < 2 ^ 64"
  shows "message_ok (fst (process_request cfg os conn s))"
proof -
  obtain d where d: "answered cfg os (now s) d"
    "fst (process_request cfg os conn s) = d\<lparr>c_state := SEND_HEADER, c_request := None\<rparr>"
    using process_request_answered [OF assms(1)] by blast
  from assms(5,6) have "c_http_code d \<noteq> 301" "c_reply_length d < 2 ^ 64" unfolding d(2) by simp_all
  from answered_message_ok [OF d(1) assms(2-4) this] show ?thesis unfolding d(2) by simp
qed

theorem process_request_message_ok_witness:
  "\<exists>cfg. auth_key cfg \<noteq> None \<and> message_ok (fst (process_request cfg sample_os requesting_connection sample_server))"
proof -
  let ?cfg = "sample_config\<lparr>auth_key := Some ''Basic eDp5''\<rparr>"
  let ?c = "fst (process_request ?cfg sample_os requesting_connection sample_server)"
  have cfg: "config_ok ?cfg" "types_ok ?cfg"
    using hdr_block_sample types_ok_sample by (simp_all add: config_ok_def types_ok_def)
  note a = requesting_no_authorization
  obtain d where p: "parse_request ?cfg requesting_connection = (Parsed, d)"
    "c_authorization d = None"
  proof -
    have le: "line_end CRLF" by (simp add: line_end_def)
    have ok: "token ''get''" "token ''/a''" by code_simp+
    have ne: "''/a'' \<noteq> []" by simp
    note p = parse_request_line [OF requesting_bytes le ok ne, of ?cfg]
    have "c_authorization (parse_fields ?cfg c) = parse_field c (LF # ''Authorization: '')" for c
      by (simp add: parse_fields_eq)
    with a p that show thesis by simp
  qed
  let ?t = "sample_server\<lparr>num_requests := num_requests sample_server + 1\<rparr>"
  let ?r = "default_reply ?cfg ?t d 401 ''Unauthorized'' ''Access denied due to invalid credentials.''"
  have "\<not> needs_https_redirect ?cfg d" by (simp add: needs_https_redirect_def sample_config_def)
  then have c: "?c = ?r\<lparr>c_state := SEND_HEADER, c_request := None\<rparr>"
    by (simp add: process_request_def p Let_def)
  have "length (dec_int 401) = 3" by code_simp
  then have len: "length (default_page ?cfg ?t 401 ''Unauthorized'' ''Access denied due to invalid credentials.'') < 2 ^ 64"
    using length_default_page [of ?cfg ?t 401 "''Unauthorized''" "''Access denied due to invalid credentials.''"] by simp
  have "c_http_code ?c \<noteq> 301" "c_reply_length ?c < 2 ^ 64"
    unfolding c using len by simp_all
  from process_request_message_ok [OF fresh_requesting os_ok_sample cfg this]
  show ?thesis by (intro exI [of _ ?cfg] conjI) simp
qed

section \<open>What the sending code is given\<close>

text \<open>The bytes the reply is taken from, and the reply itself.\<close>

definition reply_source :: "os \<Rightarrow> connection \<Rightarrow> string" where
  "reply_source os conn =
     (if c_reply_type conn = Some REPLY_FROMFILE then os_data os (c_reply_fd conn)
      else the (c_reply conn))"

definition sendable :: "os \<Rightarrow> connection \<Rightarrow> bool" where
  "sendable os conn \<longleftrightarrow>
     (\<exists>h. c_header conn = Some h \<and> h \<noteq> [] \<and> c_header_length conn = length h) \<and>
     c_header_sent conn \<le> c_header_length conn \<and>
     (c_header_only conn \<or>
      c_reply_type conn \<noteq> None \<and> 0 \<le> c_reply_start conn \<and>
      0 \<le> c_reply_sent conn \<and> c_reply_sent conn \<le> c_reply_length conn \<and>
      c_reply_start conn + c_reply_length conn \<le> int (length (reply_source os conn)))"

text \<open>A regular file has the content its size promises.\<close>

definition os_files_ok :: "os \<Rightarrow> bool" where
  "os_files_ok os \<longleftrightarrow> os_ok os \<and>
     (\<forall>fd st. os_fstat os fd = Inr st \<longrightarrow> st_mode st = S_IFREG \<longrightarrow> length (os_data os fd) = nat (st_size st))"

lemma header_start_ne [simp]: "header_start cfg s d st \<noteq> []"
  by (simp add: header_start_def)

lemma default_reply_sendable:
  "fresh d \<Longrightarrow> sendable os (default_reply cfg s d code name reason)"
  by (simp add: sendable_def fresh_def reply_source_def) (simp add: default_reply_def Let_def)

lemma serve_range_sendable:
  assumes "fresh d" "0 \<le> sz" "c_range_begin_given d \<or> c_range_end_given d" "c_reply_type d = Some REPLY_FROMFILE"
    "length (os_data os (c_reply_fd d)) = nat sz"
  shows "sendable os (serve_range cfg s d sz ctype lastmod)"
proof -
  have "0 \<le> c_range_begin d" "0 \<le> c_range_end d" using assms(1) by (simp_all add: fresh_def)
  note r = compute_range_requested [OF assms(2) this assms(3)]
  show ?thesis
  proof (cases "compute_range d sz")
    case (Inl reason)
    then show ?thesis using assms(1) by (simp add: serve_range_def default_reply_sendable)
  next
    case (Inr p)
    with r assms show ?thesis
      by (cases p) (auto simp: serve_range_def Let_def sendable_def reply_source_def fresh_def)
  qed
qed

lemma answered_sendable:
  assumes "answered cfg os t d" "os_files_ok os"
  shows "sendable os d \<and> c_header_sent d = 0 \<and> c_reply_sent d = 0 \<and> c_total_sent d = 0"
  using assms
proof (induction rule: answered.induct)
  case (sent_file d s st url)
  let ?d = "d\<lparr>c_reply_type := Some REPLY_FROMFILE\<rparr>"
  have st: "0 \<le> st_size st" "length (os_data os (c_reply_fd d)) = nat (st_size st)"
    using sent_file by (auto simp: os_files_ok_def os_ok_def)
  have f: "fresh ?d" using sent_file.hyps(1) by (simp add: fresh_def)
  have "sendable os (serve_range cfg s ?d (st_size st) ct lm)"
    if "c_range_begin_given d \<or> c_range_end_given d" for ct lm
    using f st that by (intro serve_range_sendable) simp_all
  moreover have "sendable os (serve_whole cfg s ?d (st_size st) ct lm)" for ct lm
    using f st by (simp add: sendable_def serve_whole_def Let_def reply_source_def fresh_def)
  moreover have "sendable os (not_modified cfg s ?d)"
    using f by (simp add: sendable_def not_modified_def Let_def fresh_def)
  moreover have "c_header_sent (serve_file cfg s d st ct) = 0 \<and> c_reply_sent (serve_file cfg s d st ct) = 0 \<and>
      c_total_sent (serve_file cfg s d st ct) = 0" for ct
    using f by (simp add: serve_file_def serve_range_def serve_whole_def not_modified_def Let_def fresh_def
        split: sum.splits prod.splits)
  ultimately show ?case by (simp add: serve_file_def Let_def)
next
  case (listing d path s list s' url)
  let ?l = "listing_page cfg os path url list (rfc1123_date (now s'))"
  have "ap_length ?l = length (ap_contents ?l)"
    using listing_page_text [of cfg os path url list "rfc1123_date (now s')"] by (simp only: ap_length_contents)
  with listing.hyps show ?case
    by (simp add: generate_dir_listing_def Let_def sendable_def fresh_def reply_source_def)
qed (simp_all add: default_reply_sendable, simp_all add: sendable_def fresh_def reply_source_def,
     simp_all add: redirect_def Let_def default_reply_def)

lemma process_request_sendable:
  assumes "fresh conn" "os_files_ok os"
  shows "sendable os (fst (process_request cfg os conn s)) \<and>
    c_header_sent (fst (process_request cfg os conn s)) = 0 \<and>
    c_reply_sent (fst (process_request cfg os conn s)) = 0 \<and>
    c_total_sent (fst (process_request cfg os conn s)) = 0"
proof -
  obtain d where d: "answered cfg os (now s) d"
    "fst (process_request cfg os conn s) = d\<lparr>c_state := SEND_HEADER, c_request := None\<rparr>"
    using process_request_answered [OF assms(1)] by blast
  have "sendable os (c\<lparr>c_state := x, c_request := r\<rparr>) = sendable os c" for c x r
    by (simp add: sendable_def reply_source_def)
  with answered_sendable [OF d(1) assms(2)] show ?thesis unfolding d(2) by simp
qed

section \<open>Which descriptors are opened\<close>

text \<open>Only the file that is sent is opened, and its descriptor is left in the connection.\<close>

fun opened_fds :: "event \<Rightarrow> fd list" where
  "opened_fds (Opened p fd) = [fd]"
| "opened_fds (Accepted fd) = [fd]"
| "opened_fds _ = []"

fun closed_fds :: "event \<Rightarrow> fd list" where
  "closed_fds (Closed fd) = [fd]"
| "closed_fds _ = []"

definition looks :: "event \<Rightarrow> bool" where
  "looks e \<longleftrightarrow> (\<exists>p. e = Stat p \<or> e = Opendir p \<or> e = Open_failed p)"

lemma make_sorted_dirlist_looks: "acts looks s (snd (make_sorted_dirlist cfg os path s))"
  by (rule make_sorted_dirlist_acts) (simp_all add: looks_def)

lemma generate_dir_listing_fds:
  "generate_dir_listing cfg os conn path url s = (c', s') \<Longrightarrow>
   acts looks s s' \<and> c_socket c' = c_socket conn \<and> c_client c' = c_client conn \<and> c_reply_fd c' = c_reply_fd conn \<and>
   c_request_length c' = c_request_length conn \<and> c_last_active c' = c_last_active conn"
  using make_sorted_dirlist_looks [of s cfg os path]
  by (auto simp: generate_dir_listing_def default_reply_def Let_def split: prod.splits sum.splits if_splits)

definition kept :: "connection \<Rightarrow> connection \<Rightarrow> bool" where
  "kept c c' \<longleftrightarrow> c_socket c' = c_socket c \<and> c_client c' = c_client c \<and> c_reply_fd c' = c_reply_fd c \<and>
     c_request_length c' = c_request_length c \<and> c_last_active c' = c_last_active c"

lemma kept_simps [simp]:
  "kept c (default_reply cfg s d code name reason) = kept c d" "kept c (redirect cfg s d dest) = kept c d"
  "kept c (not_found cfg s d) = kept c d" "kept c (forbidden cfg s d) = kept c d"
  "kept c (redirect_https cfg s d) = kept c d" "kept c (strip_query d) = kept c d"
  "kept c (serve_range cfg s d sz ct lm) = kept c d" "kept c (serve_whole cfg s d sz ct lm) = kept c d"
  "kept c (not_modified cfg s d) = kept c d" "kept c (serve_file cfg s d st ct) = kept c d"
  "kept c (d\<lparr>c_header_only := b\<rparr>) = kept c d" "kept c (d\<lparr>c_state := x\<rparr>) = kept c d"
  "kept c (d\<lparr>c_request := r\<rparr>) = kept c d" "kept c (d\<lparr>c_conn_close := b\<rparr>) = kept c d"
  by (simp_all add: kept_def default_reply_def redirect_def not_found_def forbidden_def redirect_https_def
      strip_query_def serve_range_def serve_whole_def not_modified_def serve_file_def Let_def
      split: option.splits sum.splits prod.splits)

lemma kept_refl [simp]: "kept c c"
  by (simp add: kept_def)

lemma parse_request_kept:
  assumes "parse_request cfg conn = (r, d)"
  shows "kept conn d"
  using assms by (rule parse_request_cases) (simp_all add: kept_def parse_fields_eq parse_range_frame)

text \<open>\<open>opens c s c' s'\<close>: the events open exactly what the connection holds in addition.\<close>

definition opens :: "connection \<Rightarrow> server \<Rightarrow> connection \<Rightarrow> server \<Rightarrow> bool" where
  "opens c s c' s' \<longleftrightarrow> acts looks s s' \<and> kept c c' \<or>
     (\<exists>t p fd. acts looks s t \<and> s' = emit (Opened p fd) t \<and> kept (c\<lparr>c_reply_fd := fd\<rparr>) c' \<and> 0 \<le> fd)"

lemma choose_target_fds:
  assumes "choose_target cfg os conn url s = (r, s')"
  shows "acts looks s s' \<and> (case r of Inl c' \<Rightarrow> kept conn c' | Inr _ \<Rightarrow> True)"
proof -
  have f: "acts looks s (snd (file_exists os p s))" for p by (rule file_exists_acts) (simp add: looks_def)
  obtain ex t where fe: "file_exists os (wwwroot cfg @ url @ index_name cfg) s = (ex, t)" by fastforce
  with f have t: "acts looks s t" by (metis snd_conv)
  have l: "acts looks s u \<and> kept conn c"
    if "generate_dir_listing cfg os conn p url t = (c, u)" for p c u
    using generate_dir_listing_fds [OF that] acts_trans [OF t] by (simp add: kept_def)
  from assms fe t l show ?thesis
    by (auto simp: choose_target_def Let_def split: if_splits prod.splits)
qed

lemma serve_target_opens:
  assumes "os_ok os"
  shows "case serve_target cfg os conn target ct s of (c', s') \<Rightarrow>
    (acts looks s s' \<and> kept (conn\<lparr>c_reply_fd := -1\<rparr>) c') \<or>
    (\<exists>fd. s' = emit (Opened target fd) s \<and> kept (conn\<lparr>c_reply_fd := fd\<rparr>) c' \<and> 0 \<le> fd)"
  using os_okD(2) [OF assms] acts_emit [of looks "Open_failed target" s]
  by (auto simp: serve_target_def Let_def looks_def split: sum.splits)

lemma process_get_opens:
  assumes "os_ok os" "c_reply_fd conn = -1" "process_get cfg os conn s = (c', s')"
  shows "opens conn s c' s'"
proof -
  let ?c = "strip_query conn"
  have k: "kept conn ?c" by simp
  have fd: "c_reply_fd ?c = -1" using k assms(2) by (simp add: kept_def)
  show ?thesis
  proof (cases "make_safe_url (normalize_path (urldecode (the (c_url ?c))))")
    case None
    with assms(3) k show ?thesis by (auto simp: process_get_def Let_def opens_def)
  next
    case (Some url)
    obtain r t where ct: "choose_target cfg os ?c url s = (r, t)" by fastforce
    note a = choose_target_fds [OF ct]
    consider "forward_to cfg ?c \<noteq> None \<or> want_hide_dotfiles cfg \<and> has_dotfile url"
      | "forward_to cfg ?c = None" "\<not> (want_hide_dotfiles cfg \<and> has_dotfile url)" by blast
    then show ?thesis
    proof cases
      case 1
      with assms(3) Some k show ?thesis by (auto simp: process_get_def Let_def opens_def split: option.splits)
    next
      case 2
      show ?thesis
      proof (cases r)
        case (Inl c)
        with assms(3) Some 2 ct have "(c', s') = (c, t)" by (auto simp: process_get_def Let_def)
        moreover have "kept conn c" using a Inl k by (simp add: kept_def)
        ultimately show ?thesis using a by (simp add: opens_def)
      next
        case (Inr p)
        obtain target ctype where p: "p = (target, ctype)" by fastforce
        have st: "serve_target cfg os ?c target ctype t = (c', s')"
          using assms(3) Some 2 ct Inr p by (auto simp: process_get_def Let_def)
        have u: "?c\<lparr>c_reply_fd := -1\<rparr> = ?c" using fd by simp
        have "kept (?c\<lparr>c_reply_fd := x\<rparr>) d = kept (conn\<lparr>c_reply_fd := x\<rparr>) d" for x d
          using k by (simp add: kept_def)
        with serve_target_opens [OF assms(1), where cfg = cfg and conn = ?c and target = target and ct = ctype and s = t, unfolded st] a k show ?thesis
          by (auto simp: opens_def u kept_def intro: acts_trans)
      qed
    qed
  qed
qed

lemma process_request_opens:
  assumes "os_ok os" "c_reply_fd conn = -1" "process_request cfg os conn s = (c', s')"
  shows "opens conn (s\<lparr>num_requests := num_requests s + 1\<rparr>) c' s'"
proof -
  obtain r d where p: "parse_request cfg conn = (r, d)" by fastforce
  note k = parse_request_kept [OF p]
  let ?s = "s\<lparr>num_requests := num_requests s + 1\<rparr>"
  have fd: "c_reply_fd d = -1" using k assms(2) by (simp add: kept_def)
  obtain c t where g: "process_get cfg os d ?s = (c, t)" by fastforce
  have "opens d ?s (c\<lparr>c_header_only := b, c_state := x, c_request := q\<rparr>) t"
    "opens d ?s (c\<lparr>c_state := x, c_request := q\<rparr>) t" for b x q
    using process_get_opens [OF assms(1) fd g] by (auto simp: opens_def)
  moreover have "opens d ?s e u \<Longrightarrow> opens conn ?s e u" for e u
    using k by (auto simp: opens_def kept_def)
  ultimately have o: "opens conn ?s (c\<lparr>c_header_only := b, c_state := x, c_request := q\<rparr>) t"
    "opens conn ?s (c\<lparr>c_state := x, c_request := q\<rparr>) t" for b x q by blast+
  from assms(3) g o k show ?thesis
    by (auto simp: process_request_def p Let_def opens_def split: if_splits)
qed

section \<open>Redirects repeat what the client sent\<close>

text \<open>The decoded URL goes into the Location header as it is: under \<^verbatim>\<open>--forward-all\<close> an encoded
  newline in the URL starts a header line of the client's choice.\<close>

definition asking :: "string \<Rightarrow> connection" where
  "asking url = (new_connection sample_server)\<lparr>c_socket := 5, c_state := RECV_REQUEST,
     c_method := Some ''GET'', c_url := Some url\<rparr>"

theorem forwarded_url_splits_header:
  "sublist (''Location: http://h/'' @ [LF] @ ''X-Injected: 1'' @ CRLF)
     (the (c_header (fst (process_get (sample_config\<lparr>forward_all_url := Some ''http://h''\<rparr>) os
        (asking ''/%0aX-Injected:%201'') s))))"
proof -
  let ?u = "''/'' @ [LF] @ ''X-Injected: 1''"
  let ?cfg = "sample_config\<lparr>forward_all_url := Some ''http://h''\<rparr>"
  let ?c = "asking ''/%0aX-Injected:%201''"
  have q: "strip_query ?c = ?c"
    by (simp add: strip_query_def asking_def)
  have d: "normalize_path (urldecode ''/%0aX-Injected:%201'') = ?u" by code_simp
  have "make_safe_url ?u = Some ?u" by (subst make_safe_url_safe_path) (simp, code_simp)
  then have m: "make_safe_url (normalize_path (urldecode (the (c_url (strip_query ?c))))) = Some ?u"
    unfolding q using d by (simp add: asking_def)
  have f: "forward_to ?cfg (strip_query ?c) = Some ''http://h''"
    by (simp add: forward_to_def sample_config_def Let_def)
  have g: "fst (process_get ?cfg os ?c s) = redirect ?cfg s (strip_query ?c) (''http://h'' @ ?u)"
    unfolding process_get_def Let_def m f by simp
  have "sublist (''Location: '' @ dest @ CRLF) (the (c_header (redirect cfg s c dest)))" for cfg c dest
  proof -
    have "\<exists>a b. the (c_header (redirect cfg s c dest)) = a @ (''Location: '' @ dest @ CRLF) @ b"
      unfolding redirect_def Let_def
      by (rule exI [of _ "''HTTP/1.1 301 Moved Permanently'' @ CRLF @ ''Date: '' @ rfc1123_date (now s) @ CRLF @ server_hdr cfg"])
        simp
    then show ?thesis unfolding sublist_def .
  qed
  from this [of "''http://h'' @ ?u" ?cfg "strip_query ?c"] show ?thesis unfolding g by simp
qed

text \<open>A directory is redirected to with the URL as it was sent, which can begin with two slashes and
  the name of another host.\<close>

theorem directory_redirect_leaves_site:
  "fst (process_get sample_config sample_os (asking ''//evil/../d'') s)
     = redirect sample_config (emit (Opened ''/w/d'' 8) s) ((asking ''//evil/../d'')\<lparr>c_reply_fd := 8\<rparr>) ''//evil/../d/''"
proof -
  let ?c = "asking ''//evil/../d''"
  have q: "strip_query ?c = ?c"
    by (simp add: strip_query_def asking_def)
  have d: "normalize_path (urldecode ''//evil/../d'') = ''//evil/../d''" by code_simp
  have "make_safe_url ''//evil/../d'' = Some ''/d''" by (subst make_safe_url_safe_path) (simp, code_simp)
  then have m: "make_safe_url (normalize_path (urldecode (the (c_url ?c)))) = Some ''/d''"
    using d by (simp add: asking_def)
  have k: "forward_map sample_config = []" "forward_all_url sample_config = None"
    "\<not> want_hide_dotfiles sample_config" "\<not> want_single_file sample_config" "wwwroot sample_config = ''/w''"
    by (simp_all only: sample_config_def config.simps not_False_eq_True)
  have o: "os_open sample_os ''/w/d'' = Inr 8"
    "os_fstat sample_os 8 = Inr \<lparr>st_mode = S_IFDIR, st_size = 0, st_mtime = 0\<rparr>"
    by (simp_all add: sample_os_def)
  have f: "forward_to sample_config ?c = None"
    by (simp add: forward_to_def k)
  have t: "choose_target sample_config sample_os ?c ''/d'' s
      = (Inr (''/w/d'', content_type sample_config ''/d''), s)"
    by (simp add: choose_target_def k)
  have u: "the (c_url (?c\<lparr>c_reply_fd := 8\<rparr>)) @ ''/'' = ''//evil/../d/''"
    by (simp add: asking_def)
  have "process_get sample_config sample_os ?c s
      = serve_target sample_config sample_os ?c ''/w/d'' (content_type sample_config ''/d'') s"
    unfolding process_get_def Let_def q m option.case f t prod.case sum.case
    by (simp only: k simp_thms if_False)
  also have "\<dots> = (redirect sample_config (emit (Opened ''/w/d'' 8) s) (?c\<lparr>c_reply_fd := 8\<rparr>) ''//evil/../d/'',
      emit (Opened ''/w/d'' 8) s)"
    unfolding serve_target_def Let_def o sum.case u by (simp add: k)
  finally show ?thesis by (simp only: fst_conv)
qed

end
