(* ===== verification/Poll.thy ===== *)
theory Poll
  imports ProcessGet
begin

text \<open>
  Receiving requests and sending replies: \<open>poll_recv_request\<close>, \<open>poll_send_header\<close> and
  \<open>poll_send_reply\<close>, the three handlers of the event loop, on the Linux build (with
  \<^verbatim>\<open>sendfile\<close>).  The lemmas show what goes onto the wire: the header and then the body, in
  order, each byte once, whatever the kernel makes of the calls.
\<close>

section \<open>The system calls\<close>

text \<open>An answer is taken from the script; when the script is used up a call would block.\<close>

definition sys_recv :: "nat \<Rightarrow> server \<Rightarrow> recv_result \<times> server" where
  "sys_recv bufsize s =
     (case recvs s of
        [] \<Rightarrow> (Recv_err EAGAIN, s)
      | Recv_err e # rs \<Rightarrow> (Recv_err e, s\<lparr>recvs := rs\<rparr>)
      | Recvd d # rs \<Rightarrow> (Recvd (take bufsize d), s\<lparr>recvs := rs\<rparr>))"

definition sys_send :: "fd \<Rightarrow> string \<Rightarrow> server \<Rightarrow> (errno + nat) \<times> server" where
  "sys_send sock bytes s =
     (case sends s of
        [] \<Rightarrow> (Inl EAGAIN, s)
      | Send_err e # rs \<Rightarrow> (Inl e, s\<lparr>sends := rs\<rparr>)
      | Sends n # rs \<Rightarrow>
          (let k = min n (length bytes)
           in (Inr k, emit (Sent sock (take k bytes)) (s\<lparr>sends := rs\<rparr>))))"

section \<open>Sending\<close>

text \<open>At most a megabyte per call; \<^verbatim>\<open>sendfile\<close> stops at the end of the file.\<close>

definition send_from_file :: "os \<Rightarrow> fd \<Rightarrow> fd \<Rightarrow> int \<Rightarrow> nat \<Rightarrow> server \<Rightarrow> (errno + nat) \<times> server" where
  "send_from_file os sock fd ofs len s =
     (let len = (if len > 2 ^ 20 then 2 ^ 20 else len)
      in sys_send sock (take len (drop (nat ofs) (os_data os fd))) s)"

text \<open>The test against \<^verbatim>\<open>SIZE_MAX\<close> never holds where \<^verbatim>\<open>size_t\<close> and \<^verbatim>\<open>off_t\<close> have 64 bits, so the
  length is cast.\<close>

definition poll_send_reply :: "os \<Rightarrow> connection \<Rightarrow> server \<Rightarrow> connection \<times> server" where
  "poll_send_reply os conn s =
     (let send_len = llu (c_reply_length conn - c_reply_sent conn);
          ofs = c_reply_start conn + c_reply_sent conn;
          (sent, s) =
            (if c_reply_type conn = Some REPLY_GENERATED then
               sys_send (c_socket conn) (take send_len (drop (nat ofs) (the (c_reply conn)))) s
             else send_from_file os (c_socket conn) (c_reply_fd conn) ofs send_len s);
          conn = conn\<lparr>c_last_active := now s\<rparr>
      in case sent of
          Inl e \<Rightarrow>
            (if e = EAGAIN then (conn, s) else (conn\<lparr>c_conn_close := True, c_state := DONE\<rparr>, s))
        | Inr n \<Rightarrow>
            (if n < 1 then (conn\<lparr>c_conn_close := True, c_state := DONE\<rparr>, s)
             else
               (let conn = conn\<lparr>c_reply_sent := c_reply_sent conn + int n,
                                c_total_sent := c_total_sent conn + int n\<rparr>;
                    s = s\<lparr>total_out := total_out s + of_nat n\<rparr>
                in (if c_reply_sent conn = c_reply_length conn then conn\<lparr>c_state := DONE\<rparr> else conn, s))))"

definition poll_send_header :: "os \<Rightarrow> connection \<Rightarrow> server \<Rightarrow> connection \<times> server" where
  "poll_send_header os conn s =
     (let (sent, s) = sys_send (c_socket conn)
            (take (c_header_length conn - c_header_sent conn) (drop (c_header_sent conn) (the (c_header conn)))) s;
          conn = conn\<lparr>c_last_active := now s\<rparr>
      in case sent of
          Inl e \<Rightarrow>
            (if e = EAGAIN then (conn, s) else (conn\<lparr>c_conn_close := True, c_state := DONE\<rparr>, s))
        | Inr n \<Rightarrow>
            (if n < 1 then (conn\<lparr>c_conn_close := True, c_state := DONE\<rparr>, s)
             else
               (let conn = conn\<lparr>c_header_sent := c_header_sent conn + n,
                                c_total_sent := c_total_sent conn + int n\<rparr>;
                    s = s\<lparr>total_out := total_out s + of_nat n\<rparr>
                in if c_header_sent conn = c_header_length conn then
                     (if c_header_only conn then (conn\<lparr>c_state := DONE\<rparr>, s)
                      else poll_send_reply os (conn\<lparr>c_state := SEND_REPLY\<rparr>) s)
                   else (conn, s))))"

section \<open>Receiving\<close>

definition MAX_REQUEST_LENGTH :: nat where
  "MAX_REQUEST_LENGTH = 4000"

text \<open>\<^verbatim>\<open>memcmp\<close> with the last bytes of the request.\<close>

definition request_complete :: "string \<Rightarrow> bool" where
  "request_complete request \<longleftrightarrow>
     length request > 2 \<and> drop (length request - 2) request = [LF, LF] \<or>
     length request > 4 \<and> drop (length request - 4) request = CRLF @ CRLF"

text \<open>What is done with the bytes that arrive.  A request is answered in any case if it is too
  large, also one that has just been processed.\<close>

definition receive_bytes :: "config \<Rightarrow> os \<Rightarrow> connection \<Rightarrow> string \<Rightarrow> server \<Rightarrow> connection \<times> server" where
  "receive_bytes cfg os conn buf s =
     (let conn = conn\<lparr>c_last_active := now s\<rparr>;
          request = request_bytes conn @ buf;
          conn = conn\<lparr>c_request := Some request, c_request_length := c_request_length conn + length buf\<rparr>;
          s = s\<lparr>total_in := total_in s + of_nat (length buf)\<rparr>;
          (conn, s) = (if request_complete request then process_request cfg os conn s else (conn, s));
          conn = (if c_request_length conn > MAX_REQUEST_LENGTH then
            (default_reply cfg s conn 413 ''Request Entity Too Large''
               ''Your request was dropped because it was too long.'')\<lparr>c_state := SEND_HEADER\<rparr>
            else conn)
      in (conn, s))"

definition poll_recv_request :: "config \<Rightarrow> os \<Rightarrow> connection \<Rightarrow> server \<Rightarrow> connection \<times> server" where
  "poll_recv_request cfg os conn s =
     (let (recvd, s) = sys_recv (2 ^ 15) s in
      if recvd = Recv_err EAGAIN then (conn, s)
      else case recvd of
          Recv_err e \<Rightarrow> (conn\<lparr>c_conn_close := True, c_state := DONE\<rparr>, s)
        | Recvd buf \<Rightarrow>
            (if length buf < 1 then (conn\<lparr>c_conn_close := True, c_state := DONE\<rparr>, s)
             else
               (let (conn, s) = receive_bytes cfg os conn buf s
                in if c_state conn = SEND_HEADER then poll_send_header os conn s else (conn, s))))"

section \<open>What is sent\<close>

text \<open>The bytes a reply consists of, and how many of them are out.\<close>

definition body :: "os \<Rightarrow> connection \<Rightarrow> string" where
  "body os conn =
     (if c_header_only conn then []
      else take (nat (c_reply_length conn)) (drop (nat (c_reply_start conn)) (reply_source os conn)))"

definition wire :: "os \<Rightarrow> connection \<Rightarrow> string" where
  "wire os conn = the (c_header conn) @ body os conn"

definition wire_sent :: "connection \<Rightarrow> nat" where
  "wire_sent conn = c_header_sent conn + nat (c_reply_sent conn)"

fun sent_bytes :: "fd \<Rightarrow> event \<Rightarrow> string" where
  "sent_bytes fd (Sent sock bytes) = (if sock = fd then bytes else [])"
| "sent_bytes fd _ = []"

definition sent_on :: "fd \<Rightarrow> event list \<Rightarrow> string" where
  "sent_on fd tr = concat (map (sent_bytes fd) tr)"

lemma sent_on_simps [simp]:
  "sent_on fd [] = []" "sent_on fd (a @ b) = sent_on fd a @ sent_on fd b"
  "sent_on fd (e # a) = sent_bytes fd e @ sent_on fd a"
  by (simp_all add: sent_on_def)

text \<open>A connection in the middle of its reply.\<close>

definition sending :: "os \<Rightarrow> connection \<Rightarrow> bool" where
  "sending os conn \<longleftrightarrow> sendable os conn \<and> c_total_sent conn = int (wire_sent conn) \<and>
     (c_state conn = SEND_HEADER \<and> c_header_sent conn < c_header_length conn \<and> c_reply_sent conn = 0 \<or>
      c_state conn = SEND_REPLY \<and> c_header_sent conn = c_header_length conn \<and> \<not> c_header_only conn)"

text \<open>\<open>k\<close> further bytes of the reply have been sent, and nothing else has happened.  If the reply
  is over, it is complete or a call has failed.\<close>

definition failed :: "send_result \<Rightarrow> bool" where
  "failed r \<longleftrightarrow> r = Sends 0 \<or> (\<exists>e. r = Send_err e \<and> e \<noteq> EAGAIN)"

definition progress :: "os \<Rightarrow> nat \<Rightarrow> connection \<Rightarrow> server \<Rightarrow> connection \<Rightarrow> server \<Rightarrow> bool" where
  "progress os k c s c' s' \<longleftrightarrow>
     (\<exists>st cc hs rs ts la. c' = c\<lparr>c_last_active := la, c_state := st, c_conn_close := cc, c_header_sent := hs,
        c_reply_sent := rs, c_total_sent := ts\<rparr> \<and> (cc \<noteq> c_conn_close c \<longrightarrow> cc \<and> st = DONE)) \<and>
     wire_sent c' = wire_sent c + k \<and> wire_sent c + k \<le> length (wire os c) \<and>
     (\<exists>evs used. s' = s\<lparr>trace := trace s @ evs, sends := sends s', total_out := total_out s + of_nat k\<rparr> \<and>
        sends s = used @ sends s' \<and>
        (\<forall>e \<in> set evs. \<exists>b. e = Sent (c_socket c) b) \<and>
        sent_on (c_socket c) evs = take k (drop (wire_sent c) (wire os c)) \<and>
        (sending os c' \<or> c_state c' = DONE \<and> c_total_sent c' = int (wire_sent c') \<and>
          (wire_sent c' = length (wire os c) \<or>
           c_conn_close c' \<and> ((\<exists>r \<in> set used. failed r) \<or> 2 ^ 64 \<le> c_reply_length c))))"


lemma sys_send_cases:
  assumes "sys_send sock bytes s = (r, s')"
  obtains (err) e used rest where "r = Inl e" "s' = s\<lparr>sends := rest\<rparr>" "sends s = used @ rest"
      "e = EAGAIN \<or> (\<exists>r \<in> set used. failed r)"
  | (ok) k used rest where "r = Inr k" "k \<le> length bytes"
      "s' = s\<lparr>trace := trace s @ [Sent sock (take k bytes)], sends := rest\<rparr>"
      "sends s = used @ rest" "k = 0 \<Longrightarrow> bytes = [] \<or> (\<exists>r \<in> set used. failed r)"
proof (cases "sends s")
  case Nil
  with assms err [of EAGAIN "[]" "[]"] show thesis by (simp add: sys_send_def)
next
  case (Cons x rs)
  show thesis
  proof (cases x)
    case (Send_err e)
    with assms Cons err [of e rs "[x]"] show thesis by (auto simp: sys_send_def failed_def)
  next
    case (Sends n)
    with assms Cons ok [of "min n (length bytes)" rs "[x]"] show thesis
      by (auto simp: sys_send_def failed_def emit_def Let_def min_def split: if_splits)
  qed
qed

lemma take_drop_append_body:
  assumes "j + k \<le> length b"
  shows "take k (drop (length h + j) (h @ b)) = take k (drop j b)"
  using assms by simp

lemma nat_plus_int [simp]: "0 \<le> x \<Longrightarrow> nat (x + int k) = nat x + k"
  by (simp add: nat_add_distrib)

lemma llu_le: "0 \<le> x \<Longrightarrow> llu x \<le> nat x"
  by (simp add: llu_def nat_mono zmod_le_nonneg_dividend)

lemma sent_body:
  assumes "sending os c" "c_state c = SEND_REPLY"
  shows "take (nat (c_reply_length c - c_reply_sent c))
      (drop (nat (c_reply_start c + c_reply_sent c)) (reply_source os c)) = drop (wire_sent c) (wire os c)"
    "length (wire os c) = c_header_length c + nat (c_reply_length c)"
    "wire_sent c = c_header_length c + nat (c_reply_sent c)" "nat (c_reply_sent c) \<le> nat (c_reply_length c)"
proof -
  from assms obtain h where h: "c_header c = Some h" "c_header_length c = length h" "c_header_sent c = length h"
    and r: "\<not> c_header_only c" "0 \<le> c_reply_start c" "0 \<le> c_reply_sent c" "c_reply_sent c \<le> c_reply_length c"
      "c_reply_start c + c_reply_length c \<le> int (length (reply_source os c))"
    by (auto simp: sending_def sendable_def)
  then have n: "nat (c_reply_start c + c_reply_sent c) = nat (c_reply_start c) + nat (c_reply_sent c)"
    "nat (c_reply_length c - c_reply_sent c) = nat (c_reply_length c) - nat (c_reply_sent c)"
    by (simp_all add: nat_add_distrib nat_diff_distrib)
  show "take (nat (c_reply_length c - c_reply_sent c))
      (drop (nat (c_reply_start c + c_reply_sent c)) (reply_source os c)) = drop (wire_sent c) (wire os c)"
    using h r n by (simp add: nat_add_distrib wire_def wire_sent_def body_def drop_take add.commute)
  show "length (wire os c) = c_header_length c + nat (c_reply_length c)"
    using h r by (simp add: wire_def body_def)
  show "wire_sent c = c_header_length c + nat (c_reply_sent c)" "nat (c_reply_sent c) \<le> nat (c_reply_length c)"
    using h r by (simp_all add: wire_sent_def nat_mono)
qed


text \<open>Both send loops: of the bytes that are left some are offered, and some of those are taken.\<close>

lemma prefix_of_take: "\<exists>m. take n (take k (xs :: 'a list)) = take m xs"
  by (auto simp: min_def intro: exI [of _ n] exI [of _ k])

lemma reply_offered:
  assumes "sending os c" "c_state c = SEND_REPLY"
  obtains m where "poll_send_reply os c s =
     (let (sent, s) = sys_send (c_socket c) (take m (drop (wire_sent c) (wire os c))) s;
          conn = c\<lparr>c_last_active := now s\<rparr>
      in case sent of
          Inl e \<Rightarrow> (if e = EAGAIN then (conn, s) else (conn\<lparr>c_conn_close := True, c_state := DONE\<rparr>, s))
        | Inr n \<Rightarrow>
            (if n < 1 then (conn\<lparr>c_conn_close := True, c_state := DONE\<rparr>, s)
             else
               (let conn = conn\<lparr>c_reply_sent := c_reply_sent conn + int n, c_total_sent := c_total_sent conn + int n\<rparr>;
                    s = s\<lparr>total_out := total_out s + of_nat n\<rparr>
                in (if c_reply_sent conn = c_reply_length conn then conn\<lparr>c_state := DONE\<rparr> else conn, s))))"
    "llu (c_reply_length c - c_reply_sent c) > 0 \<Longrightarrow> m > 0"
proof -
  let ?n = "llu (c_reply_length c - c_reply_sent c)"
  let ?data = "drop (nat (c_reply_start c + c_reply_sent c)) (reply_source os c)"
  let ?k = "if c_reply_type c = Some REPLY_GENERATED then ?n else if ?n > 2 ^ 20 then 2 ^ 20 else ?n"
  have s: "0 \<le> c_reply_length c - c_reply_sent c" "c_reply_type c \<noteq> None"
    using assms by (auto simp: sending_def sendable_def)
  then have n: "?k \<le> nat (c_reply_length c - c_reply_sent c)" using llu_le [OF s(1)] by auto
  then have "take ?k ?data = take ?k (take (nat (c_reply_length c - c_reply_sent c)) ?data)"
    by (simp add: min_absorb1)
  also have "\<dots> = take ?k (drop (wire_sent c) (wire os c))" by (simp only: sent_body(1) [OF assms])
  finally have k: "take ?k ?data = take ?k (drop (wire_sent c) (wire os c))" .
  have src: "c_reply_type c = Some REPLY_GENERATED \<Longrightarrow> reply_source os c = the (c_reply c)"
    "c_reply_type c = Some REPLY_FROMFILE \<Longrightarrow> reply_source os c = os_data os (c_reply_fd c)"
    by (simp_all add: reply_source_def)
  show thesis
  proof (rule that [of ?k])
    show "?n > 0 \<Longrightarrow> ?k > 0" by simp
  next
    have "(if c_reply_type c = Some REPLY_GENERATED then
             sys_send (c_socket c) (take ?n (drop (nat (c_reply_start c + c_reply_sent c)) (the (c_reply c)))) s
           else send_from_file os (c_socket c) (c_reply_fd c) (c_reply_start c + c_reply_sent c) ?n s)
        = sys_send (c_socket c) (take ?k (drop (wire_sent c) (wire os c))) s"
    proof (cases "c_reply_type c = Some REPLY_GENERATED")
      case True
      then show ?thesis using k src(1) by simp
    next
      case False
      with s(2) have "c_reply_type c = Some REPLY_FROMFILE" using reply_type.exhaust by (cases "c_reply_type c") auto
      then show ?thesis using False k src(2) by (simp add: send_from_file_def Let_def)
    qed
    then show "poll_send_reply os c s = (let (sent, s) = sys_send (c_socket c) (take ?k (drop (wire_sent c) (wire os c))) s;
          conn = c\<lparr>c_last_active := now s\<rparr>
      in case sent of
          Inl e \<Rightarrow> (if e = EAGAIN then (conn, s) else (conn\<lparr>c_conn_close := True, c_state := DONE\<rparr>, s))
        | Inr n \<Rightarrow>
            (if n < 1 then (conn\<lparr>c_conn_close := True, c_state := DONE\<rparr>, s)
             else
               (let conn = conn\<lparr>c_reply_sent := c_reply_sent conn + int n, c_total_sent := c_total_sent conn + int n\<rparr>;
                    s = s\<lparr>total_out := total_out s + of_nat n\<rparr>
                in (if c_reply_sent conn = c_reply_length conn then conn\<lparr>c_state := DONE\<rparr> else conn, s))))"
      unfolding poll_send_reply_def Let_def by (simp only:)
  qed
qed


lemma reply_source_frame [simp]:
  "reply_source os (c\<lparr>c_last_active := x\<rparr>) = reply_source os c"
  "reply_source os (c\<lparr>c_state := st\<rparr>) = reply_source os c"
  "reply_source os (c\<lparr>c_conn_close := b\<rparr>) = reply_source os c"
  "reply_source os (c\<lparr>c_header_sent := n\<rparr>) = reply_source os c"
  "reply_source os (c\<lparr>c_reply_sent := i\<rparr>) = reply_source os c"
  "reply_source os (c\<lparr>c_total_sent := i\<rparr>) = reply_source os c"
  by (simp_all add: reply_source_def)

lemma wire_frame [simp]:
  "wire os (c\<lparr>c_last_active := x\<rparr>) = wire os c" "wire os (c\<lparr>c_state := st\<rparr>) = wire os c"
  "wire os (c\<lparr>c_conn_close := b\<rparr>) = wire os c" "wire os (c\<lparr>c_header_sent := n\<rparr>) = wire os c"
  "wire os (c\<lparr>c_reply_sent := i\<rparr>) = wire os c" "wire os (c\<lparr>c_total_sent := i\<rparr>) = wire os c"
  by (simp_all add: wire_def body_def)

lemma wire_sent_frame [simp]:
  "wire_sent (c\<lparr>c_last_active := x\<rparr>) = wire_sent c" "wire_sent (c\<lparr>c_state := st\<rparr>) = wire_sent c"
  "wire_sent (c\<lparr>c_conn_close := b\<rparr>) = wire_sent c" "wire_sent (c\<lparr>c_total_sent := i\<rparr>) = wire_sent c"
  by (simp_all add: wire_sent_def)

lemma wire_sent_if [simp]: "wire_sent (if b then c\<lparr>c_state := x\<rparr> else c) = wire_sent c"
  by simp

lemma progressI:
  assumes "c' = c\<lparr>c_last_active := la, c_state := st, c_conn_close := cc, c_header_sent := hs,
      c_reply_sent := rs, c_total_sent := ts\<rparr>" "cc \<noteq> c_conn_close c \<Longrightarrow> cc \<and> st = DONE"
    "s' = s\<lparr>trace := trace s @ evs, sends := rest, total_out := total_out s + of_nat k\<rparr>"
    "sends s = used @ rest" "evs = [] \<and> k = 0 \<or> evs = [Sent (c_socket c) (take k (drop (wire_sent c) (wire os c)))]"
    "wire_sent c' = wire_sent c + k" "wire_sent c + k \<le> length (wire os c)"
    "sending os c' \<or> st = DONE \<and> ts = int (wire_sent c') \<and>
      (wire_sent c' = length (wire os c) \<or>
       cc \<and> ((\<exists>r \<in> set used. failed r) \<or> 2 ^ 64 \<le> c_reply_length c))"
  shows "progress os k c s c' s'"
proof -
  have "(\<forall>e \<in> set evs. \<exists>b. e = Sent (c_socket c) b) \<and>
      sent_on (c_socket c) evs = take k (drop (wire_sent c) (wire os c))"
    using assms(5) by auto
  moreover have "sends s' = rest" "c_state c' = st" "c_total_sent c' = ts" "c_conn_close c' = cc"
    using assms(1,3) by simp_all
  moreover have "s' = s\<lparr>trace := trace s @ evs, sends := sends s', total_out := total_out s + of_nat k\<rparr>"
    using assms(3) by simp
  moreover have "\<exists>st cc hs rs ts la. c' = c\<lparr>c_last_active := la, c_state := st, c_conn_close := cc, c_header_sent := hs,
      c_reply_sent := rs, c_total_sent := ts\<rparr> \<and> (cc \<noteq> c_conn_close c \<longrightarrow> cc \<and> st = DONE)"
    by (intro exI conjI impI) (rule assms(1), use assms(2) in simp_all)
  ultimately show ?thesis using assms(4,6-8) unfolding progress_def
    by (intro conjI exI [of _ evs] exI [of _ used]) simp_all
qed

lemma sending_wire_sent_le: "sending os c \<Longrightarrow> wire_sent c \<le> length (wire os c)"
proof -
  assume s: "sending os c"
  show ?thesis
  proof (cases "c_state c = SEND_REPLY")
    case True
    with sent_body [OF s True] show ?thesis by simp
  next
    case False
    with s show ?thesis by (auto simp: sending_def sendable_def wire_def wire_sent_def)
  qed
qed

lemma progress_wait:
  assumes "sending os c" "s' = s\<lparr>sends := rest\<rparr>" "sends s = used @ rest"
  shows "progress os 0 c s (c\<lparr>c_last_active := x\<rparr>) s'"
proof (rule progressI [where evs = "[]" and used = used and rest = rest])
  show "c\<lparr>c_last_active := x\<rparr> = c\<lparr>c_last_active := x, c_state := c_state c, c_conn_close := c_conn_close c,
      c_header_sent := c_header_sent c, c_reply_sent := c_reply_sent c, c_total_sent := c_total_sent c\<rparr>" by simp
  have "sending os (c\<lparr>c_last_active := x\<rparr>)" using assms(1) by (simp add: sending_def sendable_def)
  then show "sending os (c\<lparr>c_last_active := x\<rparr>) \<or>
      c_state c = DONE \<and> c_total_sent c = int (wire_sent (c\<lparr>c_last_active := x\<rparr>)) \<and>
      (wire_sent (c\<lparr>c_last_active := x\<rparr>) = length (wire os c) \<or>
       c_conn_close c \<and> ((\<exists>r \<in> set used. failed r) \<or> 2 ^ 64 \<le> c_reply_length c))" ..
  show "s' = s\<lparr>trace := trace s @ [], sends := rest, total_out := total_out s + of_nat 0\<rparr>"
    using assms(2) by simp
  show "sends s = used @ rest" by (rule assms(3))
  show "wire_sent c + 0 \<le> length (wire os c)" using sending_wire_sent_le [OF assms(1)] by simp
qed simp_all

lemma progress_fail:
  assumes "sending os c" "s' = s\<lparr>trace := trace s @ evs, sends := rest\<rparr>" "sends s = used @ rest"
    "evs = [] \<or> evs = [Sent (c_socket c) []]"
    "wire_sent c = length (wire os c) \<or> (\<exists>r \<in> set used. failed r) \<or> 2 ^ 64 \<le> c_reply_length c"
  shows "progress os 0 c s (c\<lparr>c_last_active := x, c_conn_close := True, c_state := DONE\<rparr>) s'"
proof (rule progressI [where evs = evs and used = used and rest = rest])
  show "c\<lparr>c_last_active := x, c_conn_close := True, c_state := DONE\<rparr> = c\<lparr>c_last_active := x, c_state := DONE,
      c_conn_close := True, c_header_sent := c_header_sent c, c_reply_sent := c_reply_sent c,
      c_total_sent := c_total_sent c\<rparr>" by simp
  have "c_total_sent c = int (wire_sent c)" using assms(1) by (simp add: sending_def)
  with assms(5) show "sending os (c\<lparr>c_last_active := x, c_conn_close := True, c_state := DONE\<rparr>) \<or>
      DONE = DONE \<and> c_total_sent c = int (wire_sent (c\<lparr>c_last_active := x, c_conn_close := True, c_state := DONE\<rparr>)) \<and>
      (wire_sent (c\<lparr>c_last_active := x, c_conn_close := True, c_state := DONE\<rparr>) = length (wire os c) \<or>
       True \<and> ((\<exists>r \<in> set used. failed r) \<or> 2 ^ 64 \<le> c_reply_length c))" by simp
qed (use assms(2-4) sending_wire_sent_le [OF assms(1)] in simp_all)

lemma poll_send_reply_progress:
  assumes "sending os c" "c_state c = SEND_REPLY" "poll_send_reply os c s = (c', s')"
  shows "\<exists>k. progress os k c s c' s'"
proof -
  obtain m where poll: "poll_send_reply os c s =
     (let (sent, s) = sys_send (c_socket c) (take m (drop (wire_sent c) (wire os c))) s;
          conn = c\<lparr>c_last_active := now s\<rparr>
      in case sent of
          Inl e \<Rightarrow> (if e = EAGAIN then (conn, s) else (conn\<lparr>c_conn_close := True, c_state := DONE\<rparr>, s))
        | Inr n \<Rightarrow>
            (if n < 1 then (conn\<lparr>c_conn_close := True, c_state := DONE\<rparr>, s)
             else
               (let conn = conn\<lparr>c_reply_sent := c_reply_sent conn + int n, c_total_sent := c_total_sent conn + int n\<rparr>;
                    s = s\<lparr>total_out := total_out s + of_nat n\<rparr>
                in (if c_reply_sent conn = c_reply_length conn then conn\<lparr>c_state := DONE\<rparr> else conn, s))))"
    and m: "llu (c_reply_length c - c_reply_sent c) > 0 \<Longrightarrow> m > 0"
    using reply_offered [OF assms(1,2), of s] by blast
  let ?bytes = "take m (drop (wire_sent c) (wire os c))"
  obtain r t where st: "sys_send (c_socket c) ?bytes s = (r, t)" by fastforce
  from st show ?thesis
  proof (cases rule: sys_send_cases)
    case (err e used rest)
    have "progress os 0 c s (c\<lparr>c_last_active := now t\<rparr>) t" using assms(1) err by (intro progress_wait)
    moreover have "e \<noteq> EAGAIN \<Longrightarrow> progress os 0 c s (c\<lparr>c_last_active := now t, c_conn_close := True, c_state := DONE\<rparr>) t"
      using assms(1) err by (intro progress_fail [where evs = "[]" and used = used and rest = rest]) auto
    ultimately show ?thesis using assms(3) err by (auto simp: poll st Let_def split: if_splits)
  next
    case (ok k used rest)
    note sb = sent_body(2-4) [OF assms(1,2)]
    have k: "k \<le> nat (c_reply_length c) - nat (c_reply_sent c)" using ok(2) sb by simp
    show ?thesis
    proof (cases "k = 0")
      case True
      have "m = 0 \<Longrightarrow> wire_sent c = length (wire os c) \<or> 2 ^ 64 \<le> c_reply_length c"
      proof (rule ccontr)
        assume "m = 0" and n: "\<not> (wire_sent c = length (wire os c) \<or> 2 ^ 64 \<le> c_reply_length c)"
        have "0 \<le> c_reply_sent c" "c_reply_sent c \<noteq> c_reply_length c" "c_reply_sent c \<le> c_reply_length c"
          using n sb assms(1,2) by (auto simp: sending_def sendable_def)
        then have "llu (c_reply_length c - c_reply_sent c) = nat (c_reply_length c - c_reply_sent c)"
          "0 < nat (c_reply_length c - c_reply_sent c)" using n by (auto intro: llu_id)
        with m \<open>m = 0\<close> show False by simp
      qed
      with ok(5) True sending_wire_sent_le [OF assms(1)]
      have "wire_sent c = length (wire os c) \<or> (\<exists>r \<in> set used. failed r) \<or> 2 ^ 64 \<le> c_reply_length c"
        by auto
      then have "progress os 0 c s (c\<lparr>c_last_active := now t, c_conn_close := True, c_state := DONE\<rparr>) t"
        using assms(1) ok True by (intro progress_fail [where evs = "[Sent (c_socket c) []]" and used = used and rest = rest]) auto
      then show ?thesis using assms(3) ok(1) True by (auto simp: poll st Let_def)
    next
      case False
      let ?c = "c\<lparr>c_last_active := now t, c_reply_sent := c_reply_sent c + int k, c_total_sent := c_total_sent c + int k\<rparr>"
      let ?t = "t\<lparr>total_out := total_out t + of_nat k\<rparr>"
      let ?d = "if c_reply_sent ?c = c_reply_length c then ?c\<lparr>c_state := DONE\<rparr> else ?c"
      have r: "0 \<le> c_reply_sent c" "c_reply_sent c \<le> c_reply_length c" "c_total_sent c = int (wire_sent c)"
        using assms(1,2) by (auto simp: sending_def sendable_def)
      have le: "c_reply_sent c + int k \<le> c_reply_length c" using k r by linarith
      have w: "wire_sent ?c = wire_sent c + k" using r by (simp add: wire_sent_def)
      have "progress os k c s ?d ?t"
      proof (rule progressI [where used = used and rest = rest and evs = "[Sent (c_socket c) (take k ?bytes)]"])
        show "?d = c\<lparr>c_last_active := now t, c_state := (if c_reply_sent ?c = c_reply_length c then DONE else c_state c),
            c_conn_close := c_conn_close c, c_header_sent := c_header_sent c,
            c_reply_sent := c_reply_sent c + int k, c_total_sent := c_total_sent c + int k\<rparr>" by simp
        show "?t = s\<lparr>trace := trace s @ [Sent (c_socket c) (take k ?bytes)], sends := rest,
            total_out := total_out s + of_nat k\<rparr>" using ok(3) by simp
        show "sends s = used @ rest" by (rule ok(4))
        have "k \<le> m" using ok(2) by simp
        then have "take k ?bytes = take k (drop (wire_sent c) (wire os c))" by (simp add: min_absorb1)
        then show "[Sent (c_socket c) (take k ?bytes)] = [] \<and> k = 0 \<or> [Sent (c_socket c) (take k ?bytes)]
            = [Sent (c_socket c) (take k (drop (wire_sent c) (wire os c)))]" by simp
        show "wire_sent ?d = wire_sent c + k" by (simp only: wire_sent_if w)
        show "wire_sent c + k \<le> length (wire os c)" using ok(2) sending_wire_sent_le [OF assms(1)] by auto
        have "sending os ?c" if "c_reply_sent ?c \<noteq> c_reply_length c"
          using assms(1,2) le r w by (auto simp: sending_def sendable_def)
        moreover have "wire_sent c + k = length (wire os c)" if "c_reply_sent ?c = c_reply_length c"
          using that sb r by (simp add: nat_add_distrib flip: that)
        ultimately show "sending os ?d \<or> (if c_reply_sent ?c = c_reply_length c then DONE else c_state c) = DONE \<and>
            c_total_sent c + int k = int (wire_sent ?d) \<and>
            (wire_sent ?d = length (wire os c) \<or>
             c_conn_close c \<and> ((\<exists>r \<in> set used. failed r) \<or> 2 ^ 64 \<le> c_reply_length c))"
          unfolding wire_sent_if w by (cases "c_reply_sent ?c = c_reply_length c") 
            (simp_all only: if_True if_False r of_nat_add [symmetric] simp_thms)
      qed simp
      moreover have "(c', s') = (?d, ?t)" using assms(3) ok(1) False by (simp add: poll st Let_def)
      ultimately show ?thesis by auto
    qed
  qed
qed


lemma progress_frame:
  assumes "progress os k c s c' s'"
  shows "wire os c' = wire os c" "c_socket c' = c_socket c" "c_reply_length c' = c_reply_length c"
    "c_client c' = c_client c" "c_reply_fd c' = c_reply_fd c" "now s' = now s" "accepting s' = accepting s"
    "c_http_code c' = c_http_code c"
proof -
  from assms obtain st cc hs rs ts la where "c' = c\<lparr>c_last_active := la, c_state := st, c_conn_close := cc,
      c_header_sent := hs, c_reply_sent := rs, c_total_sent := ts\<rparr>"
    unfolding progress_def by blast
  then show "wire os c' = wire os c" "c_socket c' = c_socket c" "c_reply_length c' = c_reply_length c"
    "c_client c' = c_client c" "c_reply_fd c' = c_reply_fd c" "c_http_code c' = c_http_code c" by simp_all
  from assms obtain evs where "s' = s\<lparr>trace := trace s @ evs, sends := sends s', total_out := total_out s + of_nat k\<rparr>"
    unfolding progress_def by blast
  then have "now s' = now (s\<lparr>trace := trace s @ evs, sends := sends s', total_out := total_out s + of_nat k\<rparr>)"
    "accepting s' = accepting (s\<lparr>trace := trace s @ evs, sends := sends s', total_out := total_out s + of_nat k\<rparr>)"
    by (metis, metis)
  then show "now s' = now s" "accepting s' = accepting s" by simp_all
qed

lemma progress_trace:
  assumes "progress os k c s c' s'"
  shows "\<exists>e. trace s' = trace s @ e \<and> (\<forall>x \<in> set e. \<exists>b. x = Sent (c_socket c) b) \<and>
    sent_on (c_socket c) e = take k (drop (wire_sent c) (wire os c))"
proof -
  from assms obtain e where e: "s' = s\<lparr>trace := trace s @ e, sends := sends s', total_out := total_out s + of_nat k\<rparr>"
    "\<forall>x \<in> set e. \<exists>b. x = Sent (c_socket c) b"
    "sent_on (c_socket c) e = take k (drop (wire_sent c) (wire os c))"
    unfolding progress_def by blast
  from e(1) have "trace s' = trace (s\<lparr>trace := trace s @ e, sends := sends s', total_out := total_out s + of_nat k\<rparr>)"
    by (rule arg_cong)
  with e(2,3) show ?thesis by auto
qed

lemma take_drop_add: "take k (drop n xs) @ take l (drop (n + k) xs) = take (k + l) (drop n xs)"
  by (simp add: take_add drop_drop add.commute)

lemma progress_trans:
  assumes p: "progress os k c s c1 s1" and q: "progress os l c1 s1 c2 s2" and m: "sending os c1"
  shows "progress os (k + l) c s c2 s2"
proof -
  note f = progress_frame(1-3) [OF p]
  obtain st cc hs rs ts la where c1: "c1 = c\<lparr>c_last_active := la, c_state := st, c_conn_close := cc,
      c_header_sent := hs, c_reply_sent := rs, c_total_sent := ts\<rparr>" "cc \<noteq> c_conn_close c \<longrightarrow> cc \<and> st = DONE"
    using p unfolding progress_def by blast
  have cc: "cc = c_conn_close c" using c1 m by (auto simp: sending_def)
  obtain st2 cc2 hs2 rs2 ts2 la2 where c2: "c2 = c1\<lparr>c_last_active := la2, c_state := st2, c_conn_close := cc2,
      c_header_sent := hs2, c_reply_sent := rs2, c_total_sent := ts2\<rparr>" "cc2 \<noteq> c_conn_close c1 \<longrightarrow> cc2 \<and> st2 = DONE"
    using q unfolding progress_def by blast
  obtain e1 u1 where 1: "s1 = s\<lparr>trace := trace s @ e1, sends := sends s1, total_out := total_out s + of_nat k\<rparr>"
      "sends s = u1 @ sends s1" "\<forall>e \<in> set e1. \<exists>b. e = Sent (c_socket c) b"
      "sent_on (c_socket c) e1 = take k (drop (wire_sent c) (wire os c))"
    using p unfolding progress_def by blast
  obtain e2 u2 where 2: "s2 = s1\<lparr>trace := trace s1 @ e2, sends := sends s2, total_out := total_out s1 + of_nat l\<rparr>"
      "sends s1 = u2 @ sends s2" "\<forall>e \<in> set e2. \<exists>b. e = Sent (c_socket c) b"
      "sent_on (c_socket c) e2 = take l (drop (wire_sent c1) (wire os c))"
      "sending os c2 \<or> c_state c2 = DONE \<and> c_total_sent c2 = int (wire_sent c2) \<and>
          (wire_sent c2 = length (wire os c) \<or>
           c_conn_close c2 \<and> ((\<exists>r \<in> set u2. failed r) \<or> 2 ^ 64 \<le> c_reply_length c))"
    using q unfolding progress_def f by blast
  have w: "wire_sent c1 = wire_sent c + k" "wire_sent c2 = wire_sent c1 + l" "wire_sent c1 + l \<le> length (wire os c)"
    using p q unfolding progress_def f by blast+
  have "\<exists>st cc hs rs ts la. c2 = c\<lparr>c_last_active := la, c_state := st, c_conn_close := cc, c_header_sent := hs,
      c_reply_sent := rs, c_total_sent := ts\<rparr> \<and> (cc \<noteq> c_conn_close c \<longrightarrow> cc \<and> st = DONE)"
    by (rule exI [of _ st2], rule exI [of _ cc2], rule exI [of _ hs2], rule exI [of _ rs2], rule exI [of _ ts2],
        rule exI [of _ la2]) (use c2 c1(1) cc in auto)
  moreover have "wire_sent c2 = wire_sent c + (k + l)" "wire_sent c + (k + l) \<le> length (wire os c)"
    using w by simp_all
  moreover have "s2 = s\<lparr>trace := trace s @ (e1 @ e2), sends := sends s2, total_out := total_out s + of_nat (k + l)\<rparr>"
  proof -
    have "trace s1 = trace s @ e1" "total_out s1 = total_out s + of_nat k"
      by (subst 1(1), simp)+
    then have "s2 = s1\<lparr>trace := trace s @ (e1 @ e2), sends := sends s2, total_out := total_out s + of_nat (k + l)\<rparr>"
      using 2(1) by (simp add: add.assoc)
    moreover have "s1\<lparr>trace := x, sends := y, total_out := z\<rparr> = s\<lparr>trace := x, sends := y, total_out := z\<rparr>" for x y z
      by (subst 1(1)) simp
    ultimately show ?thesis by simp
  qed
  moreover have "sends s = (u1 @ u2) @ sends s2" using 1(2) 2(2) by simp
  moreover have "\<forall>e \<in> set (e1 @ e2). \<exists>b. e = Sent (c_socket c) b" using 1(3) 2(3) by auto
  moreover have "sent_on (c_socket c) (e1 @ e2) = take (k + l) (drop (wire_sent c) (wire os c))"
    using 1(4) 2(4) w(1) by (simp add: take_drop_add)
  moreover have "sending os c2 \<or> c_state c2 = DONE \<and> c_total_sent c2 = int (wire_sent c2) \<and>
          (wire_sent c2 = length (wire os c) \<or>
           c_conn_close c2 \<and> ((\<exists>r \<in> set (u1 @ u2). failed r) \<or> 2 ^ 64 \<le> c_reply_length c))"
    using 2(5) by auto
  ultimately show ?thesis unfolding progress_def by blast
qed


lemma sent_header:
  assumes "sending os c" "c_state c = SEND_HEADER"
  obtains h where "c_header c = Some h" "c_header_length c = length h" "c_header_sent c < length h"
    "wire_sent c = c_header_sent c" "wire os c = h @ body os c"
    "take n (drop (c_header_sent c) h) = take (min n (length h - c_header_sent c)) (drop (wire_sent c) (wire os c))"
proof -
  from assms obtain h where "c_header c = Some h" "c_header_length c = length h" "c_header_sent c < length h"
    "c_reply_sent c = 0" by (auto simp: sending_def sendable_def)
  then show thesis using that [of h] by (simp add: wire_def wire_sent_def min_def)
qed

lemma poll_send_header_progress:
  assumes "sending os c" "c_state c = SEND_HEADER" "poll_send_header os c s = (c', s')"
  shows "\<exists>k. progress os k c s c' s'"
proof -
  obtain h where h: "c_header c = Some h" "c_header_length c = length h" "c_header_sent c < length h"
    "wire_sent c = c_header_sent c" "wire os c = h @ body os c"
    using sent_header [OF assms(1,2)] by blast
  have r0: "c_reply_sent c = 0" and ts: "c_total_sent c = int (wire_sent c)"
    using assms(1,2) by (auto simp: sending_def)
  let ?bytes = "take (length h - c_header_sent c) (drop (c_header_sent c) h)"
  obtain r t where st: "sys_send (c_socket c) ?bytes s = (r, t)" by fastforce
  note poll = assms(3) [unfolded poll_send_header_def h(1,2) option.sel st Let_def prod.case]
  from st show ?thesis
  proof (cases rule: sys_send_cases)
    case (err e used rest)
    have "progress os 0 c s (c\<lparr>c_last_active := now t\<rparr>) t" using assms(1) err by (intro progress_wait)
    moreover have "e \<noteq> EAGAIN \<Longrightarrow> progress os 0 c s (c\<lparr>c_last_active := now t, c_conn_close := True, c_state := DONE\<rparr>) t"
      using assms(1) err by (intro progress_fail [where evs = "[]" and used = used and rest = rest]) auto
    ultimately show ?thesis using poll err by (auto split: if_splits)
  next
    case (ok k used rest)
    show ?thesis
    proof (cases "k = 0")
      case True
      then have "\<exists>r \<in> set used. failed r" using ok(5) h(3) by simp
      then have "progress os 0 c s (c\<lparr>c_last_active := now t, c_conn_close := True, c_state := DONE\<rparr>) t"
        using assms(1) ok True
        by (intro progress_fail [where evs = "[Sent (c_socket c) []]" and used = used and rest = rest]) auto
      then show ?thesis using poll ok(1) True by auto
    next
      case False
      let ?c = "c\<lparr>c_last_active := now t, c_header_sent := c_header_sent c + k, c_total_sent := c_total_sent c + int k\<rparr>"
      let ?t = "t\<lparr>total_out := total_out t + of_nat k\<rparr>"
      let ?st = "if c_header_sent c + k = length h then (if c_header_only c then DONE else SEND_REPLY) else SEND_HEADER"
      let ?d = "?c\<lparr>c_state := ?st\<rparr>"
      have w: "wire_sent ?d = wire_sent c + k" using r0 by (simp add: wire_sent_def)
      have k: "k \<le> length h - c_header_sent c" using ok(2) by simp
      have b: "body os c = [] \<or> \<not> c_header_only c" by (simp add: body_def)
      have snd: "sending os ?d" if "?st \<noteq> DONE"
        using assms(1,2) h k w ts r0 that by (auto simp: sending_def sendable_def split: if_splits)
      have pr: "progress os k c s ?d ?t"
      proof (rule progressI [where used = used and rest = rest and evs = "[Sent (c_socket c) (take k ?bytes)]"])
        show "?d = c\<lparr>c_last_active := now t, c_state := ?st, c_conn_close := c_conn_close c,
            c_header_sent := c_header_sent c + k, c_reply_sent := c_reply_sent c,
            c_total_sent := c_total_sent c + int k\<rparr>" by simp
        show "?t = s\<lparr>trace := trace s @ [Sent (c_socket c) (take k ?bytes)], sends := rest,
            total_out := total_out s + of_nat k\<rparr>" using ok(3) by simp
        show "sends s = used @ rest" by (rule ok(4))
        show "[Sent (c_socket c) (take k ?bytes)] = [] \<and> k = 0 \<or> [Sent (c_socket c) (take k ?bytes)]
            = [Sent (c_socket c) (take k (drop (wire_sent c) (wire os c)))]"
          using k h(3) by (simp add: h min_absorb1)
        show "wire_sent ?d = wire_sent c + k" by (rule w)
        show "wire_sent c + k \<le> length (wire os c)" using k h(3) by (simp add: h(4,5))
        have "wire_sent c + k = length (wire os c)" if "?st = DONE"
          using that b h by (auto split: if_splits)
        then have "wire_sent ?d = length (wire os c)" if "?st = DONE" using that unfolding w .
        moreover have "c_total_sent c + int k = int (wire_sent ?d)" unfolding w by (simp add: ts)
        ultimately show "sending os ?d \<or> ?st = DONE \<and> c_total_sent c + int k = int (wire_sent ?d) \<and>
            (wire_sent ?d = length (wire os c) \<or>
             c_conn_close c \<and> ((\<exists>r \<in> set used. failed r) \<or> 2 ^ 64 \<le> c_reply_length c))"
          using snd by blast
      qed simp
      show ?thesis
      proof (cases "?st = SEND_REPLY")
        case True
        then have "(c', s') = poll_send_reply os ?d ?t" using poll ok(1) False h(2) by (auto split: if_splits)
        moreover have "sending os ?d" "c_state ?d = SEND_REPLY" using snd True by simp_all
        ultimately obtain l where "progress os l ?d ?t c' s'"
          using poll_send_reply_progress [OF _ _ sym] by metis
        from progress_trans [OF pr this \<open>sending os ?d\<close>] show ?thesis ..
      next
        case False
        then have "(c', s') = (?d, ?t)"
          using poll ok(1) \<open>k \<noteq> 0\<close> h(2) assms(2) by (cases "c_header_sent c + k = length h") (auto split: if_splits)
        with pr show ?thesis by auto
      qed
    qed
  qed
qed


section \<open>The whole reply\<close>

definition poll_send :: "os \<Rightarrow> connection \<Rightarrow> server \<Rightarrow> connection \<times> server" where
  "poll_send os conn s =
     (case c_state conn of
        SEND_HEADER \<Rightarrow> poll_send_header os conn s
      | SEND_REPLY \<Rightarrow> poll_send_reply os conn s
      | _ \<Rightarrow> (conn, s))"

lemma poll_send_progress:
  assumes "sending os c" "poll_send os c s = (c', s')"
  shows "\<exists>k. progress os k c s c' s'"
proof -
  from assms(1) have "c_state c = SEND_HEADER \<or> c_state c = SEND_REPLY" by (auto simp: sending_def)
  with assms show ?thesis
    using poll_send_header_progress poll_send_reply_progress by (auto simp: poll_send_def)
qed

text \<open>The life of a reply: calls of the send handlers, with anything in between that does not send
  on this socket (other connections, the clock, accepting).\<close>

inductive delivering :: "os \<Rightarrow> connection \<Rightarrow> server \<Rightarrow> connection \<Rightarrow> server \<Rightarrow> bool" for os c s where
  start: "delivering os c s c s"
| send: "delivering os c s c1 s1 \<Longrightarrow> c_state c1 \<noteq> DONE \<Longrightarrow> poll_send os c1 s1 = (c2, s2) \<Longrightarrow>
    delivering os c s c2 s2"
| other: "delivering os c s c1 s1 \<Longrightarrow>
    sent_on (c_socket c) (trace s2) = sent_on (c_socket c) (trace s1) \<Longrightarrow> delivering os c s c1 s2"

definition delivered :: "os \<Rightarrow> connection \<Rightarrow> server \<Rightarrow> connection \<Rightarrow> server \<Rightarrow> bool" where
  "delivered os c s c' s' \<longleftrightarrow> wire os c' = wire os c \<and> c_socket c' = c_socket c \<and>
     c_reply_length c' = c_reply_length c \<and>
     c_total_sent c' = int (wire_sent c') \<and> wire_sent c \<le> wire_sent c' \<and> wire_sent c' \<le> length (wire os c) \<and>
     sent_on (c_socket c) (trace s') = sent_on (c_socket c) (trace s) @
       take (wire_sent c' - wire_sent c) (drop (wire_sent c) (wire os c)) \<and>
     (sending os c' \<or> c_state c' = DONE \<and> (c_conn_close c' \<or> wire_sent c' = length (wire os c)))"

lemma delivered_step:
  assumes d: "delivered os c s c1 s1" and m: "sending os c1" and p: "progress os k c1 s1 c2 s2"
  shows "delivered os c s c2 s2"
proof -
  note f = progress_frame(1-3) [OF p]
  from d have dd: "wire os c1 = wire os c" "c_socket c1 = c_socket c" "wire_sent c \<le> wire_sent c1"
      "sent_on (c_socket c) (trace s1) = sent_on (c_socket c) (trace s) @
         take (wire_sent c1 - wire_sent c) (drop (wire_sent c) (wire os c))"
    "c_reply_length c1 = c_reply_length c" by (auto simp: delivered_def)
  obtain e where e: "trace s2 = trace s1 @ e"
    "sent_on (c_socket c) e = take k (drop (wire_sent c1) (wire os c))"
    using progress_trace [OF p] unfolding dd by blast
  have w: "wire_sent c2 = wire_sent c1 + k" "wire_sent c1 + k \<le> length (wire os c)"
    and o: "sending os c2 \<or> c_state c2 = DONE \<and> c_total_sent c2 = int (wire_sent c2) \<and>
      (c_conn_close c2 \<or> wire_sent c2 = length (wire os c))"
    using p unfolding progress_def dd by blast+
  have "take (wire_sent c1 - wire_sent c) (drop (wire_sent c) (wire os c)) @ take k (drop (wire_sent c1) (wire os c))
      = take (wire_sent c2 - wire_sent c) (drop (wire_sent c) (wire os c))"
    using take_drop_add [of "wire_sent c1 - wire_sent c" "wire_sent c" "wire os c" k] dd(3) w(1) by simp
  then have "sent_on (c_socket c) (trace s2) = sent_on (c_socket c) (trace s) @
      take (wire_sent c2 - wire_sent c) (drop (wire_sent c) (wire os c))"
    by (simp add: e dd(4))
  moreover have "c_total_sent c2 = int (wire_sent c2)" using o by (auto simp: sending_def)
  ultimately show ?thesis using w dd f o by (auto simp: delivered_def)
qed

lemma delivering_delivered:
  assumes "delivering os c s c' s'" "sending os c"
  shows "delivered os c s c' s'"
  using assms
proof (induction rule: delivering.induct)
  case start
  then show ?case
    using sending_wire_sent_le [OF start] by (simp add: delivered_def) (simp add: sending_def)
next
  case (send c1 s1 c2 s2)
  then have d: "delivered os c s c1 s1" by blast
  with send.hyps(2) have "sending os c1" by (auto simp: delivered_def)
  with poll_send_progress [OF this send.hyps(3)] d show ?case using delivered_step by blast
qed (simp add: delivered_def)

text \<open>C28. Whatever the kernel does with the single calls and whatever happens in between, what a
  client receives on its socket is a prefix of the header followed by the body, each byte once and in
  order; a connection that is over without having to be closed (and so is used for the next
  request) has sent all of it, and the count that is logged is the number of bytes sent.\<close>

theorem reply_delivered:
  assumes "delivering os c s c' s'" "sending os c" "wire_sent c = 0"
  shows "sent_on (c_socket c) (trace s') = sent_on (c_socket c) (trace s) @ take (wire_sent c') (wire os c) \<and>
    c_total_sent c' = int (wire_sent c') \<and>
    (c_state c' = DONE \<longrightarrow> \<not> c_conn_close c' \<longrightarrow> wire_sent c' = length (wire os c))"
  using delivering_delivered [OF assms(1,2)] assms(3) by (auto simp: delivered_def sending_def)

definition replying_connection :: connection where
  "replying_connection = sample_connection\<lparr>c_state := SEND_HEADER, c_header := Some ''head'', c_header_length := 4,
     c_header_sent := 0, c_reply_type := Some REPLY_FROMFILE, c_reply_fd := 7, c_reply_start := 1,
     c_reply_length := 3, c_reply_sent := 0, c_total_sent := 0\<rparr>"

lemma sending_replying: "sending sample_os replying_connection"
  by (simp add: sending_def sendable_def replying_connection_def wire_sent_def reply_source_def sample_os_def)

theorem reply_delivered_witness:
  "\<exists>c s. delivering sample_os replying_connection
       (sample_server\<lparr>sends := [Sends 9, Sends 2, Send_err EAGAIN, Sends 7]\<rparr>) c s \<and>
     c_state c = DONE \<and> sent_on 5 (trace s) = ''headell''"
proof -
  let ?c = replying_connection
  let ?s = "sample_server\<lparr>sends := [Sends 9, Sends 2, Send_err EAGAIN, Sends 7]\<rparr>"
  note e = poll_send_def poll_send_header_def poll_send_reply_def sys_send_def send_from_file_def Let_def
    replying_connection_def sample_os_def llu_def emit_def
  have "llu 3 = 3" "llu 1 = 1" by (simp_all add: llu_def)
  let ?c1 = "?c\<lparr>c_last_active := 100, c_header_sent := 4, c_total_sent := 6, c_state := SEND_REPLY, c_reply_sent := 2\<rparr>"
  let ?s1 = "?s\<lparr>sends := [Send_err EAGAIN, Sends 7], trace := [Sent 5 ''head'', Sent 5 ''el''], total_out := 6\<rparr>"
  let ?s2 = "?s1\<lparr>sends := [Sends 7]\<rparr>"
  let ?c3 = "?c1\<lparr>c_total_sent := 7, c_reply_sent := 3, c_state := DONE\<rparr>"
  let ?s3 = "?s1\<lparr>sends := [], trace := [Sent 5 ''head'', Sent 5 ''el'', Sent 5 ''l''], total_out := 7\<rparr>"
  have p: "poll_send sample_os ?c ?s = (?c1, ?s1)" "poll_send sample_os ?c1 ?s1 = (?c1, ?s2)"
    "poll_send sample_os ?c1 ?s2 = (?c3, ?s3)"
    by (simp_all add: e sample_connection_def new_connection_def sample_server_def)
  have "delivering sample_os ?c ?s ?c1 ?s1"
    by (rule delivering.send [OF delivering.start _ p(1)]) (simp add: replying_connection_def)
  then have "delivering sample_os ?c ?s ?c1 ?s2" by (rule delivering.send [OF _ _ p(2)]) simp
  then have d: "delivering sample_os ?c ?s ?c3 ?s3" by (rule delivering.send [OF _ _ p(3)]) simp
  have "wire_sent ?c = 0" "c_socket ?c = 5" "c_conn_close ?c = False" "wire sample_os ?c = ''headell''"
    by (simp_all add: wire_sent_def wire_def body_def reply_source_def replying_connection_def
        sample_connection_def new_connection_def sample_os_def)
  with reply_delivered [OF d sending_replying] have "sent_on 5 (trace ?s3) = ''headell''"
    by (simp add: sample_server_def)
  with d show ?thesis by (intro exI [of _ ?c3] exI [of _ ?s3]) simp
qed


section \<open>Every reply ends\<close>

text \<open>A call that is answered moves the reply on, and takes at most two answers.\<close>

lemma sys_send_used: "length (sends s) \<le> Suc (length (sends (snd (sys_send sock bytes s))))"
  by (cases "sends s") (auto simp: sys_send_def Let_def emit_def split: send_result.splits)

lemma poll_send_reply_used: "length (sends s) \<le> Suc (length (sends (snd (poll_send_reply os c s))))"
proof -
  have "length (sends s) \<le> Suc (length (sends (snd (if c_reply_type c = Some REPLY_GENERATED
      then sys_send sock a s else send_from_file os sock fd ofs n s))))" for sock a fd ofs n
    using sys_send_used by (simp add: send_from_file_def Let_def)
  then show ?thesis
    by (auto simp: poll_send_reply_def Let_def split: prod.splits sum.splits) (metis snd_conv)+
qed

lemma poll_send_header_used: "length (sends s) \<le> Suc (Suc (length (sends (snd (poll_send_header os c s)))))"
proof -
  obtain r t where st: "sys_send (c_socket c)
      (take (c_header_length c - c_header_sent c) (drop (c_header_sent c) (the (c_header c)))) s = (r, t)"
    by fastforce
  then have "length (sends s) \<le> Suc (length (sends t))" using sys_send_used by (metis snd_conv)
  moreover have "length (sends t) \<le> Suc (length (sends (snd (poll_send_reply os d (t\<lparr>total_out := x\<rparr>)))))" for d x
    using poll_send_reply_used [of "t\<lparr>total_out := x\<rparr>"] by simp
  ultimately show ?thesis
    unfolding poll_send_header_def st Let_def prod.case
    by (cases r) (auto intro: le_SucI order_trans)
qed

lemma poll_send_used: "length (sends s) \<le> length (sends (snd (poll_send os c s))) + 2"
  using poll_send_reply_used [of s os c] poll_send_header_used [of s os c]
  by (auto simp: poll_send_def split: conn_state.splits)

lemma sys_send_ready:
  assumes "sends s = Sends (Suc n) # rest"
  shows "\<exists>t. sys_send sock bytes s = (Inr (min (Suc n) (length bytes)), t)"
  using assms by (simp add: sys_send_def Let_def)

lemma poll_send_reply_moves:
  assumes "sending os c" "c_state c = SEND_REPLY" "sends s = Sends (Suc n) # rest"
    "poll_send_reply os c s = (c', s')"
  shows "c_state c' = DONE \<or> wire_sent c < wire_sent c'"
proof -
  obtain m where poll: "poll_send_reply os c s =
     (let (sent, s) = sys_send (c_socket c) (take m (drop (wire_sent c) (wire os c))) s;
          conn = c\<lparr>c_last_active := now s\<rparr>
      in case sent of
          Inl e \<Rightarrow> (if e = EAGAIN then (conn, s) else (conn\<lparr>c_conn_close := True, c_state := DONE\<rparr>, s))
        | Inr n \<Rightarrow>
            (if n < 1 then (conn\<lparr>c_conn_close := True, c_state := DONE\<rparr>, s)
             else
               (let conn = conn\<lparr>c_reply_sent := c_reply_sent conn + int n, c_total_sent := c_total_sent conn + int n\<rparr>;
                    s = s\<lparr>total_out := total_out s + of_nat n\<rparr>
                in (if c_reply_sent conn = c_reply_length conn then conn\<lparr>c_state := DONE\<rparr> else conn, s))))"
    using reply_offered [OF assms(1,2), of s] by blast
  let ?bytes = "take m (drop (wire_sent c) (wire os c))"
  obtain t where "sys_send (c_socket c) ?bytes s = (Inr (min (Suc n) (length ?bytes)), t)"
    using sys_send_ready [OF assms(3)] by blast
  moreover have "0 \<le> c_reply_sent c" using assms(1,2) by (auto simp: sending_def sendable_def)
  then have "wire_sent c < wire_sent (c\<lparr>c_last_active := x, c_reply_sent := c_reply_sent c + int k, c_total_sent := y\<rparr>)"
    if "k > 0" for x y k using that by (simp add: wire_sent_def)
  ultimately show ?thesis using assms(4) unfolding poll Let_def
    by (auto simp only: prod.case sum.case split: if_splits) (auto simp del: length_take)
qed


lemma poll_send_reply_mono: "wire_sent c \<le> wire_sent (fst (poll_send_reply os c s))"
  by (auto simp: poll_send_reply_def Let_def wire_sent_def nat_mono split: prod.splits sum.splits)

lemma poll_send_header_moves:
  assumes "sending os c" "c_state c = SEND_HEADER" "sends s = Sends (Suc n) # rest"
    "poll_send_header os c s = (c', s')"
  shows "c_state c' = DONE \<or> wire_sent c < wire_sent c'"
proof -
  obtain h where h: "c_header c = Some h" "c_header_length c = length h" "c_header_sent c < length h"
    using sent_header [OF assms(1,2)] by blast
  let ?bytes = "take (length h - c_header_sent c) (drop (c_header_sent c) h)"
  obtain k t where t: "sys_send (c_socket c) ?bytes s = (Inr k, t)" and k: "0 < k"
    using sys_send_ready [OF assms(3), of "c_socket c" ?bytes] h(3) by auto
  let ?c = "c\<lparr>c_last_active := now t, c_header_sent := c_header_sent c + k, c_total_sent := c_total_sent c + int k\<rparr>"
  have w: "wire_sent c < wire_sent ?c" using k by (simp add: wire_sent_def)
  then have "wire_sent c < wire_sent (fst (poll_send_reply os (?c\<lparr>c_state := SEND_REPLY\<rparr>) u))" for u
    using poll_send_reply_mono [of "?c\<lparr>c_state := SEND_REPLY\<rparr>" os u] by simp
  then have "wire_sent c < wire_sent c'" if "poll_send_reply os (?c\<lparr>c_state := SEND_REPLY\<rparr>) u = (c', s')" for u
    using that by (metis fst_conv)
  with assms(4) w k show ?thesis
    unfolding poll_send_header_def h(1,2) option.sel t Let_def prod.case sum.case
    by (auto split: if_splits)
qed

lemma poll_send_moves:
  assumes "sending os c" "sends s = Sends (Suc n) # rest" "poll_send os c s = (c', s')"
  shows "c_state c' = DONE \<or> wire_sent c < wire_sent c'"
  using assms poll_send_header_moves [OF assms(1) _ assms(2)] poll_send_reply_moves [OF assms(1) _ assms(2)]
  by (auto simp: poll_send_def sending_def)

definition poll_send_pair :: "os \<Rightarrow> connection \<times> server \<Rightarrow> connection \<times> server" where
  "poll_send_pair os = (\<lambda>(c, s). poll_send os c s)"

lemma poll_send_finishes:
  assumes "sending os c" "\<forall>r \<in> set (sends s). \<exists>n. r = Sends (Suc n)"
    "2 * (length (wire os c) - wire_sent c) < length (sends s)" "c_reply_length c < 2 ^ 64"
  shows "\<exists>n c' s'. n \<le> Suc (length (wire os c) - wire_sent c) \<and>
    (poll_send_pair os ^^ n) (c, s) = (c', s') \<and> c_state c' = DONE \<and> wire_sent c' = length (wire os c)"
  using assms
proof (induction "length (wire os c) - wire_sent c" arbitrary: c s rule: less_induct)
  case less
  obtain c1 s1 where 1: "poll_send os c s = (c1, s1)" by fastforce
  obtain k where p: "progress os k c s c1 s1" using poll_send_progress [OF less.prems(1) 1] by blast
  note f = progress_frame(1-3) [OF p]
  from less.prems(2,3) obtain n rest where r: "sends s = Sends (Suc n) # rest"
    by (cases "sends s") auto
  obtain used where used: "sends s = used @ sends s1"
    and o: "sending os c1 \<or> c_state c1 = DONE \<and> (wire_sent c1 = length (wire os c) \<or>
           (\<exists>r \<in> set used. failed r) \<or> 2 ^ 64 \<le> c_reply_length c)"
    using p unfolding progress_def by blast
  have good: "\<forall>r \<in> set used. \<not> failed r" "\<forall>r \<in> set (sends s1). \<exists>n. r = Sends (Suc n)"
    using less.prems(2) used by (auto simp: failed_def)
  show ?case
  proof (cases "c_state c1 = DONE")
    case True
    with o good(1) less.prems(4) have "wire_sent c1 = length (wire os c)" by (auto simp: sending_def)
    then show ?thesis using 1 True by (intro exI [of _ 1] exI [of _ c1] exI [of _ s1]) (simp add: poll_send_pair_def)
  next
    case False
    with o have s: "sending os c1" by blast
    from poll_send_moves [OF less.prems(1) r 1] False have w: "wire_sent c < wire_sent c1" by blast
    note le = sending_wire_sent_le [OF s, unfolded f]
    have "length (sends s) \<le> length (sends s1) + 2" using poll_send_used [of s os c] 1 by simp
    then have "2 * (length (wire os c1) - wire_sent c1) < length (sends s1)"
      using w le less.prems(3) by (simp add: f)
    moreover have "length (wire os c1) - wire_sent c1 < length (wire os c) - wire_sent c" using w le by (simp add: f)
    ultimately obtain n c' s' where n: "n \<le> Suc (length (wire os c) - wire_sent c1)"
      "(poll_send_pair os ^^ n) (c1, s1) = (c', s')" "c_state c' = DONE" "wire_sent c' = length (wire os c)"
      using less.hyps [of c1 s1] s good(2) less.prems(4) f by auto
    then have "(poll_send_pair os ^^ Suc n) (c, s) = (c', s')"
      using 1 n(2) by (simp only: funpow_Suc_right o_apply) (simp add: poll_send_pair_def)
    moreover have "Suc n \<le> Suc (length (wire os c) - wire_sent c)" using n(1) w le by simp
    ultimately show ?thesis using n(3,4) by blast
  qed
qed

text \<open>C29. Every reply ends: as long as the kernel takes at least one byte per call, after at most as
  many calls of the handlers as the reply has bytes (and one more for an empty body) all of it
  has been sent and the connection is done.\<close>

theorem reply_completes:
  assumes "sending os c" "wire_sent c = 0" "c_reply_length c < 2 ^ 64"
    "\<forall>r \<in> set (sends s). \<exists>n. r = Sends (Suc n)" "2 * length (wire os c) < length (sends s)"
  shows "\<exists>n \<le> Suc (length (wire os c)). \<exists>c' s'. (poll_send_pair os ^^ n) (c, s) = (c', s') \<and>
    c_state c' = DONE \<and> wire_sent c' = length (wire os c)"
  using poll_send_finishes [OF assms(1,4) _ assms(3)] assms(2,5) by fastforce

theorem reply_completes_witness:
  "\<exists>n \<le> 8. c_state (fst ((poll_send_pair sample_os ^^ n)
     (replying_connection, sample_server\<lparr>sends := replicate 15 (Sends 1)\<rparr>))) = DONE"
proof -
  let ?s = "sample_server\<lparr>sends := replicate 15 (Sends 1)\<rparr>"
  have w: "wire_sent replying_connection = 0" "wire sample_os replying_connection = ''headell''"
    "c_reply_length replying_connection < 2 ^ 64"
    by (simp_all add: wire_sent_def wire_def body_def reply_source_def replying_connection_def
        sample_connection_def new_connection_def sample_os_def)
  have g: "\<forall>r \<in> set (sends ?s). \<exists>n. r = Sends (Suc n)" by simp
  have len: "length (wire sample_os replying_connection) = 7" "length (sends ?s) = 15"
    unfolding w(2) by simp_all
  then obtain n c' s' where n: "n \<le> Suc 7" "(poll_send_pair sample_os ^^ n) (replying_connection, ?s) = (c', s')"
    "c_state c' = DONE"
    using reply_completes [OF sending_replying w(1,3) g] by fastforce
  then show ?thesis by (intro exI [of _ n]) simp
qed


section \<open>Requests as they arrive\<close>

definition receiving :: "connection \<Rightarrow> bool" where
  "receiving conn \<longleftrightarrow> fresh conn \<and> c_state conn = RECV_REQUEST \<and> c_reply_fd conn = -1 \<and>
     c_request_length conn = length (request_bytes conn) \<and> c_request_length conn \<le> MAX_REQUEST_LENGTH"

text \<open>What the request is once \<open>buf\<close> has arrived.\<close>

definition appended :: "connection \<Rightarrow> string \<Rightarrow> server \<Rightarrow> connection" where
  "appended conn buf s = conn\<lparr>c_last_active := now s, c_request := Some (request_bytes conn @ buf),
     c_request_length := c_request_length conn + length buf\<rparr>"

definition counted :: "server \<Rightarrow> string \<Rightarrow> server" where
  "counted s buf = s\<lparr>total_in := total_in s + of_nat (length buf)\<rparr>"

lemma request_bytes_last_active [simp]: "request_bytes (c\<lparr>c_last_active := t\<rparr>) = request_bytes c"
  by (simp add: request_bytes_def)

lemma request_bytes_appended:
  "c_request_length c = length (request_bytes c) \<Longrightarrow> request_bytes (appended c buf s) = request_bytes c @ buf"
  by (simp add: appended_def request_bytes_def [of "c\<lparr>c_last_active := t, c_request := r, c_request_length := n\<rparr>" for t r n])

lemma receive_bytes_appended:
  "receive_bytes cfg os conn buf s =
     (let (conn, s) = (if request_complete (request_bytes conn @ buf)
            then process_request cfg os (appended conn buf s) (counted s buf)
            else (appended conn buf s, counted s buf));
          conn = (if c_request_length conn > MAX_REQUEST_LENGTH then
            (default_reply cfg s conn 413 ''Request Entity Too Large''
               ''Your request was dropped because it was too long.'')\<lparr>c_state := SEND_HEADER\<rparr>
            else conn)
      in (conn, s))"
  by (simp add: receive_bytes_def appended_def counted_def Let_def)

lemma process_request_frame:
  assumes "os_ok os" "c_reply_fd conn = -1" "process_request cfg os conn s = (c', s')"
  shows "c_request_length c' = c_request_length conn" "c_state c' = SEND_HEADER" "c_socket c' = c_socket conn"
proof -
  show "c_request_length c' = c_request_length conn" "c_socket c' = c_socket conn"
    using process_request_opens [OF assms] by (auto simp: opens_def kept_def)
  show "c_state c' = SEND_HEADER"
    using assms(3) by (auto simp: process_request_def Let_def split: prod.splits)
qed

lemma appended_simps [simp]:
  "c_request_length (appended c buf s) = c_request_length c + length buf" "c_state (appended c buf s) = c_state c"
  "c_reply_fd (appended c buf s) = c_reply_fd c" "c_socket (appended c buf s) = c_socket c"
  "fresh (appended c buf s) = fresh c"
  by (simp_all add: appended_def fresh_def)

lemma ready_sending:
  assumes "sendable os c" "c_header_sent c = 0" "c_reply_sent c = 0" "c_total_sent c = 0" "c_state c = SEND_HEADER"
  shows "sending os c \<and> wire_sent c = 0"
  using assms by (auto simp: sending_def sendable_def wire_sent_def)

text \<open>What a connection is after bytes have arrived: it waits for more, or its answer is ready.\<close>

lemma receive_bytes_ok:
  assumes "receiving c" "os_files_ok os" "receive_bytes cfg os c buf s = (c', s')"
  shows "receiving c' \<or> sending os c' \<and> c_state c' = SEND_HEADER \<and> wire_sent c' = 0"
    "c_request_length c' = c_request_length c + length buf"
    "c_request_length c' > MAX_REQUEST_LENGTH \<Longrightarrow> c_http_code c' = 413"
    "c_socket c' = c_socket c"
proof -
  have r: "fresh c" "c_state c = RECV_REQUEST" "c_reply_fd c = -1" "c_request_length c = length (request_bytes c)"
    using assms(1) by (simp_all add: receiving_def)
  have ok: "os_ok os" using assms(2) by (simp add: os_files_ok_def)
  obtain c1 s1 where cs: "(if request_complete (request_bytes c @ buf)
      then process_request cfg os (appended c buf s) (counted s buf) else (appended c buf s, counted s buf)) = (c1, s1)"
    by (cases "if request_complete (request_bytes c @ buf)
      then process_request cfg os (appended c buf s) (counted s buf) else (appended c buf s, counted s buf)")
  let ?big = "(default_reply cfg s1 c1 413 ''Request Entity Too Large''
               ''Your request was dropped because it was too long.'')\<lparr>c_state := SEND_HEADER\<rparr>"
  have res: "(c', s') = (if c_request_length c1 > MAX_REQUEST_LENGTH then ?big else c1, s1)"
    using assms(3) unfolding receive_bytes_appended Let_def cs prod.case by simp
  have c1: "c_request_length c1 = c_request_length c + length buf" "c_header_sent c1 = 0" "c_reply_sent c1 = 0"
    "c_total_sent c1 = 0" "c_socket c1 = c_socket c"
    "request_complete (request_bytes c @ buf) \<Longrightarrow> sendable os c1 \<and> c_state c1 = SEND_HEADER"
    "\<not> request_complete (request_bytes c @ buf) \<Longrightarrow> c1 = appended c buf s"
  proof -
    obtain d u where p: "process_request cfg os (appended c buf s) (counted s buf) = (d, u)" by fastforce
    have "fresh (appended c buf s)" "c_reply_fd (appended c buf s) = -1" using r by simp_all
    note f = process_request_frame [OF ok this(2) p] and d = process_request_sendable [OF this(1) assms(2), of cfg "counted s buf"]
    show "c_request_length c1 = c_request_length c + length buf" "c_header_sent c1 = 0" "c_reply_sent c1 = 0"
      "c_total_sent c1 = 0" "c_socket c1 = c_socket c"
      "request_complete (request_bytes c @ buf) \<Longrightarrow> sendable os c1 \<and> c_state c1 = SEND_HEADER"
      "\<not> request_complete (request_bytes c @ buf) \<Longrightarrow> c1 = appended c buf s"
      using f d r(1) p cs by (auto simp: fresh_def appended_def split: if_splits)
  qed
  have big: "sending os ?big \<and> wire_sent ?big = 0"
  proof (rule ready_sending)
    show "sendable os ?big" using c1(2,3)
      by (simp add: sendable_def reply_source_def) (simp add: default_reply_def Let_def)
  qed (use c1 in \<open>simp_all add: default_reply_def Let_def\<close>)
  show "receiving c' \<or> sending os c' \<and> c_state c' = SEND_HEADER \<and> wire_sent c' = 0"
  proof (cases "c_request_length c1 > MAX_REQUEST_LENGTH")
    case True
    with res big show ?thesis by simp
  next
    case False
    show ?thesis
    proof (cases "request_complete (request_bytes c @ buf)")
      case True
      then have "sending os c1 \<and> wire_sent c1 = 0" "c_state c1 = SEND_HEADER"
        using ready_sending [OF _ c1(2-4)] c1(6) by blast+
      with False res show ?thesis by simp
    next
      case nc: False
      with c1(1,7) False r have "receiving c1"
        by (simp add: receiving_def request_bytes_appended [OF r(4)])
      with res False show ?thesis by simp
    qed
  qed
  show "c_request_length c' = c_request_length c + length buf" "c_socket c' = c_socket c"
    "c_request_length c' > MAX_REQUEST_LENGTH \<Longrightarrow> c_http_code c' = 413"
    using res c1(1,5) by (auto simp: default_reply_def Let_def split: if_splits)
qed


definition conn_ok :: "os \<Rightarrow> connection \<Rightarrow> bool" where
  "conn_ok os c \<longleftrightarrow> receiving c \<or> sending os c \<or> c_state c = DONE"

lemma progress_conn_ok: "progress os k c s c' s' \<Longrightarrow> conn_ok os c'"
  unfolding progress_def conn_ok_def by blast

lemma progress_request_length: "progress os k c s c' s' \<Longrightarrow> c_request_length c' = c_request_length c"
  unfolding progress_def by auto

text \<open>The handler is what arrives, and then at once the send handler.\<close>

lemma sys_recv_cases:
  obtains (blocked) rs where "sys_recv n s = (Recv_err EAGAIN, s\<lparr>recvs := rs\<rparr>)"
  | (closed) r rs where "sys_recv n s = (r, s\<lparr>recvs := rs\<rparr>)" "r = Recvd [] \<or> (\<exists>e. r = Recv_err e \<and> e \<noteq> EAGAIN)"
  | (arrived) buf rs where "sys_recv n s = (Recvd buf, s\<lparr>recvs := rs\<rparr>)" "buf \<noteq> []" "length buf \<le> n"
proof (cases "recvs s")
  case Nil
  then show thesis using blocked [of "recvs s"] by (simp add: sys_recv_def)
next
  case (Cons r rs)
  show thesis
  proof (cases r)
    case (Recv_err e)
    with Cons show thesis using blocked closed by (cases "e = EAGAIN") (simp_all add: sys_recv_def)
  next
    case (Recvd d)
    show thesis
    proof (cases "take n d = []")
      case True
      with Cons Recvd show thesis using closed [of "Recvd []" rs] by (simp add: sys_recv_def)
    next
      case False
      then show thesis using Cons Recvd arrived [of "take n d" rs] by (auto simp: sys_recv_def)
    qed
  qed
qed

lemma poll_recv_request_cases:
  assumes "poll_recv_request cfg os c s = (c', s')"
  obtains (blocked) rs where "c' = c" "s' = s\<lparr>recvs := rs\<rparr>"
  | (closed) rs where "c' = c\<lparr>c_conn_close := True, c_state := DONE\<rparr>" "s' = s\<lparr>recvs := rs\<rparr>"
  | (arrived) buf rs c2 s2 where "buf \<noteq> []" "length buf \<le> 2 ^ 15"
      "receive_bytes cfg os c buf (s\<lparr>recvs := rs\<rparr>) = (c2, s2)"
      "(c', s') = (if c_state c2 = SEND_HEADER then poll_send_header os c2 s2 else (c2, s2))"
proof (rule sys_recv_cases [of "2 ^ 15" s])
  fix rs
  assume "sys_recv (2 ^ 15) s = (Recv_err EAGAIN, s\<lparr>recvs := rs\<rparr>)"
  with assms show thesis by (intro blocked [of rs]) (simp_all add: poll_recv_request_def)
next
  fix r rs
  assume "sys_recv (2 ^ 15) s = (r, s\<lparr>recvs := rs\<rparr>)" "r = Recvd [] \<or> (\<exists>e. r = Recv_err e \<and> e \<noteq> EAGAIN)"
  with assms show thesis by (intro closed [of rs]) (auto simp: poll_recv_request_def)
next
  fix buf rs
  assume a: "sys_recv (2 ^ 15) s = (Recvd buf, s\<lparr>recvs := rs\<rparr>)" "buf \<noteq> []" "length buf \<le> 2 ^ 15"
  obtain c2 s2 where "receive_bytes cfg os c buf (s\<lparr>recvs := rs\<rparr>) = (c2, s2)" by fastforce
  with a assms show thesis by (intro arrived [of buf rs]) (auto simp: poll_recv_request_def Let_def)
qed

lemma poll_recv_request_ok:
  assumes "receiving c" "os_files_ok os" "poll_recv_request cfg os c s = (c', s')"
  shows "conn_ok os c'" "c_socket c' = c_socket c" "c_request_length c' \<le> MAX_REQUEST_LENGTH + 2 ^ 15"
    "c_request_length c' > MAX_REQUEST_LENGTH \<Longrightarrow> c_http_code c' = 413"
    "c_state c' = RECV_REQUEST \<Longrightarrow> receiving c'"
proof -
  have le: "c_request_length c \<le> MAX_REQUEST_LENGTH" using assms(1) by (simp add: receiving_def)
  have "conn_ok os c' \<and> c_socket c' = c_socket c \<and> c_request_length c' \<le> MAX_REQUEST_LENGTH + 2 ^ 15 \<and>
    (c_request_length c' > MAX_REQUEST_LENGTH \<longrightarrow> c_http_code c' = 413)"
    using assms(3)
  proof (cases rule: poll_recv_request_cases)
    case blocked
    with assms(1) le show ?thesis by (simp add: conn_ok_def)
  next
    case closed
    with le show ?thesis by (simp add: conn_ok_def)
  next
    case (arrived buf rs c2 s2)
    note r = receive_bytes_ok [OF assms(1,2) arrived(3)]
    show ?thesis
    proof (cases "c_state c2 = SEND_HEADER")
      case False
      with r arrived le show ?thesis by (auto simp: conn_ok_def)
    next
      case True
      with r(1) have "sending os c2" by (auto simp: receiving_def)
      moreover from True arrived(4) have "poll_send_header os c2 s2 = (c', s')" by simp
      ultimately obtain k where p: "progress os k c2 s2 c' s'"
        using poll_send_header_progress True by blast
      from progress_conn_ok [OF p] progress_frame(2,8) [OF p] progress_request_length [OF p] r arrived(2) le
      show ?thesis by simp
    qed
  qed
  then show "conn_ok os c'" "c_socket c' = c_socket c" "c_request_length c' \<le> MAX_REQUEST_LENGTH + 2 ^ 15"
    "c_request_length c' > MAX_REQUEST_LENGTH \<Longrightarrow> c_http_code c' = 413"
    "c_state c' = RECV_REQUEST \<Longrightarrow> receiving c'"
    by (auto simp: conn_ok_def sending_def)
qed

text \<open>C31. A client cannot make the server hold more than 4000 bytes of a request and one buffer:
  what goes beyond 4000 bytes is answered with 413 and nothing more is read, and a connection
  that still waits for its request holds at most 4000 bytes of it.\<close>

theorem poll_recv_request_bounded:
  assumes "receiving c" "os_files_ok os" "poll_recv_request cfg os c s = (c', s')"
  shows "c_request_length c' \<le> MAX_REQUEST_LENGTH + 2 ^ 15 \<and>
    (c_request_length c' > MAX_REQUEST_LENGTH \<longrightarrow> c_http_code c' = 413 \<and> c_state c' \<noteq> RECV_REQUEST) \<and>
    (c_state c' = RECV_REQUEST \<longrightarrow> c_request_length c' = length (request_bytes c'))"
  using poll_recv_request_ok [OF assms] by (auto simp: receiving_def)

definition accepted_connection :: connection where
  "accepted_connection = (new_connection sample_server)\<lparr>c_socket := 5, c_state := RECV_REQUEST\<rparr>"

lemma receiving_accepted: "receiving accepted_connection"
  by (simp add: receiving_def accepted_connection_def new_connection_def fresh_def request_bytes_def)

lemma os_files_ok_sample: "os_files_ok sample_os"
  using os_ok_sample by (auto simp: os_files_ok_def) (auto simp: sample_os_def split: if_splits)

theorem poll_recv_request_bounded_witness:
  "\<exists>c s. poll_recv_request sample_config sample_os accepted_connection
       (sample_server\<lparr>recvs := [Recvd (replicate 5000 CR)]\<rparr>) = (c, s) \<and> c_http_code c = 413"
proof -
  let ?s = "sample_server\<lparr>recvs := [Recvd (replicate 5000 CR)]\<rparr>"
  let ?t = "?s\<lparr>recvs := []\<rparr>"
  obtain c s where p: "poll_recv_request sample_config sample_os accepted_connection ?s = (c, s)" by fastforce
  have r: "sys_recv (2 ^ 15) ?s = (Recvd (replicate 5000 CR), ?t)"
    by (simp add: sys_recv_def)
  obtain c2 s2 where b: "receive_bytes sample_config sample_os accepted_connection (replicate 5000 CR) ?t = (c2, s2)"
    by fastforce
  note ok = receive_bytes_ok [OF receiving_accepted os_files_ok_sample b]
  have len: "c_request_length c2 = 5000" using ok(2) by (simp add: accepted_connection_def new_connection_def)
  with ok(1) have s: "sending sample_os c2" "c_state c2 = SEND_HEADER"
    by (auto simp: receiving_def MAX_REQUEST_LENGTH_def)
  with p r b have "poll_send_header sample_os c2 s2 = (c, s)" by (simp add: poll_recv_request_def Let_def)
  with poll_send_header_progress [OF s] obtain k where "progress sample_os k c2 s2 c s" by blast
  with len have "c_request_length c > MAX_REQUEST_LENGTH"
    by (simp add: progress_request_length MAX_REQUEST_LENGTH_def)
  with poll_recv_request_bounded [OF receiving_accepted os_files_ok_sample p] p show ?thesis by blast
qed


text \<open>Splitting a request into packets.\<close>

lemma receive_bytes_partial:
  assumes "\<not> request_complete (request_bytes c @ buf)" "length (request_bytes c @ buf) \<le> MAX_REQUEST_LENGTH"
    "c_request_length c = length (request_bytes c)"
  shows "receive_bytes cfg os c buf s = (appended c buf s, counted s buf)"
  using assms by (simp add: receive_bytes_appended)

lemma receive_bytes_append:
  assumes "c_request_length c = length (request_bytes c)"
  shows "receive_bytes cfg os (appended c a s) b (counted s a) = receive_bytes cfg os c (a @ b) s"
proof -
  have "appended (appended c a s) b (counted s a) = appended c (a @ b) s"
    unfolding appended_def [of "appended c a s"] request_bytes_appended [OF assms]
    by (simp add: appended_def counted_def)
  moreover have "counted (counted s a) b = counted s (a @ b)" by (simp add: counted_def)
  ultimately show ?thesis
    unfolding receive_bytes_appended request_bytes_appended [OF assms] by simp
qed

definition poll_recv_pair :: "config \<Rightarrow> os \<Rightarrow> connection \<times> server \<Rightarrow> connection \<times> server" where
  "poll_recv_pair cfg os = (\<lambda>(c, s). poll_recv_request cfg os c s)"

lemma poll_recv_request_Recvd:
  assumes "buf \<noteq> []" "length buf \<le> 2 ^ 15"
  shows "poll_recv_request cfg os c (s\<lparr>recvs := Recvd buf # rs\<rparr>) =
    (let (c, s) = receive_bytes cfg os c buf (s\<lparr>recvs := rs\<rparr>)
     in if c_state c = SEND_HEADER then poll_send_header os c s else (c, s))"
  using assms by (simp add: poll_recv_request_def sys_recv_def Let_def)

lemma counted_recvs: "counted (s\<lparr>recvs := rs\<rparr>) a = (counted s a)\<lparr>recvs := rs\<rparr>"
  by (simp add: counted_def)

text \<open>Any step that calls the handler on a connection that receives, for one that only does so.\<close>

lemma receive_packets:
  fixes step :: "connection \<times> server \<Rightarrow> connection \<times> server"
  assumes calls: "\<And>c s. c_state c = RECV_REQUEST \<Longrightarrow> step (c, s) = poll_recv_request cfg os c s"
    and "c_request_length c = length (request_bytes c)" "c_state c = RECV_REQUEST" "bufs \<noteq> []"
    "\<forall>b \<in> set bufs. b \<noteq> []" "length (concat bufs) \<le> 2 ^ 15"
    "\<forall>i \<in> {1..<length bufs}. \<not> request_complete (request_bytes c @ concat (take i bufs)) \<and>
      length (request_bytes c @ concat (take i bufs)) \<le> MAX_REQUEST_LENGTH"
  shows "(step ^^ length bufs) (c, s\<lparr>recvs := map Recvd bufs @ rs\<rparr>) =
    poll_recv_request cfg os c (s\<lparr>recvs := Recvd (concat bufs) # rs\<rparr>)"
  using assms(2-)
proof (induction bufs arbitrary: c s)
  case (Cons b bs)
  show ?case
  proof (cases "bs = []")
    case True
    then show ?thesis using Cons.prems(2) by (simp add: calls)
  next
    case False
    have b: "b \<noteq> []" "length b \<le> 2 ^ 15" using Cons.prems(4,5) by auto
    have p: "\<not> request_complete (request_bytes c @ b)" "length (request_bytes c @ b) \<le> MAX_REQUEST_LENGTH"
      using bspec [OF Cons.prems(6), of 1] False by (cases bs; simp)+
    let ?c = "appended c b s" and ?s = "counted s b"
    have c: "c_request_length ?c = length (request_bytes ?c)"
      by (simp add: request_bytes_appended [OF Cons.prems(1)] Cons.prems(1))
    have first: "poll_recv_request cfg os c (s\<lparr>recvs := Recvd b # map Recvd bs @ rs\<rparr>)
        = (?c, ?s\<lparr>recvs := map Recvd bs @ rs\<rparr>)"
      using poll_recv_request_Recvd [OF b, of cfg os c "map Recvd bs @ rs" s]
        receive_bytes_partial [OF p Cons.prems(1), of cfg os "s\<lparr>recvs := map Recvd bs @ rs\<rparr>"] Cons.prems(2)
      by (simp add: counted_recvs) (simp add: appended_def)
    have pre: "\<forall>i \<in> {1..<length bs}. \<not> request_complete (request_bytes ?c @ concat (take i bs)) \<and>
        length (request_bytes ?c @ concat (take i bs)) \<le> MAX_REQUEST_LENGTH"
    proof
      fix i
      assume "i \<in> {1..<length bs}"
      with bspec [OF Cons.prems(6), of "Suc i"]
      show "\<not> request_complete (request_bytes ?c @ concat (take i bs)) \<and>
          length (request_bytes ?c @ concat (take i bs)) \<le> MAX_REQUEST_LENGTH"
        by (simp add: request_bytes_appended [OF Cons.prems(1)])
    qed
    have "(step ^^ length bs) (?c, ?s\<lparr>recvs := map Recvd bs @ rs\<rparr>)
        = poll_recv_request cfg os ?c (?s\<lparr>recvs := Recvd (concat bs) # rs\<rparr>)"
      using Cons.IH [OF c _ False _ _ pre] Cons.prems(2,4,5) by simp
    also have "\<dots> = poll_recv_request cfg os c (s\<lparr>recvs := Recvd (b @ concat bs) # rs\<rparr>)"
    proof -
      have l: "concat bs \<noteq> []" "length (concat bs) \<le> 2 ^ 15" "b @ concat bs \<noteq> []" "length (b @ concat bs) \<le> 2 ^ 15"
        using Cons.prems(4,5) False by (cases bs; simp)+
      have "receive_bytes cfg os ?c (concat bs) (?s\<lparr>recvs := rs\<rparr>) = receive_bytes cfg os c (b @ concat bs) (s\<lparr>recvs := rs\<rparr>)"
        using receive_bytes_append [OF Cons.prems(1), of cfg os b "s\<lparr>recvs := rs\<rparr>" "concat bs"]
        by (simp add: counted_recvs) (simp add: appended_def)
      then show ?thesis
        unfolding poll_recv_request_Recvd [OF l(1,2)] poll_recv_request_Recvd [OF l(3,4)] by simp
    qed
    finally show ?thesis
      using first calls [OF Cons.prems(2)] by (simp add: funpow_swap1 funpow_Suc_right del: funpow.simps)
  qed
qed simp

text \<open>C30. It does not matter how a request is cut into packets: as long as no part of it looks
  like a complete request, receiving the packets one by one gives the same connection, the same
  answer and the same state of the server as receiving all of it at once.\<close>

theorem request_segmentation:
  assumes "c_request_length c = length (request_bytes c)" "c_state c = RECV_REQUEST" "bufs \<noteq> []"
    "\<forall>b \<in> set bufs. b \<noteq> []" "length (concat bufs) \<le> 2 ^ 15"
    "\<forall>i \<in> {1..<length bufs}. \<not> request_complete (request_bytes c @ concat (take i bufs)) \<and>
      length (request_bytes c @ concat (take i bufs)) \<le> MAX_REQUEST_LENGTH"
  shows "(poll_recv_pair cfg os ^^ length bufs) (c, s\<lparr>recvs := map Recvd bufs @ rs\<rparr>) =
    poll_recv_request cfg os c (s\<lparr>recvs := Recvd (concat bufs) # rs\<rparr>)"
  using assms by (intro receive_packets) (simp_all add: poll_recv_pair_def)

theorem request_segmentation_witness:
  "(poll_recv_pair sample_config sample_os ^^ 3)
     (accepted_connection, sample_server\<lparr>recvs := [Recvd ''GET '', Recvd ''/d/f HT'', Recvd (''TP/1.1'' @ CRLF @ CRLF)]\<rparr>) =
   poll_recv_request sample_config sample_os accepted_connection
     (sample_server\<lparr>recvs := [Recvd (''GET /d/f HTTP/1.1'' @ CRLF @ CRLF)]\<rparr>)"
proof -
  let ?b = "[''GET '', ''/d/f HT'', ''TP/1.1'' @ CRLF @ CRLF]"
  have a: "request_bytes accepted_connection = []" "c_request_length accepted_connection = 0"
    "c_state accepted_connection = RECV_REQUEST"
    by (simp_all add: accepted_connection_def new_connection_def request_bytes_def)
  have "\<not> request_complete ''GET ''" "\<not> request_complete ''GET /d/f HT''" by code_simp+
  then have p: "\<forall>i \<in> {1..<length ?b}. \<not> request_complete (request_bytes accepted_connection @ concat (take i ?b)) \<and>
      length (request_bytes accepted_connection @ concat (take i ?b)) \<le> MAX_REQUEST_LENGTH"
    by (auto simp: a MAX_REQUEST_LENGTH_def numeral_3_eq_3 atLeastLessThanSuc)
  have "(poll_recv_pair sample_config sample_os ^^ length ?b)
      (accepted_connection, sample_server\<lparr>recvs := map Recvd ?b @ []\<rparr>) =
    poll_recv_request sample_config sample_os accepted_connection
      (sample_server\<lparr>recvs := Recvd (concat ?b) # []\<rparr>)"
    by (rule request_segmentation [OF _ a(3) _ _ _ p]) (simp_all add: a)
  then show ?thesis by (simp add: numeral_3_eq_3)
qed

end
