(* ===== verification/EventLoop.thy ===== *)
theory EventLoop
  imports Poll
begin

text \<open>
  The event loop: accepting connections, one iteration of \<open>httpd_poll\<close>, and the states the
  server can get into.  An iteration is given what \<^verbatim>\<open>select\<close>, \<^verbatim>\<open>time\<close> and \<^verbatim>\<open>accept\<close> answer;
  the connections are the list that \<open>connlist\<close> links (the links themselves are the
  subject of theory \<open>ConnList\<close>).
\<close>

section \<open>Accepting\<close>

text \<open>An address is 16 bytes under \<^verbatim>\<open>--ipv6\<close> and four otherwise.\<close>

datatype accept_result = Accept fd "8 word list" | Accept_err errno

definition nonblock_socket :: "os \<Rightarrow> fd \<Rightarrow> server \<Rightarrow> exit + server" where
  "nonblock_socket os sock s = (if os_fcntl os sock then Inr s else Inl (Exit 1))"

definition accept_connection ::
    "config \<Rightarrow> os \<Rightarrow> accept_result \<Rightarrow> connection list \<times> server \<Rightarrow> exit + (connection list \<times> server)" where
  "accept_connection cfg os res = (\<lambda>(conns, s).
     case res of
       Accept_err e \<Rightarrow> Inr (conns, if e = EMFILE \<or> e = ENFILE then s\<lparr>accepting := False\<rparr> else s)
     | Accept fd addr \<Rightarrow>
         (let s = emit (Accepted fd) s;
              conn = (new_connection s)\<lparr>c_socket := fd\<rparr> in
          case nonblock_socket os (c_socket conn) s of
            Inl e \<Rightarrow> Inl e
          | Inr s \<Rightarrow>
              (let conn = conn\<lparr>c_state := RECV_REQUEST\<rparr>;
                   conn = (if inet6 cfg then conn\<lparr>c_client := addr\<rparr>
                     else conn\<lparr>c_client := take 4 addr @ drop 4 (c_client conn)\<rparr>);
                   (conn, s) = poll_recv_request cfg os conn s
               in Inr (conn # conns, s))))"

section \<open>One iteration\<close>

text \<open>The descriptors that are ready, by direction; none at all is a time-out.\<close>

datatype select_result = Selected "fd list" "fd list" | Select_err errno

record wakeup =
  w_select :: select_result
  w_time :: int
  w_accept :: accept_result

definition recv_set :: "fd \<Rightarrow> connection list \<Rightarrow> server \<Rightarrow> fd list" where
  "recv_set sockin conns s =
     (if accepting s then [sockin] else []) @ map c_socket (filter (\<lambda>c. c_state c = RECV_REQUEST) conns)"

definition send_set :: "connection list \<Rightarrow> fd list" where
  "send_set conns = map c_socket (filter (\<lambda>c. c_state c = SEND_HEADER \<or> c_state c = SEND_REPLY) conns)"

text \<open>A set is an array of this many bits, in which \<^verbatim>\<open>FD_SET\<close> sets one without a test.\<close>

definition FD_SETSIZE :: int where
  "FD_SETSIZE = 1024"

text \<open>The set that was passed to \<^verbatim>\<open>select\<close>, after it has returned.\<close>

definition fd_isset :: "fd \<Rightarrow> fd list \<Rightarrow> fd list \<Rightarrow> bool" where
  "fd_isset fd given ready \<longleftrightarrow> fd \<in> set given \<and> fd \<in> set ready"

text \<open>One connection: its time-out, its handler, and the cleaning up if it is done.  \<open>None\<close> is a
  connection that has been removed and freed.\<close>

definition handle :: "config \<Rightarrow> os \<Rightarrow> bool \<Rightarrow> bool \<Rightarrow> connection \<Rightarrow> server \<Rightarrow> connection \<times> server" where
  "handle cfg os readable writable conn s =
     (case c_state conn of
        RECV_REQUEST \<Rightarrow> (if readable then poll_recv_request cfg os conn s else (conn, s))
      | SEND_HEADER \<Rightarrow> (if writable then poll_send_header os conn s else (conn, s))
      | SEND_REPLY \<Rightarrow> (if writable then poll_send_reply os conn s else (conn, s))
      | DONE \<Rightarrow> (conn, s))"

definition clean_up :: "config \<Rightarrow> os \<Rightarrow> connection \<Rightarrow> server \<Rightarrow> exit + (connection option \<times> server)" where
  "clean_up cfg os conn s =
     (if c_state conn = DONE then
        (if c_conn_close conn then
           (case free_connection cfg os conn s of Inl e \<Rightarrow> Inl e | Inr s \<Rightarrow> Inr (None, s))
         else
           (case recycle_connection cfg os conn s of Inl e \<Rightarrow> Inl e | Inr (conn, s) \<Rightarrow> Inr (Some conn, s)))
      else Inr (Some conn, s))"

definition poll_connection ::
    "config \<Rightarrow> os \<Rightarrow> (fd \<Rightarrow> bool) \<Rightarrow> (fd \<Rightarrow> bool) \<Rightarrow> connection \<Rightarrow> server \<Rightarrow> exit + (connection option \<times> server)" where
  "poll_connection cfg os readable writable conn s =
     (let conn = poll_check_timeout cfg s conn;
          (conn, s) = handle cfg os (readable (c_socket conn)) (writable (c_socket conn)) conn s
      in clean_up cfg os conn s)"

fun poll_connections ::
    "config \<Rightarrow> os \<Rightarrow> (fd \<Rightarrow> bool) \<Rightarrow> (fd \<Rightarrow> bool) \<Rightarrow> connection list \<Rightarrow> server \<Rightarrow> exit + (connection list \<times> server)" where
  "poll_connections cfg os readable writable [] s = Inr ([], s)"
| "poll_connections cfg os readable writable (conn # conns) s =
     (case poll_connection cfg os readable writable conn s of
        Inl e \<Rightarrow> Inl e
      | Inr (r, s) \<Rightarrow>
          (case poll_connections cfg os readable writable conns s of
             Inl e \<Rightarrow> Inl e
           | Inr (conns, s) \<Rightarrow> Inr ((case r of None \<Rightarrow> conns | Some conn \<Rightarrow> conn # conns), s)))"

definition httpd_poll ::
    "config \<Rightarrow> os \<Rightarrow> fd \<Rightarrow> wakeup \<Rightarrow> connection list \<times> server \<Rightarrow> exit + (connection list \<times> server)" where
  "httpd_poll cfg os sockin w = (\<lambda>(conns, s).
     let given_recv = recv_set sockin conns s;
         given_send = send_set conns;
         bother_with_timeout = list_ex (\<lambda>c. c_state c \<noteq> DONE) conns \<and> timeout_secs cfg \<noteq> 0
     in if list_ex (\<lambda>fd. FD_SETSIZE \<le> fd) (given_recv @ given_send) then Inl Fd_set_overflow
        else case w_select w of
          Select_err e \<Rightarrow> if e = EINTR then Inr (conns, s) else Inl (Exit 1)
        | Selected ready_recv ready_send \<Rightarrow>
            (if filter (\<lambda>fd. fd_isset fd given_recv ready_recv) given_recv = [] \<and>
                filter (\<lambda>fd. fd_isset fd given_send ready_send) given_send = [] \<and> \<not> bother_with_timeout
             then Inl (Exit 1)
             else
               (let s = s\<lparr>now := w_time w\<rparr> in
                case (if fd_isset sockin given_recv ready_recv
                      then accept_connection cfg os (w_accept w) (conns, s) else Inr (conns, s)) of
                  Inl e \<Rightarrow> Inl e
                | Inr (conns, s) \<Rightarrow>
                    poll_connections cfg os (\<lambda>fd. fd_isset fd given_recv ready_recv)
                      (\<lambda>fd. fd_isset fd given_send ready_send) conns s)))"


section \<open>Descriptors\<close>

definition opened :: "event list \<Rightarrow> fd list" where
  "opened tr = concat (map opened_fds tr)"

definition closed :: "event list \<Rightarrow> fd list" where
  "closed tr = concat (map closed_fds tr)"

lemma opened_closed_simps [simp]:
  "opened [] = []" "opened (a @ b) = opened a @ opened b" "opened (e # a) = opened_fds e @ opened a"
  "closed [] = []" "closed (a @ b) = closed a @ closed b" "closed (e # a) = closed_fds e @ closed a"
  by (simp_all add: opened_def closed_def)

text \<open>Between two states, what was held and what has been opened is what is held and what has been
  closed.\<close>

definition accounted :: "fd list \<Rightarrow> server \<Rightarrow> fd list \<Rightarrow> server \<Rightarrow> bool" where
  "accounted a s b s' \<longleftrightarrow> (\<exists>evs. trace s' = trace s @ evs \<and>
     mset a + mset (opened evs) = mset b + mset (closed evs))"

lemma balance_trans:
  fixes a :: "'a multiset"
  assumes "a + p = b + q" "b + r = c + t"
  shows "a + (p + r) = c + (q + t)"
proof -
  have "a + (p + r) = (a + p) + r" by (simp add: add.assoc)
  also have "\<dots> = (b + r) + q" by (simp add: assms(1) ac_simps)
  also have "\<dots> = c + (q + t)" by (simp add: assms(2) ac_simps)
  finally show ?thesis .
qed

lemma accounted_trans:
  assumes "accounted a s b t" "accounted b t c u"
  shows "accounted a s c u"
proof -
  from assms obtain e f where "trace t = trace s @ e" "trace u = trace t @ f"
    "mset a + mset (opened e) = mset b + mset (closed e)"
    "mset b + mset (opened f) = mset c + mset (closed f)"
    unfolding accounted_def by blast
  then have "trace u = trace s @ e @ f" "mset a + mset (opened (e @ f)) = mset c + mset (closed (e @ f))"
    using balance_trans by (simp, simp only: opened_closed_simps mset_append)
  then show ?thesis unfolding accounted_def by blast
qed

lemma accounted_frame: "accounted a s b s' \<Longrightarrow> accounted (x @ a) s (x @ b) s'"
  unfolding accounted_def by (auto simp: ac_simps)

lemma accounted_frame2: "accounted a s b s' \<Longrightarrow> accounted (a @ x) s (b @ x) s'"
  unfolding accounted_def by (auto simp: ac_simps)

lemma accounted_same: "trace s' = trace s \<Longrightarrow> accounted a s a s'"
  unfolding accounted_def by (rule exI [of _ "[]"]) simp

lemma accountedI:
  "trace s' = trace s @ evs \<Longrightarrow>
   mset a + mset (opened evs) = mset b + mset (closed evs) \<Longrightarrow>
   accounted a s b s'"
  unfolding accounted_def by blast

lemma silent_events:
  "\<forall>e \<in> set evs. opened_fds e = [] \<and> closed_fds e = [] \<Longrightarrow>
   opened evs = [] \<and> closed evs = []"
  by (simp add: opened_def closed_def)

lemma accounted_progress:
  assumes "progress os k c s c' s'"
  shows "accounted (held_fds c) s (held_fds c') s'"
proof -
  obtain e where "trace s' = trace s @ e" "\<forall>x \<in> set e. \<exists>b. x = Sent (c_socket c) b"
    using progress_trace [OF assms] by blast
  moreover from this(2) have "opened e = [] \<and> closed e = []"
    by (intro silent_events) auto
  moreover have "held_fds c' = held_fds c" using progress_frame(2,5) [OF assms] by (simp add: held_fds_def)
  ultimately show ?thesis by (intro accountedI) auto
qed

lemma accounted_opens:
  assumes "opens c s c' s'" "c_reply_fd c = -1"
  shows "accounted (held_fds c) s (held_fds c') s'"
proof -
  have l: "\<exists>e. trace t = trace s @ e \<and> opened e = [] \<and> closed e = []"
    if "acts looks s t" for t
  proof -
    from that obtain e where "t = s\<lparr>trace := trace s @ e\<rparr>" "\<forall>x \<in> set e. looks x" unfolding acts_def by blast
    moreover from this(2) have "opened e = [] \<and> closed e = []"
      by (intro silent_events) (auto simp: looks_def)
    ultimately show ?thesis by auto
  qed
  from assms(1) consider "acts looks s s'" "kept c c'"
    | t p fd where "acts looks s t" "s' = emit (Opened p fd) t" "kept (c\<lparr>c_reply_fd := fd\<rparr>) c'" "0 \<le> fd"
    unfolding opens_def by blast
  then show ?thesis
  proof cases
    case 1
    with l [of s'] show ?thesis unfolding accounted_def by (auto simp: held_fds_def kept_def)
  next
    case 2
    from l [OF 2(1)] obtain e where "trace t = trace s @ e" "opened e = []" "closed e = []"
      by blast
    then show ?thesis using 2 assms(2)
      by (intro accountedI [of _ _ "e @ [Opened p fd]"]) (auto simp: held_fds_def kept_def emit_def)
  qed
qed

lemma accounted_free:
  assumes "free_connection cfg os c s = Inr s'"
  shows "accounted (held_fds c) s [] s'"
proof -
  obtain logs where "trace s' = trace s @ logs @ map Closed (held_fds c)"
    "\<forall>e \<in> set logs. \<exists>l. e = Log l \<or> e = Bad_log l \<or> e = Syslog l"
    using free_connection_events [OF assms] by blast
  moreover from this(2) have "opened logs = [] \<and> closed logs = []"
    by (intro silent_events) auto
  moreover have "opened (map Closed fds) = []" "closed (map Closed fds) = fds" for fds
    by (induction fds) auto
  ultimately show ?thesis by (intro accountedI) auto
qed

lemma accounted_recycle:
  assumes "recycle_connection cfg os c s = Inr (c', s')"
  shows "accounted (held_fds c) s (held_fds c') s'"
proof -
  note r = recycle_connection_conn [OF assms]
  have "held_fds c = held_fds c' @ held_fds (c\<lparr>c_socket := -1\<rparr>)"
    by (simp add: r(1) held_fds_def new_connection_def)
  with accounted_frame [OF accounted_free [OF r(2)], of "held_fds c'"] show ?thesis by simp
qed


section \<open>The contract of a handler\<close>

lemma sys_send_now: "sys_send sock bytes s = (r, t) \<Longrightarrow> now t = now s"
  by (rule sys_send_cases) auto

lemma poll_send_reply_active:
  assumes "poll_send_reply os c s = (c', s')"
  shows "c_last_active c' = now s"
proof -
  obtain r t where st: "(if c_reply_type c = Some REPLY_GENERATED then
         sys_send (c_socket c) (take (llu (c_reply_length c - c_reply_sent c))
           (drop (nat (c_reply_start c + c_reply_sent c)) (the (c_reply c)))) s
       else send_from_file os (c_socket c) (c_reply_fd c) (c_reply_start c + c_reply_sent c)
         (llu (c_reply_length c - c_reply_sent c)) s) = (r, t)"
    by (meson surj_pair)
  then have "now t = now s"
    by (auto simp: send_from_file_def Let_def split: if_splits dest: sys_send_now)
  with assms show ?thesis
    unfolding poll_send_reply_def Let_def st prod.case by (auto split: sum.splits if_splits)
qed

lemma poll_send_header_active:
  assumes "poll_send_header os c s = (c', s')"
  shows "c_last_active c' = now s"
proof -
  obtain r t where st: "sys_send (c_socket c)
      (take (c_header_length c - c_header_sent c) (drop (c_header_sent c) (the (c_header c)))) s = (r, t)"
    by (meson surj_pair)
  then have t: "now t = now s" by (rule sys_send_now)
  with assms show ?thesis
    unfolding poll_send_header_def Let_def st prod.case
    by (auto split: sum.splits if_splits dest!: poll_send_reply_active)
qed

lemma opens_now: "opens c s c' s' \<Longrightarrow> now s' = now s \<and> c_last_active c' = c_last_active c"
  by (auto simp: opens_def acts_def kept_def emit_def)

text \<open>What a handler of the loop promises: on a connection it is meant for, it leaves one the loop
  can go on with, it accounts for descriptors, and it does not touch the clock.\<close>

locale poll_handler =
  fixes os :: os and meant :: "connection \<Rightarrow> bool" and handler :: "connection \<Rightarrow> server \<Rightarrow> connection \<times> server"
  assumes handled_ok: "meant c \<Longrightarrow> handler c s = (c', s') \<Longrightarrow> conn_ok os c'"
    and handled_fds: "meant c \<Longrightarrow> handler c s = (c', s') \<Longrightarrow> accounted (held_fds c) s (held_fds c') s'"
    and handled_time: "meant c \<Longrightarrow> handler c s = (c', s') \<Longrightarrow>
      now s' = now s \<and> (c_last_active c' = c_last_active c \<or> c_last_active c' = now s)"

text \<open>A connection the loop keeps.\<close>

definition live :: "os \<Rightarrow> connection \<Rightarrow> bool" where
  "live os c \<longleftrightarrow> receiving c \<or> sending os c"

lemma live_conn_ok: "live os c \<longleftrightarrow> conn_ok os c \<and> c_state c \<noteq> DONE"
  by (auto simp: live_def conn_ok_def receiving_def sending_def)

definition held_after :: "connection option \<Rightarrow> fd list" where
  "held_after r = (case r of None \<Rightarrow> [] | Some c \<Rightarrow> held_fds c)"

lemma receiving_recycled:
  assumes "recycle_connection cfg os c s = Inr (c', s')"
  shows "receiving c'"
  by (simp add: recycle_connection_conn(1) [OF assms] receiving_def fresh_def new_connection_def
      request_bytes_def)

lemma free_connection_now: "free_connection cfg os c s = Inr s' \<Longrightarrow> now s' = now s \<and> accepting s'"
proof -
  assume "free_connection cfg os c s = Inr s'"
  then have "s' = s\<lparr>trace := trace s', accepting := True\<rparr>" using free_connection_events by blast
  then have "now s' = now (s\<lparr>trace := trace s', accepting := True\<rparr>)"
    "accepting s' = accepting (s\<lparr>trace := trace s', accepting := True\<rparr>)" by (metis, metis)
  then show ?thesis by simp
qed

lemma clean_up_ok:
  assumes "conn_ok os c" "clean_up cfg os c s = Inr (r, s')"
  shows "accounted (held_fds c) s (held_after r) s'" "now s' = now s"
    "r = Some d \<Longrightarrow> live os d \<and> c_last_active d = c_last_active c"
proof -
  have "accounted (held_fds c) s (held_after r) s' \<and> now s' = now s \<and>
    (\<forall>d. r = Some d \<longrightarrow> live os d \<and> c_last_active d = c_last_active c)"
  proof (cases "c_state c = DONE")
    case False
    with assms show ?thesis
      by (auto simp: clean_up_def held_after_def live_conn_ok intro: accounted_same)
  next
    case True
    show ?thesis
    proof (cases "c_conn_close c")
      case close: True
      with True assms(2) have "r = None" "free_connection cfg os c s = Inr s'"
        by (auto simp: clean_up_def split: sum.splits)
      with accounted_free [OF this(2)] free_connection_now [OF this(2)] show ?thesis
        by (simp add: held_after_def)
    next
      case close: False
      with True assms(2) obtain d where d: "r = Some d" "recycle_connection cfg os c s = Inr (d, s')"
        by (auto simp: clean_up_def split: sum.splits)
      note n = recycle_connection_conn [OF d(2)]
      have "c_last_active d = c_last_active c" by (simp add: n(1))
      with accounted_recycle [OF d(2)] receiving_recycled [OF d(2)] d(1) free_connection_now [OF n(2)]
      show ?thesis by (simp add: held_after_def live_def)
    qed
  qed
  then show "accounted (held_fds c) s (held_after r) s'" "now s' = now s"
    "r = Some d \<Longrightarrow> live os d \<and> c_last_active d = c_last_active c" by blast+
qed


context poll_handler begin

text \<open>A handler followed by the cleaning up: the connection is gone, with nothing left open, or it
  is live, and then as active as it was or active now.\<close>

lemma handled_and_cleaned:
  assumes "meant c" "handler c s = (c1, s1)" "clean_up cfg os c1 s1 = Inr (r, s')"
  shows "accounted (held_fds c) s (held_after r) s'" "now s' = now s"
    "r = Some d \<Longrightarrow> live os d \<and> (c_last_active d = c_last_active c \<or> c_last_active d = now s)"
  using clean_up_ok [OF handled_ok [OF assms(1,2)] assms(3)] handled_fds [OF assms(1,2)]
    handled_time [OF assms(1,2)] by (auto intro: accounted_trans)

end

lemma held_fds_frame [simp]:
  "held_fds (default_reply cfg s c code name reason) = held_fds c" "held_fds (c\<lparr>c_state := x\<rparr>) = held_fds c"
  "held_fds (c\<lparr>c_conn_close := b\<rparr>) = held_fds c" "held_fds (appended c buf s) = held_fds c"
  "c_last_active (default_reply cfg s c code name reason) = c_last_active c"
  by (simp_all add: held_fds_def default_reply_def Let_def appended_def)

lemma receive_bytes_handler:
  assumes "os_ok os" "c_reply_fd c = -1" "receive_bytes cfg os c buf s = (c', s')"
  shows "accounted (held_fds c) s (held_fds c') s'" "now s' = now s \<and> c_last_active c' = now s"
proof -
  let ?a = "appended c buf s" and ?t = "counted s buf"
  obtain c1 s1 where cs: "(if request_complete (request_bytes c @ buf)
      then process_request cfg os ?a ?t else (?a, ?t)) = (c1, s1)"
    by (cases "if request_complete (request_bytes c @ buf) then process_request cfg os ?a ?t else (?a, ?t)")
  have a: "c_reply_fd ?a = -1" "c_last_active ?a = now s" "now ?t = now s" "trace ?t = trace s"
    using assms(2) by (simp_all add: appended_def counted_def)
  have "accounted (held_fds ?a) ?t (held_fds c1) s1 \<and> now s1 = now s \<and> c_last_active c1 = now s"
  proof (cases "request_complete (request_bytes c @ buf)")
    case True
    with cs have "process_request cfg os ?a ?t = (c1, s1)" by simp
    from process_request_opens [OF assms(1) a(1) this]
    have o: "opens ?a (?t\<lparr>num_requests := num_requests ?t + 1\<rparr>) c1 s1" .
    have "accounted (held_fds ?a) ?t (held_fds ?a) (?t\<lparr>num_requests := num_requests ?t + 1\<rparr>)"
      by (rule accounted_same) simp
    from accounted_trans [OF this accounted_opens [OF o a(1)]] opens_now [OF o] a show ?thesis by simp
  next
    case False
    with cs have "c1 = ?a" "s1 = ?t" by simp_all
    with a accounted_same [OF refl, of "held_fds ?a" ?t] show ?thesis by simp
  qed
  moreover have "accounted (held_fds c) s (held_fds ?a) ?t" using a by (simp add: accounted_same)
  moreover have "(c', s') = (if c_request_length c1 > MAX_REQUEST_LENGTH
      then (default_reply cfg s1 c1 413 ''Request Entity Too Large''
        ''Your request was dropped because it was too long.'')\<lparr>c_state := SEND_HEADER\<rparr> else c1, s1)"
    using assms(3) unfolding receive_bytes_appended Let_def cs prod.case by simp
  then have "held_fds c' = held_fds c1 \<and> c_last_active c' = c_last_active c1 \<and> s' = s1" by simp
  ultimately show "accounted (held_fds c) s (held_fds c') s'" "now s' = now s \<and> c_last_active c' = now s"
    using accounted_trans by (metis, simp)
qed

lemma poll_recv_request_handler:
  assumes "os_files_ok os" "receiving c" "poll_recv_request cfg os c s = (c', s')"
  shows "accounted (held_fds c) s (held_fds c') s'"
    "now s' = now s \<and> (c_last_active c' = c_last_active c \<or> c_last_active c' = now s)"
proof -
  have ok: "os_ok os" "c_reply_fd c = -1" using assms(1,2) by (simp_all add: os_files_ok_def receiving_def)
  have same: "accounted a s a (s\<lparr>recvs := rs\<rparr>)" for a rs by (rule accounted_same) simp
  have "accounted (held_fds c) s (held_fds c') s' \<and>
    now s' = now s \<and> (c_last_active c' = c_last_active c \<or> c_last_active c' = now s)"
    using assms(3)
  proof (cases rule: poll_recv_request_cases)
    case (blocked rs)
    with same show ?thesis by simp
  next
    case (closed rs)
    with same show ?thesis by simp
  next
    case (arrived buf rs c2 s2)
    note r = receive_bytes_handler [OF ok arrived(3)]
    have a: "accounted (held_fds c) s (held_fds c2) s2" by (rule accounted_trans [OF same r(1)])
    show ?thesis
    proof (cases "c_state c2 = SEND_HEADER")
      case False
      with arrived(4) r a show ?thesis by simp
    next
      case True
      have s: "sending os c2"
        using receive_bytes_ok(1) [OF assms(2,1) arrived(3)] True by (auto simp: receiving_def)
      from True arrived(4) have h: "poll_send_header os c2 s2 = (c', s')" by simp
      obtain k where p: "progress os k c2 s2 c' s'" using poll_send_header_progress [OF s True h] by blast
      from accounted_trans [OF a accounted_progress [OF p]] progress_frame(6) [OF p] poll_send_header_active [OF h] r
      show ?thesis by simp
    qed
  qed
  then show "accounted (held_fds c) s (held_fds c') s'"
    "now s' = now s \<and> (c_last_active c' = c_last_active c \<or> c_last_active c' = now s)" by blast+
qed

interpretation recv: poll_handler os "\<lambda>c. os_files_ok os \<and> receiving c" "poll_recv_request cfg os" for cfg os
  by unfold_locales (auto dest: poll_recv_request_ok(1) poll_recv_request_handler)

interpretation header: poll_handler os "\<lambda>c. sending os c \<and> c_state c = SEND_HEADER" "poll_send_header os" for os
  by unfold_locales (auto dest!: poll_send_header_progress dest: progress_conn_ok accounted_progress
      progress_frame(6) poll_send_header_active)

interpretation reply: poll_handler os "\<lambda>c. sending os c \<and> c_state c = SEND_REPLY" "poll_send_reply os" for os
  by unfold_locales (auto dest!: poll_send_reply_progress dest: progress_conn_ok accounted_progress
      progress_frame(6) poll_send_reply_active)

interpretation idle: poll_handler os "conn_ok os" Pair for os
  by unfold_locales (auto intro: accounted_same)


section \<open>One iteration keeps the connections in order\<close>

lemma poll_check_timeout_ok:
  assumes "conn_ok os c"
  shows "conn_ok os (poll_check_timeout cfg s c)" "held_fds (poll_check_timeout cfg s c) = held_fds c"
    "c_last_active (poll_check_timeout cfg s c) = c_last_active c" "c_socket (poll_check_timeout cfg s c) = c_socket c"
  using assms by (auto simp: poll_check_timeout_def conn_ok_def)

text \<open>A connection the time-out has not hit.\<close>

definition in_time :: "config \<Rightarrow> int \<Rightarrow> connection \<Rightarrow> bool" where
  "in_time cfg t c \<longleftrightarrow> timeout_secs cfg \<le> 0 \<or> t - c_last_active c < timeout_secs cfg"

lemma in_time_active:
  "in_time cfg t c \<Longrightarrow> c_last_active d = c_last_active c \<or> c_last_active d = t \<Longrightarrow> in_time cfg t d"
  by (auto simp: in_time_def)

lemma handle_and_clean:
  assumes "os_files_ok os" "conn_ok os c" "handle cfg os rd wr c s = (c1, s1)" "clean_up cfg os c1 s1 = Inr (r, s')"
  shows "accounted (held_fds c) s (held_after r) s' \<and> now s' = now s \<and>
    (\<forall>d. r = Some d \<longrightarrow> live os d \<and> (c_last_active d = c_last_active c \<or> c_last_active d = now s))"
proof -
  have idle: ?thesis if "(c1, s1) = (c, s)"
    using idle.handled_and_cleaned [OF assms(2) _ assms(4)] that by blast
  show ?thesis
  proof (cases "c_state c")
    case RECV_REQUEST
    with assms(2) have "receiving c" by (auto simp: conn_ok_def sending_def)
    with RECV_REQUEST assms idle recv.handled_and_cleaned [where cfg = cfg and os = os, OF _ _ assms(4)]
    show ?thesis by (cases rd) (auto simp: handle_def)
  next
    case SEND_HEADER
    with assms(2) have "sending os c" by (auto simp: conn_ok_def receiving_def)
    with SEND_HEADER assms idle header.handled_and_cleaned [where os = os, OF _ _ assms(4)]
    show ?thesis by (cases wr) (auto simp: handle_def)
  next
    case SEND_REPLY
    with assms(2) have "sending os c" by (auto simp: conn_ok_def receiving_def)
    with SEND_REPLY assms idle reply.handled_and_cleaned [where os = os, OF _ _ assms(4)]
    show ?thesis by (cases wr) (auto simp: handle_def)
  next
    case DONE
    with assms(3) idle show ?thesis by (simp add: handle_def)
  qed
qed

lemma poll_connection_ok:
  assumes "os_files_ok os" "conn_ok os c" "poll_connection cfg os rd wr c s = Inr (r, s')"
  shows "accounted (held_fds c) s (held_after r) s'" "now s' = now s"
    "r = Some d \<Longrightarrow> live os d \<and> in_time cfg (now s) d"
proof -
  let ?c = "poll_check_timeout cfg s c"
  note t = poll_check_timeout_ok [OF assms(2), of cfg s]
  obtain c1 s1 where h: "handle cfg os (rd (c_socket ?c)) (wr (c_socket ?c)) ?c s = (c1, s1)" by fastforce
  with assms(3) have cl: "clean_up cfg os c1 s1 = Inr (r, s')"
    by (simp add: poll_connection_def Let_def)
  note hc = handle_and_clean [OF assms(1) t(1) h cl]
  show "accounted (held_fds c) s (held_after r) s'" "now s' = now s" using hc t by simp_all
  show "live os d \<and> in_time cfg (now s) d" if r: "r = Some d"
  proof (cases "in_time cfg (now s) c")
    case True
    then have "in_time cfg (now s) ?c" using t(3) by (simp add: in_time_def)
    with hc r in_time_active show ?thesis by blast
  next
    case False
    then have "?c = c\<lparr>c_conn_close := True, c_state := DONE\<rparr>"
      by (auto simp: poll_check_timeout_def in_time_def)
    with h have "c1 = c\<lparr>c_conn_close := True, c_state := DONE\<rparr>" by (simp add: handle_def)
    with cl r show ?thesis by (auto simp: clean_up_def split: sum.splits)
  qed
qed

definition all_held :: "connection list \<Rightarrow> fd list" where
  "all_held conns = concat (map held_fds conns)"

lemma all_held_simps [simp]: "all_held [] = []" "all_held (c # conns) = held_fds c @ all_held conns"
  by (simp_all add: all_held_def)

lemma poll_connections_ok:
  assumes "os_files_ok os" "\<forall>c \<in> set conns. conn_ok os c" "poll_connections cfg os rd wr conns s = Inr (conns', s')"
  shows "(\<forall>c \<in> set conns'. live os c \<and> in_time cfg (now s) c) \<and> now s' = now s \<and>
    accounted (all_held conns) s (all_held conns') s'"
  using assms(2,3)
proof (induction conns arbitrary: s conns')
  case Nil
  then show ?case by (simp add: accounted_same)
next
  case (Cons c conns)
  from Cons.prems(2) obtain r s1 cs where 1: "poll_connection cfg os rd wr c s = Inr (r, s1)"
    and 2: "poll_connections cfg os rd wr conns s1 = Inr (cs, s')"
    and cs: "conns' = (case r of None \<Rightarrow> cs | Some c \<Rightarrow> c # cs)"
    by (auto split: sum.splits)
  have l: "conn_ok os c" "\<forall>c \<in> set conns. conn_ok os c" using Cons.prems(1) by simp_all
  note p = poll_connection_ok [OF assms(1) l(1) 1]
  note q = Cons.IH [OF l(2) 2]
  have "accounted (held_fds c @ all_held conns) s (held_after r @ all_held conns) s1"
    using p(1) by (rule accounted_frame2)
  moreover have "accounted (held_after r @ all_held conns) s1 (held_after r @ all_held cs) s'"
    using q by (blast intro: accounted_frame)
  ultimately have "accounted (all_held (c # conns)) s (held_after r @ all_held cs) s'"
    unfolding all_held_simps by (rule accounted_trans)
  moreover have "held_after r @ all_held cs = all_held conns'"
    by (simp add: cs held_after_def split: option.splits)
  ultimately show ?case using p(2,3) q by (auto simp: cs split: option.splits)
qed


text \<open>\<^verbatim>\<open>accept\<close> gives descriptors that are not negative.\<close>

definition wakeup_ok :: "wakeup \<Rightarrow> bool" where
  "wakeup_ok w \<longleftrightarrow> (case w_accept w of Accept fd addr \<Rightarrow> 0 \<le> fd | Accept_err e \<Rightarrow> True)"

lemma accept_connection_ok:
  assumes "os_files_ok os" "accept_connection cfg os res (conns, s) = Inr (conns', s')"
    "case res of Accept fd addr \<Rightarrow> 0 \<le> fd | Accept_err e \<Rightarrow> True"
  shows "\<exists>new. conns' = new @ conns \<and> (\<forall>c \<in> set new. conn_ok os c \<and> 0 \<le> c_socket c) \<and> now s' = now s \<and>
    accounted (all_held conns) s (all_held conns') s'"
proof (cases res)
  case (Accept_err e)
  with assms(2) show ?thesis by (auto simp: accept_connection_def intro: accounted_same)
next
  case (Accept fd addr)
  define c0 where "c0 = (new_connection s)\<lparr>c_socket := fd, c_state := RECV_REQUEST,
    c_client := (if inet6 cfg then addr else take 4 addr @ drop 4 (c_client (new_connection s)))\<rparr>"
  have new: "new_connection (emit e s) = new_connection s" for e by (simp add: new_connection_def emit_def)
  obtain c1 s1 where p: "poll_recv_request cfg os c0 (emit (Accepted fd) s) = (c1, s1)" by fastforce
  from assms(2) Accept p have res: "conns' = c1 # conns" "s' = s1"
    by (auto simp: accept_connection_def nonblock_socket_def Let_def c0_def new split: if_splits prod.splits)
  have "receiving c0"
    by (simp add: receiving_def c0_def new_connection_def fresh_def request_bytes_def)
  note ok = poll_recv_request_ok [OF this assms(1) p] poll_recv_request_handler [OF assms(1) this p]
  have "held_fds c0 = [fd]" using assms(3) Accept by (simp add: c0_def held_fds_def new_connection_def)
  then have "accounted [] s (held_fds c0) (emit (Accepted fd) s)"
    by (intro accountedI [of _ _ "[Accepted fd]"]) (simp_all add: emit_def)
  then have "accounted [] s (held_fds c1) s1" using ok(6) by (rule accounted_trans)
  then have "accounted (all_held conns) s (all_held conns') s'"
    using accounted_frame2 [of "[]" s "held_fds c1" s1 "all_held conns"] by (simp add: res)
  moreover have "now s' = now s" using ok(7) by (simp add: res emit_def)
  moreover have "c_socket c1 = fd" using ok(2) by (simp add: c0_def)
  ultimately show ?thesis using ok(1) res assms(3) Accept by (intro exI [of _ "[c1]"]) simp
qed

lemma httpd_poll_ok:
  assumes "os_files_ok os" "\<forall>c \<in> set conns. live os c" "wakeup_ok w"
    "httpd_poll cfg os sockin w (conns, s) = Inr (conns', s')"
  shows "\<forall>c \<in> set conns'. live os c" "accounted (all_held conns) s (all_held conns') s'"
    "w_select w = Selected rr sr \<Longrightarrow> now s' = w_time w \<and> (\<forall>c \<in> set conns'. in_time cfg (w_time w) c)"
proof -
  have "(\<forall>c \<in> set conns'. live os c) \<and> accounted (all_held conns) s (all_held conns') s' \<and>
    (\<forall>rr sr. w_select w = Selected rr sr \<longrightarrow> now s' = w_time w \<and> (\<forall>c \<in> set conns'. in_time cfg (w_time w) c))"
  proof (cases "w_select w")
    case (Select_err e)
    with assms show ?thesis by (auto simp: httpd_poll_def Let_def accounted_same split: if_splits)
  next
    case (Selected rr sr)
    let ?s = "s\<lparr>now := w_time w\<rparr>"
    let ?rd = "\<lambda>fd. fd_isset fd (recv_set sockin conns s) rr" and ?wr = "\<lambda>fd. fd_isset fd (send_set conns) sr"
    from assms(4) Selected obtain cs t where
      1: "(if ?rd sockin then accept_connection cfg os (w_accept w) (conns, ?s) else Inr (conns, ?s)) = Inr (cs, t)"
      and 2: "poll_connections cfg os ?rd ?wr cs t = Inr (conns', s')"
      unfolding httpd_poll_def Let_def by (auto split: sum.splits if_splits)
    have "(\<forall>c \<in> set cs. conn_ok os c) \<and> now t = w_time w \<and> accounted (all_held conns) ?s (all_held cs) t"
    proof (cases "?rd sockin")
      case True
      from accept_connection_ok [OF assms(1), of cfg "w_accept w" conns ?s cs t] 1 True assms(2,3)
      show ?thesis by (auto simp: wakeup_ok_def live_conn_ok)
    next
      case False
      with 1 assms(2) show ?thesis by (auto simp: live_conn_ok accounted_same)
    qed
    then have a: "\<forall>c \<in> set cs. conn_ok os c" "now t = w_time w" "accounted (all_held conns) ?s (all_held cs) t" by blast+
    note p = poll_connections_ok [OF assms(1) a(1) 2]
    have "accounted (all_held conns) s (all_held conns) ?s" by (rule accounted_same) simp
    with a(3) have "accounted (all_held conns) s (all_held cs) t" by (blast intro: accounted_trans)
    with p have "accounted (all_held conns) s (all_held conns') s'" by (blast intro: accounted_trans)
    with p a(2) show ?thesis by simp
  qed
  then show "\<forall>c \<in> set conns'. live os c" "accounted (all_held conns) s (all_held conns') s'"
    "w_select w = Selected rr sr \<Longrightarrow> now s' = w_time w \<and> (\<forall>c \<in> set conns'. in_time cfg (w_time w) c)" by blast+
qed

section \<open>An iteration does not end the process\<close>

definition fds_fit :: "fd \<Rightarrow> connection list \<times> server \<Rightarrow> bool" where
  "fds_fit sockin = (\<lambda>(conns, s).
     (\<forall>fd \<in> set (recv_set sockin conns s) \<union> set (send_set conns). \<not> FD_SETSIZE \<le> fd))"

text \<open>An answer of \<^verbatim>\<open>select\<close> the loop goes on with: an interruption, a descriptor that is ready, or none
  after a time-out.\<close>

definition select_usable :: "config \<Rightarrow> fd \<Rightarrow> wakeup \<Rightarrow> connection list \<times> server \<Rightarrow> bool" where
  "select_usable cfg sockin w = (\<lambda>(conns, s).
     case w_select w of
       Select_err e \<Rightarrow> e = EINTR
     | Selected rr sr \<Rightarrow>
         (\<exists>fd. fd_isset fd (recv_set sockin conns s) rr \<or> fd_isset fd (send_set conns) sr) \<or>
         (\<exists>c \<in> set conns. c_state c \<noteq> DONE) \<and> timeout_secs cfg \<noteq> 0)"

definition calls_ok :: "os \<Rightarrow> bool" where
  "calls_ok os \<longleftrightarrow> (\<forall>fd. os_close os fd) \<and> (\<forall>fd. os_fcntl os fd)"

lemma free_connection_total: "calls_ok os \<Longrightarrow> \<exists>s'. free_connection cfg os c s = Inr s'"
  by (auto simp: free_connection_def xclose_def calls_ok_def Let_def split: prod.splits)

lemma clean_up_total: "calls_ok os \<Longrightarrow> \<exists>x. clean_up cfg os c s = Inr x"
proof -
  assume os: "calls_ok os"
  obtain s1 s2 where "free_connection cfg os c s = Inr s1" "free_connection cfg os (c\<lparr>c_socket := -1\<rparr>) s = Inr s2"
    using free_connection_total [OF os] by blast
  then show ?thesis by (simp add: clean_up_def recycle_connection_def Let_def)
qed

lemma poll_connections_total: "calls_ok os \<Longrightarrow> \<exists>x. poll_connections cfg os rd wr conns s = Inr x"
proof (induction conns arbitrary: s)
  case (Cons c conns)
  let ?c = "poll_check_timeout cfg s c"
  obtain c1 t where h: "handle cfg os (rd (c_socket ?c)) (wr (c_socket ?c)) ?c s = (c1, t)" by fastforce
  obtain r s1 where "clean_up cfg os c1 t = Inr (r, s1)"
    using clean_up_total [OF Cons.prems, of cfg c1 t] by auto
  with h have "poll_connection cfg os rd wr c s = Inr (r, s1)" by (simp add: poll_connection_def Let_def)
  moreover obtain cs s2 where "poll_connections cfg os rd wr conns s1 = Inr (cs, s2)"
    using Cons.IH [OF Cons.prems, of s1] by (metis surj_pair)
  ultimately show ?case by simp
qed simp

lemma accept_connection_total:
  assumes "calls_ok os"
  shows "\<exists>x. accept_connection cfg os res st = Inr x"
proof -
  have "nonblock_socket os fd t = Inr t" for fd t
    using assms by (simp add: nonblock_socket_def calls_ok_def)
  then show ?thesis
    by (cases st; cases res) (auto simp: accept_connection_def Let_def split: prod.splits)
qed

lemma httpd_poll_total:
  assumes "calls_ok os" "select_usable cfg sockin w (conns, s)" "fds_fit sockin (conns, s)"
  shows "\<exists>st. httpd_poll cfg os sockin w (conns, s) = Inr st"
proof -
  have fit: "\<not> list_ex (\<lambda>fd. FD_SETSIZE \<le> fd) (recv_set sockin conns s @ send_set conns)"
    using assms(3) by (auto simp: fds_fit_def list_ex_iff)
  show ?thesis
  proof (cases "w_select w")
    case (Select_err e)
    with assms(2) fit show ?thesis by (simp add: httpd_poll_def select_usable_def Let_def)
  next
    case (Selected rr sr)
    let ?rd = "\<lambda>fd. fd_isset fd (recv_set sockin conns s) rr" and ?wr = "\<lambda>fd. fd_isset fd (send_set conns) sr"
    let ?s = "s\<lparr>now := w_time w\<rparr>"
    have ne: "\<not> (filter ?rd (recv_set sockin conns s) = [] \<and> filter ?wr (send_set conns) = [] \<and>
        \<not> (list_ex (\<lambda>c. c_state c \<noteq> DONE) conns \<and> timeout_secs cfg \<noteq> 0))"
      using assms(2) Selected by (auto simp: select_usable_def filter_empty_conv list_ex_iff fd_isset_def)
    obtain cs t where "(if ?rd sockin then accept_connection cfg os (w_accept w) (conns, ?s) else Inr (conns, ?s)) = Inr (cs, t)"
      using accept_connection_total [OF assms(1), of cfg "w_accept w" "(conns, ?s)"]
      by (cases "?rd sockin") auto
    moreover obtain x where "poll_connections cfg os ?rd ?wr cs t = Inr x"
      using poll_connections_total [OF assms(1)] by blast
    ultimately show ?thesis
      using Selected ne fit unfolding httpd_poll_def Let_def by simp
  qed
qed

lemma calls_ok_sample: "calls_ok sample_os"
  by (simp add: calls_ok_def sample_os_def)

section \<open>The reachable states\<close>

definition stop_running :: "server \<Rightarrow> server" where
  "stop_running s = s\<lparr>running := False\<rparr>"

text \<open>The sockets of the connections are those they were accepted with.\<close>

lemma poll_connection_socket:
  assumes "os_files_ok os" "conn_ok os c" "poll_connection cfg os rd wr c s = Inr (Some d, s')"
  shows "c_socket d = c_socket c"
proof -
  let ?c = "poll_check_timeout cfg s c"
  note t = poll_check_timeout_ok [OF assms(2), of cfg s]
  obtain c1 s1 where h: "handle cfg os (rd (c_socket ?c)) (wr (c_socket ?c)) ?c s = (c1, s1)" by fastforce
  with assms(3) have cl: "clean_up cfg os c1 s1 = Inr (Some d, s')"
    by (simp add: poll_connection_def Let_def)
  have "c_socket c1 = c_socket ?c"
  proof (cases "c_state ?c")
    case RECV_REQUEST
    with t(1) have "receiving ?c" by (auto simp: conn_ok_def sending_def)
    with RECV_REQUEST h poll_recv_request_ok(2) [OF _ assms(1)] show ?thesis
      by (auto simp: handle_def split: if_splits)
  next
    case SEND_HEADER
    with t(1) have "sending os ?c" by (auto simp: conn_ok_def receiving_def)
    with SEND_HEADER h show ?thesis
      by (auto simp: handle_def split: if_splits dest!: poll_send_header_progress dest: progress_frame(2))
  next
    case SEND_REPLY
    with t(1) have "sending os ?c" by (auto simp: conn_ok_def receiving_def)
    with SEND_REPLY h show ?thesis
      by (auto simp: handle_def split: if_splits dest!: poll_send_reply_progress dest: progress_frame(2))
  next
    case DONE
    with h have "c1 = ?c" by (auto simp: handle_def)
    then show ?thesis by simp
  qed
  with t(4) cl show ?thesis
    by (auto simp: clean_up_def dest!: recycle_connection_conn(1) split: if_splits sum.splits)
qed

lemma poll_connections_sockets:
  assumes "os_files_ok os" "\<forall>c \<in> set conns. conn_ok os c" "poll_connections cfg os rd wr conns s = Inr (conns', s')"
  shows "c_socket ` set conns' \<subseteq> c_socket ` set conns"
  using assms(2,3)
proof (induction conns arbitrary: s conns')
  case (Cons c conns)
  then obtain r s1 cs where 1: "poll_connection cfg os rd wr c s = Inr (r, s1)"
    and 2: "poll_connections cfg os rd wr conns s1 = Inr (cs, s')"
    and cs: "conns' = (case r of None \<Rightarrow> cs | Some c \<Rightarrow> c # cs)"
    by (auto split: sum.splits)
  have IH: "c_socket ` set cs \<subseteq> c_socket ` set conns" using Cons.prems(1) by (intro Cons.IH [OF _ 2]) simp
  show ?case
  proof (cases r)
    case None
    with IH cs show ?thesis by auto
  next
    case (Some d)
    then have "c_socket d = c_socket c" using poll_connection_socket [OF assms(1)] 1 Cons.prems(1) by simp
    with IH cs Some show ?thesis by auto
  qed
qed simp

lemma httpd_poll_sockets:
  assumes "os_files_ok os" "\<forall>c \<in> set conns. live os c" "wakeup_ok w"
    "httpd_poll cfg os sockin w (conns, s) = Inr (conns', s')" "\<forall>c \<in> set conns. 0 \<le> c_socket c"
  shows "\<forall>c \<in> set conns'. 0 \<le> c_socket c"
proof (cases "w_select w")
  case (Select_err e)
  with assms show ?thesis by (auto simp: httpd_poll_def Let_def split: if_splits)
next
  case (Selected rr sr)
  let ?s = "s\<lparr>now := w_time w\<rparr>"
  let ?rd = "\<lambda>fd. fd_isset fd (recv_set sockin conns s) rr" and ?wr = "\<lambda>fd. fd_isset fd (send_set conns) sr"
  from assms(4) Selected obtain cs t where
    1: "(if ?rd sockin then accept_connection cfg os (w_accept w) (conns, ?s) else Inr (conns, ?s)) = Inr (cs, t)"
    and 2: "poll_connections cfg os ?rd ?wr cs t = Inr (conns', s')"
    unfolding httpd_poll_def Let_def by (auto split: sum.splits if_splits)
  have old: "\<forall>c \<in> set conns. conn_ok os c \<and> 0 \<le> c_socket c" using assms(2,5) by (simp add: live_conn_ok)
  have "\<forall>c \<in> set cs. conn_ok os c \<and> 0 \<le> c_socket c"
  proof (cases "?rd sockin")
    case True
    with 1 have "accept_connection cfg os (w_accept w) (conns, ?s) = Inr (cs, t)" by simp
    with accept_connection_ok [OF assms(1) this] assms(3) old show ?thesis
      by (auto simp: wakeup_ok_def)
  next
    case False
    with 1 old show ?thesis by auto
  qed
  with poll_connections_sockets [OF assms(1) _ 2] show ?thesis by fastforce
qed

text \<open>The loop starts without connections; it is polled while it runs; the network may do anything;
  a signal may stop it at any time.\<close>

inductive reachable :: "config \<Rightarrow> os \<Rightarrow> fd \<Rightarrow> server \<Rightarrow> connection list \<times> server \<Rightarrow> bool"
  for cfg os sockin s0 where
  start: "reachable cfg os sockin s0 ([], s0)"
| poll: "reachable cfg os sockin s0 st \<Longrightarrow> running (snd st) \<Longrightarrow> wakeup_ok w \<Longrightarrow>
    httpd_poll cfg os sockin w st = Inr st' \<Longrightarrow> reachable cfg os sockin s0 st'"
| network: "reachable cfg os sockin s0 (conns, s) \<Longrightarrow>
    reachable cfg os sockin s0 (conns, s\<lparr>recvs := r, sends := q\<rparr>)"
| signal: "reachable cfg os sockin s0 (conns, s) \<Longrightarrow> reachable cfg os sockin s0 (conns, stop_running s)"

lemma reachable_sockets:
  assumes "reachable cfg os sockin s0 st" "os_files_ok os"
  shows "(\<forall>c \<in> set (fst st). live os c \<and> 0 \<le> c_socket c)"
  using assms(1)
proof (induction rule: reachable.induct)
  case (poll st w st')
  obtain conns s conns' s' where st: "st = (conns, s)" "st' = (conns', s')" by fastforce
  from httpd_poll_ok(1) [OF assms(2) _ poll.hyps(3) poll.hyps(4) [unfolded st]]
    httpd_poll_sockets [OF assms(2) _ poll.hyps(3) poll.hyps(4) [unfolded st]] poll.IH
  show ?case by (simp add: st)
qed simp_all

inductive_cases reachableE: "reachable cfg os sockin s0 (conns, s)"

lemma reachable_inv:
  assumes "reachable cfg os sockin s0 st" "os_files_ok os"
  shows "(\<forall>c \<in> set (fst st). live os c) \<and> accounted [] s0 (all_held (fst st)) (snd st)"
  using assms(1)
proof (induction rule: reachable.induct)
  case start
  show ?case by (simp add: accounted_same)
next
  case (poll st w st')
  obtain conns s conns' s' where st: "st = (conns, s)" "st' = (conns', s')" by fastforce
  from httpd_poll_ok [OF assms(2) _ poll.hyps(3) poll.hyps(4) [unfolded st]] poll.IH
  show ?case by (auto simp: st intro: accounted_trans)
next
  case (network conns s q r)
  have "accounted (all_held conns) s (all_held conns) (s\<lparr>recvs := r, sends := q\<rparr>)" by (rule accounted_same) simp
  with network.IH show ?case by (auto intro: accounted_trans)
next
  case (signal conns s)
  have "accounted (all_held conns) s (all_held conns) (stop_running s)"
    by (rule accounted_same) (simp add: stop_running_def)
  with signal.IH show ?case by (auto intro: accounted_trans)
qed


text \<open>C4. In every state the server can get into, whatever clients and network do, each connection
  in the list either waits for a request, of which it holds at most 4000 bytes, or is in the middle
  of sending a reply whose header and body are there in full; none is left in the state DONE.\<close>

theorem reachable_connections_live:
  assumes "reachable cfg os sockin s0 (conns, s)" "os_files_ok os"
  shows "\<forall>c \<in> set conns. c_state c \<noteq> DONE \<and>
    (c_state c = RECV_REQUEST \<longrightarrow> c_request_length c \<le> MAX_REQUEST_LENGTH \<and> c_reply_fd c = -1) \<and>
    (c_state c \<noteq> RECV_REQUEST \<longrightarrow> sending os c)"
  using reachable_inv [OF assms] by (auto simp: live_def receiving_def sending_def)

text \<open>A server that has accepted one connection and read part of a request from it.\<close>

definition sample_wakeup :: wakeup where
  "sample_wakeup = \<lparr>w_select = Selected [3] [], w_time = 100, w_accept = Accept 5 [192, 0, 2, 1]\<rparr>"

definition waiting_connection :: connection where
  "waiting_connection = (new_connection sample_server)\<lparr>c_socket := 5, c_state := RECV_REQUEST,
     c_client := [192, 0, 2, 1] @ replicate 12 0, c_request := Some ''GET '', c_request_length := 4\<rparr>"

definition waiting_server :: server where
  "waiting_server = sample_server\<lparr>total_in := 4, trace := [Accepted 5]\<rparr>"

lemma waiting_not_timed_out: "now s = 100 \<Longrightarrow> poll_check_timeout (sample_config\<lparr>pidfile_name := p\<rparr>) s waiting_connection = waiting_connection"
  by (simp add: poll_check_timeout_def sample_config_def waiting_connection_def new_connection_def sample_server_def)

lemma accept_waiting:
  "accept_connection (sample_config\<lparr>pidfile_name := p\<rparr>) sample_os (Accept 5 [192, 0, 2, 1]) ([], sample_server\<lparr>recvs := [Recvd ''GET '']\<rparr>)
     = Inr ([waiting_connection], waiting_server)"
proof -
  let ?c = "(new_connection sample_server)\<lparr>c_socket := 5, c_state := RECV_REQUEST, c_client := [192, 0, 2, 1] @ replicate 12 0\<rparr>"
  let ?t = "sample_server\<lparr>trace := [Accepted 5]\<rparr>"
  have "\<not> request_complete ''GET ''" by code_simp
  then have "receive_bytes (sample_config\<lparr>pidfile_name := p\<rparr>) sample_os ?c ''GET '' ?t = (waiting_connection, waiting_server)"
    by (simp add: receive_bytes_def request_bytes_def waiting_connection_def waiting_server_def
        new_connection_def sample_server_def MAX_REQUEST_LENGTH_def Let_def)
  then have "poll_recv_request (sample_config\<lparr>pidfile_name := p\<rparr>) sample_os ?c (?t\<lparr>recvs := [Recvd ''GET '']\<rparr>)
      = (waiting_connection, waiting_server)"
    by (simp add: poll_recv_request_def sys_recv_def sample_server_def) (simp add: waiting_connection_def)
  moreover have "(emit (Accepted 5) (sample_server\<lparr>recvs := [Recvd ''GET '']\<rparr>)) = ?t\<lparr>recvs := [Recvd ''GET '']\<rparr>"
    by (simp add: emit_def sample_server_def)
  moreover have "new_connection (?t\<lparr>recvs := [Recvd ''GET '']\<rparr>) = new_connection sample_server"
    by (simp add: new_connection_def)
  moreover have "take 4 [192, 0, 2, 1] @ drop 4 (c_client (new_connection sample_server)) = [192, 0, 2, 1] @ replicate 12 0"
    by (simp add: new_connection_def)
  ultimately show ?thesis
    by (simp add: accept_connection_def nonblock_socket_def Let_def) (simp add: sample_os_def sample_config_def)
qed

lemma poll_waiting_pidfile:
  "httpd_poll (sample_config\<lparr>pidfile_name := p\<rparr>) sample_os 3 sample_wakeup ([], sample_server\<lparr>recvs := [Recvd ''GET '']\<rparr>)
      = Inr ([waiting_connection], waiting_server)"
proof -
  have s: "recv_set 3 [] (sample_server\<lparr>recvs := r\<rparr>) = [3]" "send_set [] = []" for r
    by (simp_all add: recv_set_def send_set_def sample_server_def)
  have n: "(sample_server\<lparr>recvs := r\<rparr>)\<lparr>now := 100\<rparr> = sample_server\<lparr>recvs := r\<rparr>" for r
    by (simp add: sample_server_def)
  have w: "w_select sample_wakeup = Selected [3] []" "w_time sample_wakeup = 100"
    "w_accept sample_wakeup = Accept 5 [192, 0, 2, 1]" by (simp_all add: sample_wakeup_def)
  have "poll_connections (sample_config\<lparr>pidfile_name := p\<rparr>) sample_os (\<lambda>fd. fd_isset fd [3] [3]) (\<lambda>fd. fd_isset fd [] [])
      [waiting_connection] waiting_server = Inr ([waiting_connection], waiting_server)"
  proof -
    have "now waiting_server = 100" by (simp add: waiting_server_def sample_server_def)
    then show ?thesis
      by (simp add: poll_connection_def waiting_not_timed_out handle_def clean_up_def fd_isset_def Let_def)
        (simp add: waiting_connection_def)
  qed
  then show ?thesis
    unfolding httpd_poll_def Let_def prod.case s w select_result.case n accept_waiting
    by (simp add: fd_isset_def accept_waiting FD_SETSIZE_def)
qed

lemma poll_waiting:
  "httpd_poll sample_config sample_os 3 sample_wakeup ([], sample_server\<lparr>recvs := [Recvd ''GET '']\<rparr>)
      = Inr ([waiting_connection], waiting_server)"
proof -
  have "sample_config\<lparr>pidfile_name := None\<rparr> = sample_config" by (simp add: sample_config_def)
  with poll_waiting_pidfile [of None] show ?thesis by simp
qed

lemma reachable_waiting:
  "reachable sample_config sample_os 3 (sample_server\<lparr>recvs := [Recvd ''GET '']\<rparr>) ([waiting_connection], waiting_server)"
  by (rule reachable.poll [OF reachable.start _ _ poll_waiting])
    (simp_all add: sample_server_def sample_wakeup_def wakeup_ok_def)

lemma fds_fit_waiting: "fds_fit 3 ([waiting_connection], waiting_server)"
proof -
  have "c_state waiting_connection = RECV_REQUEST" "c_socket waiting_connection = 5"
    by (simp_all add: waiting_connection_def)
  then show ?thesis by (auto simp: fds_fit_def recv_set_def send_set_def FD_SETSIZE_def)
qed

theorem reachable_connections_live_witness:
  "c_request_length waiting_connection \<le> MAX_REQUEST_LENGTH \<and> c_state waiting_connection = RECV_REQUEST"
proof -
  have "c_state waiting_connection = RECV_REQUEST" by (simp add: waiting_connection_def)
  with reachable_connections_live [OF reachable_waiting os_files_ok_sample] show ?thesis by simp
qed

text \<open>C32. No descriptor is lost and none is closed twice: in every state the server can get into,
  the descriptors it has opened (accepted connections and files) are those it has closed and
  those its connections hold, each counted as often as it occurs.\<close>

theorem descriptors_accounted:
  assumes "reachable cfg os sockin s0 (conns, s)" "os_files_ok os" "trace s0 = []"
  shows "mset (opened (trace s)) = mset (closed (trace s)) + mset (concat (map held_fds conns))"
proof -
  have "accounted [] s0 (all_held conns) s" using reachable_inv [OF assms(1,2)] by simp
  with assms(3) show ?thesis by (auto simp: accounted_def all_held_def add.commute)
qed

theorem descriptors_accounted_witness:
  "mset (opened (trace waiting_server)) = {#5#} \<and> closed (trace waiting_server) = []"
proof -
  have "held_fds waiting_connection = [5]" by (simp add: waiting_connection_def new_connection_def held_fds_def)
  moreover have "closed (trace waiting_server) = []" by (simp add: waiting_server_def)
  ultimately show ?thesis
    using descriptors_accounted [OF reachable_waiting os_files_ok_sample] by (simp add: sample_server_def)
qed

text \<open>C33. Idle connections are closed: after every iteration in which \<^verbatim>\<open>select\<close> returned, every
  connection that is left was active less than the time-out ago.\<close>

theorem idle_connections_closed:
  assumes "reachable cfg os sockin s0 (conns, s)" "os_files_ok os" "wakeup_ok w"
    "httpd_poll cfg os sockin w (conns, s) = Inr (conns', s')" "w_select w = Selected rr sr" "0 < timeout_secs cfg"
  shows "\<forall>c \<in> set conns'. now s' - c_last_active c < timeout_secs cfg"
proof -
  have "\<forall>c \<in> set conns. live os c" using reachable_inv [OF assms(1,2)] by simp
  from httpd_poll_ok(3) [OF assms(2) this assms(3-5)] assms(6) show ?thesis by (auto simp: in_time_def)
qed

theorem idle_connections_closed_witness:
  "\<exists>conns s. httpd_poll sample_config sample_os 3 \<lparr>w_select = Selected [] [], w_time = 130, w_accept = Accept_err EAGAIN\<rparr>
      ([waiting_connection], waiting_server) = Inr (conns, s) \<and> waiting_connection \<notin> set conns"
proof -
  let ?w = "\<lparr>w_select = Selected [] [], w_time = 130, w_accept = Accept_err EAGAIN\<rparr>"
  have w: "wakeup_ok ?w" by (simp add: wakeup_ok_def)
  have t: "timeout_secs sample_config = 30" by (simp add: sample_config_def)
  have "select_usable sample_config 3 ?w ([waiting_connection], waiting_server)"
    by (simp add: select_usable_def t) (simp add: waiting_connection_def)
  from httpd_poll_total [OF calls_ok_sample this fds_fit_waiting] obtain conns s
    where h: "httpd_poll sample_config sample_os 3 ?w ([waiting_connection], waiting_server) = Inr (conns, s)"
    by auto
  have "\<forall>c \<in> set [waiting_connection]. live sample_os c"
    using reachable_inv [OF reachable_waiting os_files_ok_sample] by simp
  from httpd_poll_ok(3) [OF os_files_ok_sample this w h] have n: "now s = 130" by simp
  have "\<forall>c \<in> set conns. now s - c_last_active c < timeout_secs sample_config"
    by (rule idle_connections_closed [OF reachable_waiting os_files_ok_sample w h]) (simp_all add: sample_config_def)
  moreover have "c_last_active waiting_connection = 100"
    by (simp add: waiting_connection_def new_connection_def sample_server_def)
  ultimately have "waiting_connection \<notin> set conns"
    using n t by fastforce
  with h show ?thesis by blast
qed

text \<open>The descriptors that are open, and what \<^verbatim>\<open>select\<close> is documented to answer: EBADF only if a
  descriptor in a set is not open, EINVAL only if it is given a time-out that is negative, and
  nothing ready only after a time-out; it may be interrupted at any time.  (ENOMEM is left aside, as
  is running out of memory elsewhere.)\<close>

definition open_fds :: "fd \<Rightarrow> server \<Rightarrow> fd set" where
  "open_fds sockin s = insert sockin (set_mset (mset (opened (trace s)) - mset (closed (trace s))))"

definition select_ok :: "config \<Rightarrow> fd \<Rightarrow> wakeup \<Rightarrow> connection list \<times> server \<Rightarrow> bool" where
  "select_ok cfg sockin w = (\<lambda>(conns, s).
     case w_select w of
       Select_err e \<Rightarrow>
         e = EINTR \<or>
         e = EBADF \<and> \<not> set (recv_set sockin conns s) \<union> set (send_set conns) \<subseteq> open_fds sockin s \<or>
         e = EINVAL \<and> (\<exists>c \<in> set conns. c_state c \<noteq> DONE) \<and> timeout_secs cfg < 0
     | Selected rr sr \<Rightarrow>
         (\<exists>fd. fd_isset fd (recv_set sockin conns s) rr \<or> fd_isset fd (send_set conns) sr) \<or>
         (\<exists>c \<in> set conns. c_state c \<noteq> DONE) \<and> timeout_secs cfg \<noteq> 0)"

lemma reachable_sets_open:
  assumes "reachable cfg os sockin s0 (conns, s)" "os_files_ok os" "trace s0 = []"
  shows "set (recv_set sockin conns s) \<union> set (send_set conns) \<subseteq> open_fds sockin s"
proof -
  have "accounted [] s0 (all_held conns) s" using reachable_inv [OF assms(1,2)] by simp
  with assms(3) have "mset (opened (trace s)) - mset (closed (trace s)) = mset (all_held conns)"
    by (auto simp: accounted_def)
  then have o: "open_fds sockin s = insert sockin (set (all_held conns))" by (simp add: open_fds_def)
  have "c_socket c \<in> set (held_fds c)" if "c \<in> set conns" for c
    using that reachable_sockets [OF assms(1,2)] by (fastforce simp: held_fds_def)
  then show ?thesis by (auto simp: o recv_set_def send_set_def all_held_def)
qed

text \<open>C34. No client can stop the server.  If descriptors are limited to what fits into an \<^verbatim>\<open>fd_set\<close>, the
  time-out is not negative, and the system calls behave as documented, then in no state the server
  can get into does an iteration end the process or leave an \<^verbatim>\<open>fd_set\<close>, whatever is received, refused or
  cut off: in particular every descriptor it hands to \<^verbatim>\<open>select\<close> is open.\<close>

theorem server_survives:
  assumes "reachable cfg os sockin s0 (conns, s)" "os_files_ok os" "trace s0 = []"
    "\<forall>fd \<in> open_fds sockin s. fd < FD_SETSIZE" "0 \<le> timeout_secs cfg"
    "calls_ok os" "select_ok cfg sockin w (conns, s)"
  shows "\<exists>st. httpd_poll cfg os sockin w (conns, s) = Inr st"
proof -
  have sub: "set (recv_set sockin conns s) \<union> set (send_set conns) \<subseteq> open_fds sockin s"
    by (rule reachable_sets_open [OF assms(1-3)])
  then have "fds_fit sockin (conns, s)" using assms(4) unfolding fds_fit_def prod.case not_le by blast
  moreover have "select_usable cfg sockin w (conns, s)"
    using assms(5,7) sub by (auto simp: select_ok_def select_usable_def split: select_result.splits)
  ultimately show ?thesis using httpd_poll_total [OF assms(6)] by blast
qed

theorem server_survives_witness:
  "\<exists>st. httpd_poll sample_config sample_os 3 sample_wakeup ([waiting_connection], waiting_server) = Inr st"
proof -
  have "held_fds waiting_connection = [5]" by (simp add: waiting_connection_def new_connection_def held_fds_def)
  have "open_fds 3 waiting_server = {3, 5}" by (simp add: open_fds_def waiting_server_def)
  then have o: "\<forall>fd \<in> open_fds 3 waiting_server. fd < FD_SETSIZE" by (simp add: FD_SETSIZE_def)
  have "select_ok sample_config 3 sample_wakeup ([waiting_connection], waiting_server)"
    by (auto simp: select_ok_def sample_wakeup_def fd_isset_def recv_set_def waiting_server_def sample_server_def)
  with o show ?thesis
    by (intro server_survives [OF reachable_waiting os_files_ok_sample _ _ _ calls_ok_sample])
      (simp_all add: sample_server_def sample_config_def)
qed

text \<open>The two conditions are needed.  \<^verbatim>\<open>--timeout -1\<close> is accepted; then \<^verbatim>\<open>select\<close> refuses its time-out as
  soon as there is a connection, and the process ends.  And nothing keeps a descriptor that is too
  large for an \<^verbatim>\<open>fd_set\<close> out of it.\<close>

theorem negative_timeout_fatal:
  assumes "timeout_secs cfg < 0" "c \<in> set conns" "c_state c \<noteq> DONE" "fds_fit sockin (conns, s)"
    "w_select w = Select_err EINVAL"
  shows "select_ok cfg sockin w (conns, s) \<and> httpd_poll cfg os sockin w (conns, s) = Inl (Exit 1)"
proof -
  have "\<not> list_ex (\<lambda>fd. FD_SETSIZE \<le> fd) (recv_set sockin conns s @ send_set conns)"
    using assms(4) by (auto simp: fds_fit_def list_ex_iff)
  with assms show ?thesis by (auto simp: select_ok_def httpd_poll_def Let_def)
qed

theorem large_descriptor_overflows:
  assumes "c \<in> set conns" "c_state c \<noteq> DONE" "FD_SETSIZE \<le> c_socket c"
  shows "httpd_poll cfg os sockin w (conns, s) = Inl Fd_set_overflow"
proof -
  have "c_socket c \<in> set (recv_set sockin conns s @ send_set conns)"
    using assms(1,2) by (cases "c_state c") (auto simp: recv_set_def send_set_def)
  then have "list_ex (\<lambda>fd. FD_SETSIZE \<le> fd) (recv_set sockin conns s @ send_set conns)"
    using assms(3) by (auto simp: list_ex_iff)
  then show ?thesis by (simp add: httpd_poll_def Let_def)
qed

text \<open>If accepting fails for want of descriptors while there is no connection (other processes may
  have used them up), the server never accepts again: only freeing a connection sets
  \<open>accepting\<close>, and there is none.\<close>

theorem accept_failure_stuck:
  assumes "w_accept w = Accept_err ENFILE" "w_select w = Selected [sockin] []" "accepting s" "sockin < FD_SETSIZE"
  shows "httpd_poll cfg os sockin w ([], s) = Inr ([], s\<lparr>now := w_time w, accepting := False\<rparr>)"
    "httpd_poll cfg os sockin w' ([], s\<lparr>now := w_time w, accepting := False\<rparr>) \<in>
       {Inl (Exit 1), Inr ([], s\<lparr>now := w_time w, accepting := False\<rparr>)}"
proof -
  show "httpd_poll cfg os sockin w ([], s) = Inr ([], s\<lparr>now := w_time w, accepting := False\<rparr>)"
    using assms by (simp add: httpd_poll_def Let_def recv_set_def send_set_def fd_isset_def accept_connection_def)
  show "httpd_poll cfg os sockin w' ([], s\<lparr>now := w_time w, accepting := False\<rparr>) \<in>
       {Inl (Exit 1), Inr ([], s\<lparr>now := w_time w, accepting := False\<rparr>)}"
    by (cases "w_select w'") (simp_all add: httpd_poll_def Let_def recv_set_def send_set_def)
qed

end
