(* ===== verification/Lifecycle.thy ===== *)
theory Lifecycle
  imports EventLoop
begin

text \<open>
  The life of a connection as an automaton on its four states.  The states are ordered by how far
  an exchange has got; the handlers only move forward along the edges of the automaton, and the one
  way back is \<open>recycle_connection\<close>.
\<close>

section \<open>The order of the states\<close>

primrec stage_of :: "conn_state \<Rightarrow> nat" where
  "stage_of RECV_REQUEST = 0"
| "stage_of SEND_HEADER = 1"
| "stage_of SEND_REPLY = 2"
| "stage_of DONE = 3"

instantiation conn_state :: linorder
begin

definition less_eq_conn_state :: "conn_state \<Rightarrow> conn_state \<Rightarrow> bool" where
  "less_eq_conn_state a b \<longleftrightarrow> stage_of a \<le> stage_of b"

definition less_conn_state :: "conn_state \<Rightarrow> conn_state \<Rightarrow> bool" where
  "less_conn_state a b \<longleftrightarrow> stage_of a < stage_of b"

instance
proof
  fix a b :: conn_state
  show "a \<le> b \<Longrightarrow> b \<le> a \<Longrightarrow> a = b"
    by (cases a; cases b) (simp_all add: less_eq_conn_state_def)
qed (auto simp: less_eq_conn_state_def less_conn_state_def)

end

text \<open>The edges that an exchange can take.\<close>

inductive next_state :: "conn_state \<Rightarrow> conn_state \<Rightarrow> bool" where
  answer: "next_state RECV_REQUEST SEND_HEADER"
| header_sent: "next_state SEND_HEADER SEND_REPLY"
| finish: "a \<noteq> DONE \<Longrightarrow> next_state a DONE"

inductive_simps next_state_from [simp]: "next_state RECV_REQUEST b" "next_state SEND_HEADER b"
  "next_state SEND_REPLY b" "next_state DONE b"

lemma next_state_less: "next_state a b \<Longrightarrow> a < b"
  by (cases a; auto simp: less_conn_state_def)

text \<open>The order is what the edges generate: an exchange never comes back to a state it has left.\<close>

lemma next_state_order: "next_state\<^sup>*\<^sup>* a b \<longleftrightarrow> a \<le> b"
proof
  show "a \<le> b" if "next_state\<^sup>*\<^sup>* a b"
    using that by induction (auto dest: next_state_less)
next
  have e: "next_state a DONE" if "a \<noteq> DONE" for a using that by (rule finish)
  have "next_state\<^sup>*\<^sup>* RECV_REQUEST SEND_REPLY" using answer header_sent by (rule converse_rtranclp_into_rtranclp [OF _ r_into_rtranclp])
  then show "next_state\<^sup>*\<^sup>* a b" if "a \<le> b"
    using that e by (cases a; cases b) (auto simp: less_eq_conn_state_def intro: r_into_rtranclp)
qed

section \<open>The handlers go forward\<close>

lemma poll_send_reply_state: "c_state (fst (poll_send_reply os c s)) \<in> {c_state c, DONE}"
  by (simp add: poll_send_reply_def Let_def split: prod.splits sum.splits)

lemma poll_send_header_state:
  "c_state (fst (poll_send_header os c s)) \<in> {c_state c, SEND_REPLY, DONE}"
proof -
  have "c_state d = SEND_REPLY \<or> c_state d = DONE"
    if "poll_send_reply os (e\<lparr>c_state := SEND_REPLY\<rparr>) t = (d, u)" for d e t u
    using poll_send_reply_state [of os "e\<lparr>c_state := SEND_REPLY\<rparr>" t] that by simp
  then show ?thesis
    by (cases "poll_send_header os c s") (auto simp: poll_send_header_def Let_def split: prod.splits sum.splits if_splits)
qed

lemma first_last_state [simp]: "RECV_REQUEST \<le> a" "a \<le> DONE"
  by (simp add: less_eq_conn_state_def) (cases a; simp add: less_eq_conn_state_def)

lemma handle_forward: "c_state c \<le> c_state (fst (handle cfg os rd wr c s))"
proof (cases "c_state c")
  case SEND_HEADER
  have "SEND_HEADER \<le> SEND_REPLY" by (simp add: less_eq_conn_state_def)
  with SEND_HEADER show ?thesis using poll_send_header_state [of os c s] by (auto simp: handle_def)
next
  case SEND_REPLY
  then show ?thesis using poll_send_reply_state [of os c s] by (auto simp: handle_def)
qed (simp_all add: handle_def)

text \<open>In an iteration a connection that is kept has gone forward along the edges, or its exchange was
  over, it is to be kept open, and it has been recycled.\<close>

theorem poll_connection_forward:
  assumes "poll_connection cfg os rd wr c s = Inr (Some d, s')"
  shows "next_state\<^sup>*\<^sup>* (c_state c) (c_state d) \<and> c_state d \<noteq> DONE \<or>
    c_state d = RECV_REQUEST \<and> c_request d = None \<and>
    (\<exists>e t. handle cfg os (rd (c_socket c)) (wr (c_socket c)) (poll_check_timeout cfg s c) s = (e, t) \<and>
       c_state e = DONE \<and> \<not> c_conn_close e \<and> recycle_connection cfg os e t = Inr (d, s'))"
proof -
  let ?c = "poll_check_timeout cfg s c"
  have sock: "c_socket ?c = c_socket c" and st: "c_state c \<le> c_state ?c"
    by (simp_all add: poll_check_timeout_def)
  obtain e t where h: "handle cfg os (rd (c_socket c)) (wr (c_socket c)) ?c s = (e, t)" by fastforce
  with assms sock have u: "clean_up cfg os e t = Inr (Some d, s')" by (simp add: poll_connection_def Let_def)
  have "c_state c \<le> c_state e" using handle_forward [of ?c cfg os _ _ s] h st by (metis fst_conv order_trans)
  then have path: "next_state\<^sup>*\<^sup>* (c_state c) (c_state e)" by (simp add: next_state_order)
  show ?thesis
  proof (cases "c_state e = DONE")
    case True
    with u have r: "\<not> c_conn_close e" "recycle_connection cfg os e t = Inr (d, s')"
      by (auto simp: clean_up_def split: if_splits sum.splits)
    from recycle_connection_conn(1) [OF r(2)] have "c_state d = RECV_REQUEST" "c_request d = None"
      by (simp_all add: new_connection_def)
    with True r h show ?thesis by blast
  next
    case False
    with u have "d = e" by (simp add: clean_up_def)
    with False path show ?thesis by blast
  qed
qed

end
