(* ===== verification/ConnList.thy ===== *)
theory ConnList
  imports EventLoop
begin

text \<open>
  The doubly linked list of connections: the \<^verbatim>\<open>LIST_*\<close> macros on a store of pointers, and the
  loops of the program over it.  The contract of the macros is a locale, in which the loop with
  removal is proved to be a loop over a list; the macros are an instance of it, so the loops of
  the program are those of theory \<open>EventLoop\<close>.
\<close>

section \<open>The macros\<close>

type_synonym ref = nat

text \<open>\<^verbatim>\<open>le_prev\<close> is the address of the pointer that points at an element: the head of the list
  or the \<^verbatim>\<open>le_next\<close> field of an element.\<close>

datatype link = Head | Le_next ref

record list_store =
  lh_first :: "ref option"
  le_next :: "ref \<Rightarrow> ref option"
  le_prev :: "ref \<Rightarrow> link"

definition LIST_HEAD_INITIALIZER :: "(ref \<Rightarrow> ref option) \<Rightarrow> (ref \<Rightarrow> link) \<Rightarrow> list_store" where
  "LIST_HEAD_INITIALIZER nexts prevs = \<lparr>lh_first = None, le_next = nexts, le_prev = prevs\<rparr>"

fun assign_link :: "link \<Rightarrow> ref option \<Rightarrow> list_store \<Rightarrow> list_store" where
  "assign_link Head p st = st\<lparr>lh_first := p\<rparr>"
| "assign_link (Le_next r) p st = st\<lparr>le_next := (le_next st)(r := p)\<rparr>"

definition LIST_INSERT_HEAD :: "ref \<Rightarrow> list_store \<Rightarrow> list_store" where
  "LIST_INSERT_HEAD elm st =
     (let st = st\<lparr>le_next := (le_next st)(elm := lh_first st)\<rparr>;
          st = (case le_next st elm of None \<Rightarrow> st
            | Some first \<Rightarrow> st\<lparr>le_prev := (le_prev st)(first := Le_next elm)\<rparr>);
          st = st\<lparr>lh_first := Some elm\<rparr>
      in st\<lparr>le_prev := (le_prev st)(elm := Head)\<rparr>)"

definition LIST_REMOVE :: "ref \<Rightarrow> list_store \<Rightarrow> list_store" where
  "LIST_REMOVE elm st =
     (let st = (case le_next st elm of None \<Rightarrow> st
            | Some succ \<Rightarrow> st\<lparr>le_prev := (le_prev st)(succ := le_prev st elm)\<rparr>)
      in assign_link (le_prev st elm) (le_next st elm) st)"

text \<open>\<^verbatim>\<open>LIST_FOREACH_SAFE\<close>: the next element is read before the body runs.  The body may end the
  process; the loop may not end if the pointers are circular.\<close>

partial_function (option) foreach_safe ::
    "('st \<Rightarrow> ref \<Rightarrow> ref option) \<Rightarrow> (ref \<Rightarrow> 'st \<times> 'm \<Rightarrow> exit + 'st \<times> 'm) \<Rightarrow> ref option \<Rightarrow> 'st \<times> 'm \<Rightarrow>
     (exit + 'st \<times> 'm) option" where
  "foreach_safe next_of loop_body var m =
     (case var of None \<Rightarrow> Some (Inr m)
      | Some v \<Rightarrow>
          (let tvar = next_of (fst m) v in
           case loop_body v m of Inl e \<Rightarrow> Some (Inl e) | Inr m \<Rightarrow> foreach_safe next_of loop_body tvar m))"

section \<open>The contract of a list\<close>

definition first_of :: "'a list \<Rightarrow> 'a option" where
  "first_of xs = (case xs of [] \<Rightarrow> None | x # _ \<Rightarrow> Some x)"

lemma first_of_simps [simp]: "first_of [] = None" "first_of (x # xs) = Some x"
  by (simp_all add: first_of_def)

text \<open>The loop over a list: each element is visited once, in order, and kept or removed.\<close>

fun run_list :: "('a \<Rightarrow> 'm \<Rightarrow> exit + bool \<times> 'm) \<Rightarrow> 'a list \<Rightarrow> 'm \<Rightarrow> exit + 'a list \<times> 'm" where
  "run_list f [] m = Inr ([], m)"
| "run_list f (x # xs) m =
     (case f x m of Inl e \<Rightarrow> Inl e
      | Inr (keep, m) \<Rightarrow>
          (case run_list f xs m of Inl e \<Rightarrow> Inl e
           | Inr (ys, m) \<Rightarrow> Inr (if keep then x # ys else ys, m)))"

text \<open>A body that removes elements with \<open>remove\<close>.\<close>

definition removing ::
    "(ref \<Rightarrow> 'st \<Rightarrow> 'st) \<Rightarrow> (ref \<Rightarrow> 'm \<Rightarrow> exit + bool \<times> 'm) \<Rightarrow> ref \<Rightarrow> 'st \<times> 'm \<Rightarrow> exit + 'st \<times> 'm" where
  "removing remove f v = (\<lambda>(st, m). case f v m of Inl e \<Rightarrow> Inl e
     | Inr (keep, m) \<Rightarrow> Inr (if keep then st else remove v st, m))"

locale linked_list =
  fixes insert_head :: "ref \<Rightarrow> 'st \<Rightarrow> 'st" and remove :: "ref \<Rightarrow> 'st \<Rightarrow> 'st"
    and first :: "'st \<Rightarrow> ref option" and next_of :: "'st \<Rightarrow> ref \<Rightarrow> ref option"
    and holds :: "'st \<Rightarrow> ref list \<Rightarrow> bool"
  assumes holds_distinct: "holds st xs \<Longrightarrow> distinct xs"
    and holds_first: "holds st xs \<Longrightarrow> first st = first_of xs"
    and holds_next: "holds st (xs @ x # ys) \<Longrightarrow> next_of st x = first_of ys"
    and holds_insert: "holds st xs \<Longrightarrow> x \<notin> set xs \<Longrightarrow> holds (insert_head x st) (x # xs)"
    and holds_remove: "holds st xs \<Longrightarrow> x \<in> set xs \<Longrightarrow> holds (remove x st) (remove1 x xs)"
begin

text \<open>The loop over the pointers ends and is the loop over the list, also when the body removes
  the element it is at.\<close>

lemma foreach_from:
  assumes "holds st (before @ xs)"
  shows "case run_list f xs m of
      Inl e \<Rightarrow> foreach_safe next_of (removing remove f) (first_of xs) (st, m) = Some (Inl e)
    | Inr (ys, m') \<Rightarrow> \<exists>st'. foreach_safe next_of (removing remove f) (first_of xs) (st, m) = Some (Inr (st', m')) \<and>
        holds st' (before @ ys)"
  using assms
proof (induction xs arbitrary: before st m)
  case Nil
  then show ?case by (simp add: foreach_safe.simps)
next
  case (Cons x xs)
  note nx = holds_next [OF Cons.prems]
  show ?case
  proof (cases "f x m")
    case (Inl e)
    then show ?thesis by (simp add: foreach_safe.simps removing_def)
  next
    case (Inr p)
    obtain keep m1 where p: "p = (keep, m1)" by fastforce
    let ?st = "if keep then st else remove x st" and ?before = "if keep then before @ [x] else before"
    have "x \<notin> set before" "x \<notin> set xs" using holds_distinct [OF Cons.prems] by auto
    then have "remove1 x (before @ x # xs) = before @ xs" by (simp add: remove1_append)
    then have "holds ?st (?before @ xs)" using holds_remove [OF Cons.prems, of x] Cons.prems by simp
    from Cons.IH [OF this, of m1] show ?thesis
      using Inr p nx by (cases "run_list f xs m1") (auto simp: foreach_safe.simps [of _ _ "Some x"] removing_def Let_def)
  qed
qed

lemma foreach_refines:
  assumes "holds st xs"
  shows "case run_list f xs m of
      Inl e \<Rightarrow> foreach_safe next_of (removing remove f) (first st) (st, m) = Some (Inl e)
    | Inr (ys, m') \<Rightarrow> \<exists>st'. foreach_safe next_of (removing remove f) (first st) (st, m) = Some (Inr (st', m')) \<and>
        holds st' ys"
  using foreach_from [of st "[]" xs f m] assms by (auto simp: holds_first [OF assms] split: sum.splits prod.splits)

end


section \<open>The macros keep the contract\<close>

text \<open>A chain of elements from a pointer \<open>p\<close> stored at \<open>l\<close> to the pointer \<open>p'\<close> stored at \<open>l'\<close>.\<close>

fun chain :: "list_store \<Rightarrow> link \<Rightarrow> ref option \<Rightarrow> ref list \<Rightarrow> link \<Rightarrow> ref option \<Rightarrow> bool" where
  "chain st l p [] l' p' \<longleftrightarrow> l = l' \<and> p = p'"
| "chain st l p (x # xs) l' p' \<longleftrightarrow> p = Some x \<and> le_prev st x = l \<and> chain st (Le_next x) (le_next st x) xs l' p'"

definition conn_list :: "list_store \<Rightarrow> ref list \<Rightarrow> bool" where
  "conn_list st xs \<longleftrightarrow> distinct xs \<and> (\<exists>l. chain st Head (lh_first st) xs l None)"

lemma chain_first: "chain st l p xs l' None \<Longrightarrow> p = first_of xs"
  by (cases xs) auto

lemma chain_append:
  "chain st l p (xs @ ys) l' p' \<longleftrightarrow> (\<exists>m q. chain st l p xs m q \<and> chain st m q ys l' p')"
  by (induction xs arbitrary: l p) auto

text \<open>Only the cells of the elements matter.\<close>

lemma chain_cong:
  "(\<And>x. x \<in> set xs \<Longrightarrow> le_next st x = le_next st' x \<and> le_prev st x = le_prev st' x) \<Longrightarrow>
   chain st l p xs l' p' = chain st' l p xs l' p'"
  by (induction xs arbitrary: l p) auto

lemma conn_list_insert:
  assumes "conn_list st xs" "x \<notin> set xs"
  shows "conn_list (LIST_INSERT_HEAD x st) (x # xs)"
proof (cases xs)
  case Nil
  with assms show ?thesis by (simp add: conn_list_def LIST_INSERT_HEAD_def Let_def)
next
  case (Cons y ys)
  then obtain l where l: "lh_first st = Some y" "chain st (Le_next y) (le_next st y) ys l None" "distinct xs"
    using assms(1) by (auto simp: conn_list_def)
  let ?st = "LIST_INSERT_HEAD x st"
  have "chain ?st (Le_next y) (le_next st y) ys l None = chain st (Le_next y) (le_next st y) ys l None"
    using assms(2) l(1,3) Cons by (intro chain_cong) (auto simp: LIST_INSERT_HEAD_def)
  with assms(2) l Cons show ?thesis
    by (auto simp: conn_list_def LIST_INSERT_HEAD_def)
qed

lemma conn_list_remove:
  assumes "conn_list st (xs @ x # ys)"
  shows "conn_list (LIST_REMOVE x st) (xs @ ys)"
proof -
  from assms have d: "distinct (xs @ x # ys)" by (simp add: conn_list_def)
  from assms obtain m l where pre: "chain st Head (lh_first st) xs m (Some x)" and m: "le_prev st x = m"
    and post: "chain st (Le_next x) (le_next st x) ys l None"
    by (auto simp: conn_list_def chain_append)
  let ?st = "LIST_REMOVE x st" and ?q = "le_next st x"
  have q: "?q = first_of ys" using post by (rule chain_first)
  have st: "?st = assign_link m ?q (case ?q of None \<Rightarrow> st | Some succ \<Rightarrow> st\<lparr>le_prev := (le_prev st)(succ := m)\<rparr>)"
    using q d by (cases ys) (auto simp: LIST_REMOVE_def m Let_def)
  have front: "chain ?st Head (lh_first ?st) xs m ?q"
  proof (cases xs rule: rev_cases)
    case Nil
    with pre show ?thesis by (simp add: st)
  next
    case (snoc zs z)
    with pre obtain m2 where z: "chain st Head (lh_first st) zs m2 (Some z)" "le_prev st z = m2" "m = Le_next z"
      by (auto simp: chain_append)
    have cells: "le_prev ?st v = le_prev st v" if "v \<in> set xs" for v
      using that d q z(3) by (cases ys) (auto simp: st)
    have "le_next ?st v = le_next st v" if "v \<in> set zs" for v
      using that d snoc z(3) by (auto simp: st split: option.splits)
    with cells snoc have "chain ?st Head (lh_first st) zs m2 (Some z) = chain st Head (lh_first st) zs m2 (Some z)"
      by (intro chain_cong) auto
    moreover have "lh_first ?st = lh_first st" "le_next ?st z = ?q" using z(3) by (simp_all add: st split: option.splits)
    ultimately show ?thesis using z cells [of z] snoc by (auto simp: chain_append)
  qed
  show ?thesis
  proof (cases ys)
    case Nil
    with d front q show ?thesis by (auto simp: conn_list_def)
  next
    case (Cons w ws)
    have n: "le_next ?st v = le_next st v" if "v \<in> set ys" for v
      using that d pre by (cases xs rule: rev_cases) (auto simp: st chain_append split: option.splits)
    have "le_prev ?st v = le_prev st v" if "v \<in> set ws" for v
      using that d Cons q by (cases m) (auto simp: st)
    then have "chain ?st (Le_next w) (le_next st w) ws l None = chain st (Le_next w) (le_next st w) ws l None"
      using n Cons by (intro chain_cong) auto
    moreover have "le_prev ?st w = m" "le_next ?st w = le_next st w"
      using q Cons n [of w] by (cases m; simp add: st)+
    ultimately have "chain ?st m ?q ys l None" using post Cons by simp
    with front d show ?thesis by (auto simp: conn_list_def chain_append)
  qed
qed

interpretation connlist: linked_list LIST_INSERT_HEAD LIST_REMOVE lh_first le_next conn_list
proof unfold_locales
  fix st xs x ys
  show "conn_list st xs \<Longrightarrow> distinct xs" by (simp add: conn_list_def)
  show "conn_list st xs \<Longrightarrow> lh_first st = first_of xs" by (auto simp: conn_list_def dest: chain_first)
  show "conn_list st (xs @ x # ys) \<Longrightarrow> le_next st x = first_of ys"
    by (auto simp: conn_list_def chain_append dest: chain_first)
  show "conn_list st xs \<Longrightarrow> x \<notin> set xs \<Longrightarrow> conn_list (LIST_INSERT_HEAD x st) (x # xs)"
    by (rule conn_list_insert)
  show "conn_list st xs \<Longrightarrow> x \<in> set xs \<Longrightarrow> conn_list (LIST_REMOVE x st) (remove1 x xs)"
    using conn_list_remove by (auto dest!: split_list_first simp: remove1_append)
qed


section \<open>The loops of the program\<close>

text \<open>The memory: the links, the connections by reference, and the rest of the state.\<close>

type_synonym memory = "(ref \<Rightarrow> connection) \<times> server"

text \<open>The body of the second loop of \<open>httpd_poll\<close>: the connection is kept, with its new contents,
  or it is removed and freed.\<close>

definition poll_entry ::
    "config \<Rightarrow> os \<Rightarrow> (fd \<Rightarrow> bool) \<Rightarrow> (fd \<Rightarrow> bool) \<Rightarrow> ref \<Rightarrow> memory \<Rightarrow> exit + bool \<times> memory" where
  "poll_entry cfg os readable writable r = (\<lambda>(mem, s).
     case poll_connection cfg os readable writable (mem r) s of
       Inl e \<Rightarrow> Inl e
     | Inr (None, s) \<Rightarrow> Inr (False, mem, s)
     | Inr (Some conn, s) \<Rightarrow> Inr (True, mem(r := conn), s))"

definition poll_loop ::
    "config \<Rightarrow> os \<Rightarrow> (fd \<Rightarrow> bool) \<Rightarrow> (fd \<Rightarrow> bool) \<Rightarrow> list_store \<times> memory \<Rightarrow> (exit + list_store \<times> memory) option" where
  "poll_loop cfg os readable writable = (\<lambda>(st, m).
     foreach_safe le_next (removing LIST_REMOVE (poll_entry cfg os readable writable)) (lh_first st) (st, m))"

lemma run_list_poll:
  assumes "distinct xs"
  shows "case poll_connections cfg os rd wr (map mem xs) s of
      Inl e \<Rightarrow> run_list (poll_entry cfg os rd wr) xs (mem, s) = Inl e
    | Inr (conns, s') \<Rightarrow> \<exists>ys mem'. run_list (poll_entry cfg os rd wr) xs (mem, s) = Inr (ys, mem', s') \<and>
        map mem' ys = conns \<and> subseq ys xs \<and> (\<forall>r. r \<notin> set xs \<longrightarrow> mem' r = mem r)"
  using assms
proof (induction xs arbitrary: mem s)
  case (Cons x xs)
  show ?case
  proof (cases "poll_connection cfg os rd wr (mem x) s")
    case (Inl e)
    then show ?thesis by (simp add: poll_entry_def)
  next
    case (Inr p)
    obtain r s1 where p: "p = (r, s1)" by fastforce
    define mem1 where "mem1 = (case r of None \<Rightarrow> mem | Some conn \<Rightarrow> mem(x := conn))"
    have e: "poll_entry cfg os rd wr x (mem, s) = Inr (r \<noteq> None, mem1, s1)"
      by (simp add: poll_entry_def Inr p mem1_def split: option.splits)
    have m: "map mem1 xs = map mem xs" using Cons.prems by (auto simp: mem1_def split: option.splits)
    from Cons.prems Cons.IH [of mem1 s1] show ?thesis
      unfolding m using Inr p e
      by (cases "poll_connections cfg os rd wr (map mem xs) s1"; cases r)
        (fastforce simp: mem1_def intro: subseq_Cons')+
  qed
qed simp

text \<open>C35. The loop over the linked list of connections, in which connections are removed from the
  list and freed, ends and visits each connection exactly once, in order: it is the loop over the
  list of the connections' contents, and leaves a well-formed list of those that remain.\<close>

theorem poll_loop_refines:
  assumes "conn_list st xs"
  shows "case poll_connections cfg os rd wr (map mem xs) s of
      Inl e \<Rightarrow> poll_loop cfg os rd wr (st, mem, s) = Some (Inl e)
    | Inr (conns, s') \<Rightarrow> \<exists>st' mem' ys. poll_loop cfg os rd wr (st, mem, s) = Some (Inr (st', mem', s')) \<and>
        conn_list st' ys \<and> map mem' ys = conns \<and> subseq ys xs"
proof -
  note f = connlist.foreach_refines [OF assms, of "poll_entry cfg os rd wr" "(mem, s)"]
  note r = run_list_poll [OF connlist.holds_distinct [OF assms], of cfg os rd wr mem s]
  show ?thesis
  proof (cases "poll_connections cfg os rd wr (map mem xs) s")
    case (Inl e)
    with f r show ?thesis by (simp add: poll_loop_def)
  next
    case (Inr p)
    obtain conns s' where p: "p = (conns, s')" by fastforce
    from r Inr p obtain ys mem' where y: "run_list (poll_entry cfg os rd wr) xs (mem, s) = Inr (ys, mem', s')"
      "map mem' ys = conns" "subseq ys xs" by auto
    from f y(1) obtain st' where "poll_loop cfg os rd wr (st, mem, s) = Some (Inr (st', mem', s'))" "conn_list st' ys"
      by (auto simp: poll_loop_def)
    with y Inr p show ?thesis by auto
  qed
qed


theorem poll_loop_refines_witness:
  "\<exists>st mem s. poll_loop sample_config sample_os (\<lambda>fd. False) (\<lambda>fd. False)
     (LIST_INSERT_HEAD 2 (LIST_INSERT_HEAD 1 (LIST_HEAD_INITIALIZER (\<lambda>r. None) (\<lambda>r. Head))),
      (\<lambda>r. waiting_connection), waiting_server) = Some (Inr (st, mem, s))"
proof -
  let ?st = "LIST_INSERT_HEAD 2 (LIST_INSERT_HEAD 1 (LIST_HEAD_INITIALIZER (\<lambda>r. None) (\<lambda>r. Head)))"
  have "conn_list (LIST_HEAD_INITIALIZER n q) []" for n q by (simp add: conn_list_def LIST_HEAD_INITIALIZER_def)
  then have l: "conn_list ?st [2, 1]" by (intro connlist.holds_insert) simp_all
  obtain conns s where "poll_connections sample_config sample_os (\<lambda>fd. False) (\<lambda>fd. False)
      (map (\<lambda>r. waiting_connection) [2, 1 :: ref]) waiting_server = Inr (conns, s)"
    using poll_connections_total [OF calls_ok_sample] by (metis surj_pair)
  with poll_loop_refines [OF l, of sample_config sample_os "\<lambda>fd. False" "\<lambda>fd. False" "\<lambda>r. waiting_connection" waiting_server]
  show ?thesis by (simp only: sum.case prod.case) blast
qed

end
