(* ===== verification/Exchange.thy ===== *)
theory Exchange
  imports EventLoop
begin

text \<open>
  A whole exchange: from the first packet of a request to the last byte of its answer, through the
  dispatch of the event loop, and the connection that is ready for the next request.
\<close>

section \<open>The handlers of one connection\<close>

definition handle_pair :: "config \<Rightarrow> os \<Rightarrow> connection \<times> server \<Rightarrow> connection \<times> server" where
  "handle_pair cfg os = (\<lambda>(c, s). handle cfg os True True c s)"

lemma handle_receives: "c_state c = RECV_REQUEST \<Longrightarrow> handle_pair cfg os (c, s) = poll_recv_request cfg os c s"
  by (simp add: handle_pair_def handle_def)

lemma handle_sends: "c_state c \<noteq> RECV_REQUEST \<Longrightarrow> handle_pair cfg os (c, s) = poll_send_pair os (c, s)"
  by (cases "c_state c") (simp_all add: handle_pair_def handle_def poll_send_pair_def poll_send_def)

lemma poll_send_stays:
  assumes "sending os c \<or> c_state c = DONE"
  shows "case poll_send_pair os (c, s) of (c', s') \<Rightarrow> sending os c' \<or> c_state c' = DONE"
proof (cases "c_state c = DONE")
  case False
  obtain c' s' where p: "poll_send os c s = (c', s')" by fastforce
  with poll_send_progress [OF _ p] False assms obtain k where "progress os k c s c' s'" by blast
  then have "sending os c' \<or> c_state c' = DONE" unfolding progress_def by blast
  with p show ?thesis by (simp add: poll_send_pair_def)
qed (simp add: poll_send_pair_def poll_send_def)

lemma handle_sends_all:
  assumes "sending os c \<or> c_state c = DONE"
  shows "(handle_pair cfg os ^^ n) (c, s) = (poll_send_pair os ^^ n) (c, s)"
  using assms
proof (induction n arbitrary: c s)
  case (Suc n)
  obtain c' s' where p: "poll_send_pair os (c, s) = (c', s')" by fastforce
  have "c_state c \<noteq> RECV_REQUEST" using Suc.prems by (auto simp: sending_def)
  with p have h: "handle_pair cfg os (c, s) = (c', s')" by (simp add: handle_sends)
  have "sending os c' \<or> c_state c' = DONE" using poll_send_stays [OF Suc.prems, of s] by (simp add: p)
  with Suc.IH show ?case by (simp add: funpow_Suc_right p h del: funpow.simps)
qed simp

lemma poll_send_delivering:
  assumes "sending os c"
  shows "\<exists>c' s'. (poll_send_pair os ^^ n) (c, s) = (c', s') \<and> delivering os c s c' s'"
proof (induction n)
  case (Suc n)
  then obtain c1 s1 where 1: "(poll_send_pair os ^^ n) (c, s) = (c1, s1)" "delivering os c s c1 s1" by blast
  obtain c2 s2 where 2: "poll_send os c1 s1 = (c2, s2)" by fastforce
  show ?case
  proof (cases "c_state c1 = DONE")
    case True
    then have "poll_send os c1 s1 = (c1, s1)" by (simp add: poll_send_def)
    with 1 show ?thesis by (simp add: poll_send_pair_def)
  next
    case False
    from delivering.send [OF 1(2) False 2] 1(1) 2 show ?thesis by (simp add: poll_send_pair_def)
  qed
qed (simp add: delivering.start)

section \<open>Request and answer\<close>

lemma opens_silent:
  assumes "opens c s c' s'"
  shows "sent_on sock (trace s') = sent_on sock (trace s)"
proof -
  have l: "sent_on sock (trace t) = sent_on sock (trace s)" if "acts looks s t" for t
  proof -
    from that obtain e where "t = s\<lparr>trace := trace s @ e\<rparr>" "\<forall>x \<in> set e. looks x" unfolding acts_def by blast
    moreover from this(2) have "sent_on sock e = []"
      by (induction e) (auto simp: looks_def)
    ultimately show ?thesis by simp
  qed
  from assms consider "acts looks s s'" | t p fd where "acts looks s t" "s' = emit (Opened p fd) t"
    unfolding opens_def by blast
  then show ?thesis
  proof cases
    case 1
    then show ?thesis by (rule l)
  next
    case 2
    then show ?thesis using l [OF 2(1)] by (simp add: emit_def)
  qed
qed

text \<open>The answer to a request that has arrived in full, and the server after it.\<close>

definition reply_to :: "config \<Rightarrow> os \<Rightarrow> connection \<Rightarrow> string \<Rightarrow> server \<Rightarrow> connection \<times> server" where
  "reply_to cfg os c request s = process_request cfg os (appended c request s) (counted s request)"

lemma reply_to_ready:
  assumes "receiving c" "os_files_ok os" "reply_to cfg os c request s = (c1, s1)"
  shows "sending os c1" "c_state c1 = SEND_HEADER" "wire_sent c1 = 0" "c_socket c1 = c_socket c"
    "sent_on sock (trace s1) = sent_on sock (trace s)" "c_request_length c1 = c_request_length c + length request"
    "sends s1 = sends s"
proof -
  have ok: "os_ok os" using assms(2) by (simp add: os_files_ok_def)
  have r: "fresh (appended c request s)" "c_reply_fd (appended c request s) = -1"
    using assms(1) by (simp_all add: receiving_def)
  note p = assms(3) [unfolded reply_to_def]
  note f = process_request_frame [OF ok r(2) p]
  show st: "c_state c1 = SEND_HEADER" and "c_socket c1 = c_socket c" by (simp_all add: f)
  show "c_request_length c1 = c_request_length c + length request" by (simp add: f)
  from process_request_sendable [OF r(1) assms(2), of cfg "counted s request"] p
  have "sendable os c1" "c_header_sent c1 = 0" "c_reply_sent c1 = 0" "c_total_sent c1 = 0" by simp_all
  from ready_sending [OF this st] show "sending os c1" "wire_sent c1 = 0" by simp_all
  note o = process_request_opens [OF ok r(2) p]
  from opens_silent [OF o, of sock] show "sent_on sock (trace s1) = sent_on sock (trace s)"
    by (simp add: counted_def)
  from o show "sends s1 = sends s"
    unfolding opens_def acts_def counted_def emit_def by auto
qed

text \<open>A connection that is done and stays open is ready for the next request.\<close>

lemma reused:
  assumes "calls_ok os" "c_state c = DONE" "\<not> c_conn_close c"
  shows "\<exists>c' s'. clean_up cfg os c s = Inr (Some c', s') \<and>
    receiving c' \<and> request_bytes c' = [] \<and> c_socket c' = c_socket c"
proof -
  obtain r s' where u: "clean_up cfg os c s = Inr (r, s')" using clean_up_total [OF assms(1), of cfg c s] by auto
  with assms(2,3) obtain d where d: "r = Some d" "recycle_connection cfg os c s = Inr (d, s')"
    by (auto simp: clean_up_def split: sum.splits)
  have "request_bytes d = []" "c_socket d = c_socket c"
    by (simp_all add: recycle_connection_conn(1) [OF d(2)] request_bytes_def new_connection_def)
  with u d(1) receiving_recycled [OF d(2)] show ?thesis by simp
qed

text \<open>C3. A client that sends a request, however it is cut into packets, gets its answer in full: as
  long as the kernel takes at least one byte per call, the dispatch of the event loop brings the
  connection, within a number of calls bounded by the number of packets and the length of the
  answer, to a state in which exactly the answer to the whole request (header and body) has
  gone out on its socket, and nothing else.  If the connection stays open it is then ready for the
  next request, to which the same applies.\<close>

theorem request_answered:
  assumes "receiving c" "os_files_ok os" "calls_ok os" "request_bytes c = []" "bufs \<noteq> []" "\<forall>b \<in> set bufs. b \<noteq> []"
    "request_complete (concat bufs)" "length (concat bufs) \<le> MAX_REQUEST_LENGTH"
    "\<forall>i \<in> {1..<length bufs}. \<not> request_complete (concat (take i bufs))"
    "reply_to cfg os c (concat bufs) (s\<lparr>recvs := rs\<rparr>) = (c1, s1)" "c_reply_length c1 < 2 ^ 64"
    "\<forall>r \<in> set (sends s). \<exists>n. r = Sends (Suc n)" "2 * length (wire os c1) < length (sends s)"
  shows "\<exists>n \<le> length bufs + length (wire os c1). \<exists>c' s'.
    (handle_pair cfg os ^^ n) (c, s\<lparr>recvs := map Recvd bufs @ rs\<rparr>) = (c', s') \<and> c_state c' = DONE \<and>
    sent_on (c_socket c) (trace s') = sent_on (c_socket c) (trace s) @ wire os c1 \<and>
    c_total_sent c' = int (length (wire os c1)) \<and>
    (\<not> c_conn_close c' \<longrightarrow> (\<exists>c'' s''. clean_up cfg os c' s' = Inr (Some c'', s'') \<and>
       receiving c'' \<and> request_bytes c'' = [] \<and> c_socket c'' = c_socket c))"
proof -
  let ?req = "concat bufs"
  have c: "c_request_length c = 0" "c_state c = RECV_REQUEST" "c_request_length c = length (request_bytes c)"
    using assms(1,4) by (simp_all add: receiving_def)
  have len: "length ?req \<le> 2 ^ 15" "?req \<noteq> []"
    using assms(5,6,8) by (simp add: MAX_REQUEST_LENGTH_def, cases bufs) auto
  have pre: "\<forall>i \<in> {1..<length bufs}. \<not> request_complete (request_bytes c @ concat (take i bufs)) \<and>
      length (request_bytes c @ concat (take i bufs)) \<le> MAX_REQUEST_LENGTH"
  proof
    fix i
    assume i: "i \<in> {1..<length bufs}"
    have "length (concat (take i bufs)) \<le> length (concat (take i bufs) @ concat (drop i bufs))" by simp
    also have "concat (take i bufs) @ concat (drop i bufs) = ?req" by (metis append_take_drop_id concat_append)
    finally show "\<not> request_complete (request_bytes c @ concat (take i bufs)) \<and>
      length (request_bytes c @ concat (take i bufs)) \<le> MAX_REQUEST_LENGTH"
      using i assms(4,8,9) by simp
  qed
  note ready = reply_to_ready [OF assms(1,2,10)]
  have "receive_bytes cfg os c ?req (s\<lparr>recvs := rs\<rparr>) = (c1, s1)"
    using assms(7,8,10) ready(6) c(1)
    by (simp add: receive_bytes_appended assms(4) reply_to_def)
  then have recv: "poll_recv_request cfg os c (s\<lparr>recvs := Recvd ?req # rs\<rparr>) = poll_send_pair os (c1, s1)"
    using ready(2) by (simp add: poll_recv_request_Recvd [OF len(2,1)] poll_send_pair_def poll_send_def)
  have 1: "(handle_pair cfg os ^^ length bufs) (c, s\<lparr>recvs := map Recvd bufs @ rs\<rparr>) = poll_send_pair os (c1, s1)"
    unfolding recv [symmetric]
    by (rule receive_packets [OF handle_receives c(3,2) assms(5,6) len(1) pre])
  have sends: "sends s1 = sends s" using ready(7) by simp
  from poll_send_finishes [OF ready(1), of s1, OF _ _ assms(11)] assms(12,13) obtain n c' s' where
    n: "n \<le> Suc (length (wire os c1))" "(poll_send_pair os ^^ n) (c1, s1) = (c', s')" "c_state c' = DONE"
      "wire_sent c' = length (wire os c1)"
    unfolding sends ready(3) by auto
  have "delivering os c1 s1 c' s'" using poll_send_delivering [OF ready(1), of n s1] n(2) by auto
  from delivering_delivered [OF this ready(1)] ready(3,4) n(4)
  have d: "sent_on (c_socket c) (trace s') = sent_on (c_socket c) (trace s1) @ wire os c1"
    "c_total_sent c' = int (length (wire os c1))" "c_socket c' = c_socket c" by (simp_all add: delivered_def)
  have again: "\<exists>c'' s''. clean_up cfg os c' s' = Inr (Some c'', s'') \<and>
      receiving c'' \<and> request_bytes c'' = [] \<and> c_socket c'' = c_socket c" if "\<not> c_conn_close c'"
    using reused [OF assms(3) n(3) that] d(3) by simp
  have "n \<noteq> 0" using n(2,3) ready(2) by (cases n) auto
  then obtain m where m: "n = Suc m" by (cases n) auto
  obtain c2 s2 where 2: "poll_send_pair os (c1, s1) = (c2, s2)" by fastforce
  have "sending os c2 \<or> c_state c2 = DONE" using poll_send_stays [of os c1 s1] ready(1) by (simp add: 2)
  then have "(handle_pair cfg os ^^ m) (c2, s2) = (c', s')"
    using n(2) by (simp add: handle_sends_all m funpow_Suc_right 2 del: funpow.simps)
  then have "(handle_pair cfg os ^^ (m + length bufs)) (c, s\<lparr>recvs := map Recvd bufs @ rs\<rparr>) = (c', s')"
    by (simp add: funpow_add 1 2)
  moreover have "m + length bufs \<le> length bufs + length (wire os c1)" using n(1) m by simp
  ultimately show ?thesis using n(3) d ready(5) [of "c_socket c"] again by (intro exI conjI) auto
qed

lemma default_reply_now: "now s = now t \<Longrightarrow> default_reply cfg s c code name reason = default_reply cfg t c code name reason"
  by (simp add: default_reply_def default_page_def header_start_def)

text \<open>A request without a URL, in two packets: the answer is an error page.\<close>

lemma parse_no_url:
  assumes "request_bytes c = ''X'' @ [LF, LF]"
  shows "fst (parse_request cfg c) = Failed"
proof -
  have "scan (\<lambda>c. c \<noteq> CHR '' '') (''X'' @ [LF, LF]) 0 = 3" "scan (\<lambda>c. c = CHR '' '') (''X'' @ [LF, LF]) 3 = 3"
    by (simp_all add: scan.simps)
  with assms show ?thesis by (simp add: parse_request_def Let_def)
qed

definition refused :: "nat \<Rightarrow> connection" where
  "refused k = fst (reply_to sample_config sample_os accepted_connection (''X'' @ [LF, LF])
     (sample_server\<lparr>sends := replicate k (Sends 1), recvs := []\<rparr>))"

lemma refused_same: "refused k = refused 0" and refused_length: "c_reply_length (refused k) < 2 ^ 64"
proof -
  let ?s = "\<lambda>k. sample_server\<lparr>sends := replicate k (Sends 1), recvs := []\<rparr>"
  let ?a = "\<lambda>k. appended accepted_connection (''X'' @ [LF, LF]) (?s k)"
  let ?t = "\<lambda>k. (counted (?s k) (''X'' @ [LF, LF]))\<lparr>num_requests := num_requests sample_server + 1\<rparr>"
  define first where "first = ?a 0"
  have a: "?a k = first" for k by (simp add: appended_def first_def)
  have b: "request_bytes accepted_connection = []" "c_request_length accepted_connection = 0"
    by (simp_all add: request_bytes_def accepted_connection_def new_connection_def)
  then have "request_bytes first = ''X'' @ [LF, LF]" by (simp add: request_bytes_appended first_def)
  from parse_no_url [OF this] obtain d where d: "parse_request sample_config first = (Failed, d)"
    by (metis prod.collapse)
  have r: "refused k = (default_reply sample_config (?t k) (d\<lparr>c_conn_close := True\<rparr>) 400 ''Bad Request''
      (''You sent a request that the server couldn'' @ [QUOTE] @ ''t understand.''))\<lparr>c_state := SEND_HEADER, c_request := None\<rparr>" for k
    unfolding refused_def reply_to_def a [of k] by (simp add: process_request_def d Let_def counted_def)
  have "default_reply sample_config (?t k) x n m y = default_reply sample_config (?t 0) x n m y" for x n m y
    by (rule default_reply_now) (simp add: counted_def)
  then show "refused k = refused 0" by (simp add: r)
  have "length (dec_int 400) = 3" by code_simp
  then have "length (default_page sample_config (?t k) 400 ''Bad Request''
      (''You sent a request that the server couldn'' @ [QUOTE] @ ''t understand.'')) < 2 ^ 64"
    using length_default_page [of sample_config "?t k" 400 "''Bad Request''"
      "''You sent a request that the server couldn'' @ [QUOTE] @ ''t understand.''"] by simp
  then show "c_reply_length (refused k) < 2 ^ 64" by (simp add: r default_reply_def Let_def)
qed

theorem request_answered_witness:
  "\<exists>k n c' s'. (handle_pair sample_config sample_os ^^ n)
      (accepted_connection, sample_server\<lparr>recvs := [Recvd ''X'', Recvd [LF, LF]], sends := replicate k (Sends 1)\<rparr>) = (c', s') \<and>
      c_state c' = DONE \<and> sent_on 5 (trace s') = wire sample_os (refused 0)"
proof -
  define k where "k = Suc (2 * length (wire sample_os (refused 0)))"
  let ?s = "sample_server\<lparr>sends := replicate k (Sends 1)\<rparr>"
  obtain s1 where r: "reply_to sample_config sample_os accepted_connection (concat [''X'', [LF, LF]]) (?s\<lparr>recvs := []\<rparr>) = (refused k, s1)"
    by (cases "reply_to sample_config sample_os accepted_connection (''X'' @ [LF, LF]) (?s\<lparr>recvs := []\<rparr>)")
      (simp add: refused_def)
  have p: "request_complete (concat [''X'', [LF, LF]])" "\<not> request_complete ''X''" by code_simp+
  then have pre: "\<forall>i \<in> {1..<length [''X'', [LF, LF]]}. \<not> request_complete (concat (take i [''X'', [LF, LF]]))"
    by (simp add: numeral_2_eq_2 atLeastLessThanSuc)
  have g: "\<forall>r \<in> set (sends ?s). \<exists>n. r = Sends (Suc n)" "2 * length (wire sample_os (refused k)) < length (sends ?s)"
    by (simp_all add: k_def refused_same [of "Suc x" for x])
  have b: "request_bytes accepted_connection = []" "c_socket accepted_connection = 5"
    by (simp_all add: request_bytes_def accepted_connection_def new_connection_def)
  have ne: "[''X'', [LF, LF]] \<noteq> []" "\<forall>b \<in> set [''X'', [LF, LF]]. b \<noteq> []"
    "length (concat [''X'', [LF, LF]]) \<le> MAX_REQUEST_LENGTH" by (simp_all add: MAX_REQUEST_LENGTH_def)
  from request_answered [OF receiving_accepted os_files_ok_sample calls_ok_sample b(1) ne(1,2) p(1) ne(3) pre r refused_length g]
  obtain n c' s' where "(handle_pair sample_config sample_os ^^ n)
      (accepted_connection, ?s\<lparr>recvs := map Recvd [''X'', [LF, LF]] @ []\<rparr>) = (c', s')" "c_state c' = DONE"
    "sent_on 5 (trace s') = sent_on 5 (trace ?s) @ wire sample_os (refused k)"
    unfolding b(2) by auto
  then show ?thesis
    by (intro exI [of _ k] exI [of _ n] exI [of _ c'] exI [of _ s']) (simp add: refused_same [of k] sample_server_def)
qed

end
