(* ===== verification/Isolation.thy ===== *)
theory Isolation
  imports EventLoop
begin

text \<open>
  Connections do not disturb each other: an iteration of the loop leaves a connection on which
  nothing has happened as it is, and sends bytes only on the sockets of the connections it serves.
\<close>

section \<open>Where bytes are sent\<close>

text \<open>From one state to the other, bytes were sent on no other socket.\<close>

definition only_on :: "fd \<Rightarrow> server \<Rightarrow> server \<Rightarrow> bool" where
  "only_on sock s s' \<longleftrightarrow>
     (\<exists>evs. trace s' = trace s @ evs \<and> (\<forall>fd b. Sent fd b \<in> set evs \<longrightarrow> fd = sock))"

lemma only_on_same: "trace s' = trace s \<Longrightarrow> only_on sock s s'"
  by (auto simp: only_on_def)

lemma only_on_trans:
  assumes "only_on sock s t" "only_on sock t u"
  shows "only_on sock s u"
proof -
  from assms obtain e f where "trace t = trace s @ e" "trace u = trace t @ f"
    "\<forall>fd b. Sent fd b \<in> set e \<longrightarrow> fd = sock" "\<forall>fd b. Sent fd b \<in> set f \<longrightarrow> fd = sock"
    unfolding only_on_def by blast
  then show ?thesis unfolding only_on_def by (intro exI [of _ "e @ f"]) auto
qed

lemma only_on_silent:
  assumes "only_on sock s s'" "fd \<noteq> sock"
  shows "sent_on fd (trace s') = sent_on fd (trace s)"
proof -
  from assms(1) obtain e where e: "trace s' = trace s @ e" "\<forall>fd b. Sent fd b \<in> set e \<longrightarrow> fd = sock"
    unfolding only_on_def by blast
  have "sent_bytes fd x = []" if "x \<in> set e" for x
  proof (cases "\<exists>k b. x = Sent k b")
    case True
    with that e(2) assms(2) show ?thesis by auto
  next
    case False
    then show ?thesis by (cases x) auto
  qed
  then have "sent_on fd e = []" by (simp add: sent_on_def)
  then show ?thesis by (simp add: e(1))
qed

lemma only_on_progress: "progress os k c s c' s' \<Longrightarrow> only_on (c_socket c) s s'"
  using progress_trace unfolding only_on_def by blast

lemma only_on_opens:
  assumes "opens c s c' s'"
  shows "only_on sock s s'"
proof -
  have l: "only_on sock s t" if "acts looks s t" for t
  proof -
    from that obtain e where "t = s\<lparr>trace := trace s @ e\<rparr>" "\<forall>x \<in> set e. looks x" unfolding acts_def by blast
    then show ?thesis unfolding only_on_def by (intro exI [of _ e]) (auto simp: looks_def)
  qed
  from assms consider "acts looks s s'" | t p fd where "acts looks s t" "s' = emit (Opened p fd) t"
    unfolding opens_def by blast
  then show ?thesis
  proof cases
    case 1
    then show ?thesis by (rule l)
  next
    case 2
    have "only_on sock t s'" unfolding 2(2) only_on_def by (intro exI [of _ "[Opened p fd]"]) (simp add: emit_def)
    with l [OF 2(1)] show ?thesis by (rule only_on_trans)
  qed
qed

lemma only_on_free:
  assumes "free_connection cfg os c s = Inr s'"
  shows "only_on sock s s'"
proof -
  obtain logs where "trace s' = trace s @ logs @ map Closed (held_fds c)"
    "\<forall>e \<in> set logs. \<exists>l. e = Log l \<or> e = Bad_log l \<or> e = Syslog l"
    using free_connection_events [OF assms] by blast
  then show ?thesis unfolding only_on_def
    by (intro exI [of _ "logs @ map Closed (held_fds c)"]) fastforce
qed

lemma only_on_clean_up:
  assumes "clean_up cfg os c s = Inr (r, s')"
  shows "only_on sock s s'"
  using assms only_on_free recycle_connection_conn(2)
  by (auto simp: clean_up_def only_on_same split: if_splits sum.splits intro: only_on_free recycle_connection_conn(2))

lemma only_on_receive_bytes:
  assumes "os_ok os" "c_reply_fd c = -1" "receive_bytes cfg os c buf s = (c', s')"
  shows "only_on sock s s'"
proof -
  let ?a = "appended c buf s" and ?t = "counted s buf"
  have t: "only_on sock s ?t" by (rule only_on_same) (simp add: counted_def)
  show ?thesis
  proof (cases "request_complete (request_bytes c @ buf)")
    case True
    obtain c1 s1 where p: "process_request cfg os ?a ?t = (c1, s1)" by fastforce
    with True assms(3) have s': "s' = s1" by (simp add: receive_bytes_appended Let_def)
    have "c_reply_fd ?a = -1" using assms(2) by simp
    from only_on_opens [OF process_request_opens [OF assms(1) this p]]
    have "only_on sock (?t\<lparr>num_requests := num_requests ?t + 1\<rparr>) s1" .
    moreover have "only_on sock ?t (?t\<lparr>num_requests := num_requests ?t + 1\<rparr>)" by (rule only_on_same) simp
    ultimately show ?thesis unfolding s' using t only_on_trans by blast
  next
    case False
    with assms(3) t show ?thesis by (simp add: receive_bytes_appended Let_def)
  qed
qed

lemma only_on_recv:
  assumes "os_files_ok os" "receiving c" "poll_recv_request cfg os c s = (c', s')"
  shows "only_on (c_socket c) s s'"
  using assms(3)
proof (cases rule: poll_recv_request_cases)
  case (arrived buf rs c2 s2)
  have ok: "os_ok os" "c_reply_fd c = -1" using assms(1,2) by (simp_all add: os_files_ok_def receiving_def)
  have "only_on (c_socket c) s (s\<lparr>recvs := rs\<rparr>)" by (rule only_on_same) simp
  with only_on_receive_bytes [OF ok arrived(3)] have a: "only_on (c_socket c) s s2" by (blast intro: only_on_trans)
  show ?thesis
  proof (cases "c_state c2 = SEND_HEADER")
    case True
    note r = receive_bytes_ok [OF assms(2,1) arrived(3)]
    have "sending os c2" using r(1) True by (auto simp: receiving_def)
    moreover have "poll_send_header os c2 s2 = (c', s')" using True arrived(4) by simp
    ultimately obtain k where "progress os k c2 s2 c' s'" using poll_send_header_progress True by blast
    from only_on_progress [OF this] a r(4) show ?thesis by (auto intro: only_on_trans)
  next
    case False
    with arrived(4) a show ?thesis by simp
  qed
qed (simp_all add: only_on_same)

lemma only_on_handle:
  assumes "os_files_ok os" "conn_ok os c" "handle cfg os readable writable c s = (c', s')"
  shows "only_on (c_socket c) s s'"
proof (cases "c_state c")
  case RECV_REQUEST
  with assms(2) have "receiving c" by (auto simp: conn_ok_def sending_def)
  with RECV_REQUEST assms(1,3) show ?thesis
    by (cases readable) (auto simp: handle_def only_on_same intro: only_on_recv)
next
  case SEND_HEADER
  with assms(2) have "sending os c" by (auto simp: conn_ok_def receiving_def)
  with SEND_HEADER assms(3) show ?thesis
    by (cases writable) (auto simp: handle_def only_on_same dest: poll_send_header_progress intro: only_on_progress)
next
  case SEND_REPLY
  with assms(2) have "sending os c" by (auto simp: conn_ok_def receiving_def)
  with SEND_REPLY assms(3) show ?thesis
    by (cases writable) (auto simp: handle_def only_on_same dest: poll_send_reply_progress intro: only_on_progress)
next
  case DONE
  with assms(3) show ?thesis by (simp add: handle_def only_on_same)
qed

lemma only_on_poll_connection:
  assumes "os_files_ok os" "conn_ok os c" "poll_connection cfg os rd wr c s = Inr (r, s')"
  shows "only_on (c_socket c) s s'"
proof -
  let ?c = "poll_check_timeout cfg s c"
  note t = poll_check_timeout_ok [OF assms(2), of cfg s]
  obtain c1 s1 where h: "handle cfg os (rd (c_socket ?c)) (wr (c_socket ?c)) ?c s = (c1, s1)" by fastforce
  with assms(3) have cl: "clean_up cfg os c1 s1 = Inr (r, s')" by (simp add: poll_connection_def Let_def)
  from only_on_handle [OF assms(1) t(1) h] only_on_clean_up [OF cl] t(4) show ?thesis
    by (auto intro: only_on_trans)
qed

section \<open>Connections on which nothing happens\<close>

text \<open>Not timed out, and its descriptor is not ready for what it waits for.\<close>

definition undisturbed :: "config \<Rightarrow> int \<Rightarrow> (fd \<Rightarrow> bool) \<Rightarrow> (fd \<Rightarrow> bool) \<Rightarrow> connection \<Rightarrow> bool" where
  "undisturbed cfg t rd wr c \<longleftrightarrow> c_state c \<noteq> DONE \<and> in_time cfg t c \<and>
     (if c_state c = RECV_REQUEST then \<not> rd (c_socket c) else \<not> wr (c_socket c))"

lemma poll_connection_undisturbed:
  assumes "undisturbed cfg (now s) rd wr c"
  shows "poll_connection cfg os rd wr c s = Inr (Some c, s)"
proof -
  have "\<not> (timeout_secs cfg > 0 \<and> now s - c_last_active c \<ge> timeout_secs cfg)"
    using assms by (auto simp: undisturbed_def in_time_def)
  then have "poll_check_timeout cfg s c = c" unfolding poll_check_timeout_def by presburger
  moreover have "c_state c \<noteq> DONE" using assms by (simp add: undisturbed_def)
  moreover have "handle cfg os (rd (c_socket c)) (wr (c_socket c)) c s = (c, s)"
    using assms by (cases "c_state c") (simp_all add: undisturbed_def handle_def)
  ultimately show ?thesis by (simp add: poll_connection_def clean_up_def)
qed

lemma poll_connections_isolated:
  assumes "os_files_ok os" "\<forall>c \<in> set conns. conn_ok os c" "poll_connections cfg os rd wr conns s = Inr (conns', s')"
  shows "subseq (filter (undisturbed cfg (now s) rd wr) conns) conns'"
    "(\<forall>c \<in> set conns. c_socket c = fd \<longrightarrow> undisturbed cfg (now s) rd wr c) \<Longrightarrow>
     sent_on fd (trace s') = sent_on fd (trace s)"
proof -
  have "subseq (filter (undisturbed cfg (now s) rd wr) conns) conns' \<and>
    ((\<forall>c \<in> set conns. c_socket c = fd \<longrightarrow> undisturbed cfg (now s) rd wr c) \<longrightarrow>
     sent_on fd (trace s') = sent_on fd (trace s))"
    using assms(2,3)
  proof (induction conns arbitrary: s conns')
    case (Cons c conns)
    from Cons.prems(2) obtain r s1 cs where 1: "poll_connection cfg os rd wr c s = Inr (r, s1)"
      and 2: "poll_connections cfg os rd wr conns s1 = Inr (cs, s')"
      and cs: "conns' = (case r of None \<Rightarrow> cs | Some c \<Rightarrow> c # cs)"
      by (auto split: sum.splits)
    have l: "conn_ok os c" "\<forall>c \<in> set conns. conn_ok os c" using Cons.prems(1) by simp_all
    have now: "now s1 = now s" by (rule poll_connection_ok(2) [OF assms(1) l(1) 1])
    note IH = Cons.IH [OF l(2) 2, unfolded now]
    show ?case
    proof (cases "undisturbed cfg (now s) rd wr c")
      case True
      with 1 have "r = Some c" "s1 = s" by (simp_all add: poll_connection_undisturbed)
      with IH True cs show ?thesis by simp
    next
      case False
      have "sent_on fd (trace s1) = sent_on fd (trace s)" if "c_socket c \<noteq> fd"
        using only_on_silent [OF only_on_poll_connection [OF assms(1) l(1) 1], of fd] that by simp
      moreover have "subseq cs conns'" by (cases r) (auto simp: cs)
      ultimately show ?thesis using IH False by (auto intro: subseq_order.trans)
    qed
  qed simp
  then show "subseq (filter (undisturbed cfg (now s) rd wr) conns) conns'"
    "(\<forall>c \<in> set conns. c_socket c = fd \<longrightarrow> undisturbed cfg (now s) rd wr c) \<Longrightarrow>
     sent_on fd (trace s') = sent_on fd (trace s)" by blast+
qed

lemma accept_isolated:
  assumes "os_files_ok os" "accept_connection cfg os res (conns, s) = Inr (conns', s')" "\<forall>addr. res \<noteq> Accept fd addr"
  shows "\<exists>new. conns' = new @ conns \<and> (\<forall>c \<in> set new. c_socket c \<noteq> fd) \<and> sent_on fd (trace s') = sent_on fd (trace s)"
proof (cases res)
  case (Accept_err e)
  with assms(2) show ?thesis by (auto simp: accept_connection_def)
next
  case (Accept sock addr)
  with assms(3) have ne: "sock \<noteq> fd" by auto
  define c0 where "c0 = (new_connection s)\<lparr>c_socket := sock, c_state := RECV_REQUEST,
    c_client := (if inet6 cfg then addr else take 4 addr @ drop 4 (c_client (new_connection s)))\<rparr>"
  have new: "new_connection (emit e s) = new_connection s" for e by (simp add: new_connection_def emit_def)
  obtain c1 s1 where p: "poll_recv_request cfg os c0 (emit (Accepted sock) s) = (c1, s1)" by fastforce
  from assms(2) Accept p have res: "conns' = [c1] @ conns" "s' = s1"
    by (auto simp: accept_connection_def nonblock_socket_def Let_def c0_def new split: if_splits prod.splits)
  have r: "receiving c0" "c_socket c0 = sock"
    by (simp_all add: receiving_def c0_def new_connection_def fresh_def request_bytes_def)
  have "c_socket c1 = sock" using poll_recv_request_ok(2) [OF r(1) assms(1) p] r(2) by simp
  moreover have "sent_on fd (trace s1) = sent_on fd (trace s)"
    using only_on_silent [OF only_on_recv [OF assms(1) r(1) p], of fd] r(2) ne by (simp add: emit_def)
  ultimately show ?thesis using ne by (intro exI [of _ "[c1]"]) (simp add: res)
qed

text \<open>C5. Connections do not disturb each other.  Whatever happens in an iteration, the connections on
  which nothing has happened (not ready for what they wait for, not timed out) are still in the list
  afterwards, exactly as they were and in the same order; and on a descriptor that belongs to none
  of the connections served, and was not just accepted, nothing is sent.\<close>

theorem connections_isolated:
  assumes "reachable cfg os sockin s0 (conns, s)" "os_files_ok os" "wakeup_ok w"
    "httpd_poll cfg os sockin w (conns, s) = Inr (conns', s')" "w_select w = Selected rr sr"
  defines "idle \<equiv> undisturbed cfg (w_time w) (\<lambda>fd. fd_isset fd (recv_set sockin conns s) rr) (\<lambda>fd. fd_isset fd (send_set conns) sr)"
  shows "subseq (filter idle conns) conns' \<and>
    ((\<forall>c \<in> set conns. c_socket c = fd \<longrightarrow> idle c) \<and> (\<forall>addr. w_accept w \<noteq> Accept fd addr) \<longrightarrow>
     sent_on fd (trace s') = sent_on fd (trace s))"
proof -
  let ?s = "s\<lparr>now := w_time w\<rparr>"
  let ?rd = "\<lambda>fd. fd_isset fd (recv_set sockin conns s) rr" and ?wr = "\<lambda>fd. fd_isset fd (send_set conns) sr"
  from assms(4,5) obtain cs t where
    1: "(if ?rd sockin then accept_connection cfg os (w_accept w) (conns, ?s) else Inr (conns, ?s)) = Inr (cs, t)"
    and 2: "poll_connections cfg os ?rd ?wr cs t = Inr (conns', s')"
    unfolding httpd_poll_def Let_def by (auto split: sum.splits if_splits)
  have live: "\<forall>c \<in> set conns. conn_ok os c" using reachable_inv [OF assms(1,2)] by (simp add: live_conn_ok)
  have a: "\<exists>new. cs = new @ conns \<and> (\<forall>c \<in> set cs. conn_ok os c) \<and> now t = w_time w \<and>
      ((\<forall>addr. w_accept w \<noteq> Accept fd addr) \<longrightarrow>
        (\<forall>c \<in> set new. c_socket c \<noteq> fd) \<and> sent_on fd (trace t) = sent_on fd (trace s))"
  proof (cases "?rd sockin")
    case True
    with 1 have "accept_connection cfg os (w_accept w) (conns, ?s) = Inr (cs, t)" by simp
    from accept_isolated [OF assms(2) this, of fd] accept_connection_ok [OF assms(2) this] assms(3) live
    show ?thesis by (auto simp: wakeup_ok_def)
  next
    case False
    with 1 live show ?thesis by auto
  qed
  then obtain new where new: "cs = new @ conns" "\<forall>c \<in> set cs. conn_ok os c" "now t = w_time w"
    "(\<forall>addr. w_accept w \<noteq> Accept fd addr) \<longrightarrow>
        (\<forall>c \<in> set new. c_socket c \<noteq> fd) \<and> sent_on fd (trace t) = sent_on fd (trace s)" by blast
  note p = poll_connections_isolated [OF assms(2) new(2) 2, unfolded new(3), folded idle_def]
  have "subseq (filter idle conns) (filter idle cs)" by (simp add: new(1) list_emb_append2)
  with p(1) have "subseq (filter idle conns) conns'" by (rule subseq_order.trans [rotated])
  moreover have "sent_on fd (trace s') = sent_on fd (trace s)"
    if "\<forall>c \<in> set conns. c_socket c = fd \<longrightarrow> idle c" "\<forall>addr. w_accept w \<noteq> Accept fd addr"
    using p(2) [of fd] that new(1,4) by auto
  ultimately show ?thesis by blast
qed

theorem connections_isolated_witness:
  "\<exists>conns s. httpd_poll sample_config sample_os 3 \<lparr>w_select = Selected [3] [], w_time = 110, w_accept = Accept_err EAGAIN\<rparr>
      ([waiting_connection], waiting_server) = Inr (conns, s) \<and> subseq [waiting_connection] conns"
proof -
  let ?w = "\<lparr>w_select = Selected [3] [], w_time = 110, w_accept = Accept_err EAGAIN\<rparr>"
  have w: "wakeup_ok ?w" by (simp add: wakeup_ok_def)
  have "select_usable sample_config 3 ?w ([waiting_connection], waiting_server)"
    by (simp add: select_usable_def sample_config_def) (simp add: waiting_connection_def)
  from httpd_poll_total [OF calls_ok_sample this fds_fit_waiting] obtain conns s
    where h: "httpd_poll sample_config sample_os 3 ?w ([waiting_connection], waiting_server) = Inr (conns, s)"
    by auto
  have "undisturbed sample_config 110 (\<lambda>fd. fd_isset fd r [3]) wr waiting_connection" for r wr
    by (simp add: undisturbed_def in_time_def fd_isset_def)
      (simp add: waiting_connection_def new_connection_def sample_config_def sample_server_def)
  with connections_isolated [OF reachable_waiting os_files_ok_sample w h, of "[3]" "[]" 0] h show ?thesis by auto
qed

end
