(* ===== verification/Cmdline.thy ===== *)
theory Cmdline
  imports EventLoop Auth
begin

text \<open>
  The command line: numbers, the options, and the configuration the program derives from its
  arguments before it opens its socket.  The user and group data bases, \<^verbatim>\<open>inet_pton\<close> and the
  files that are read are the record \<open>host_system\<close>.
\<close>

section \<open>Numbers\<close>

definition str_to_num :: "string \<Rightarrow> int option" where
  "str_to_num str =
     (let (n, endptr, erange) = strtoll str in
      if c_at str endptr \<noteq> NUL then None
      else if n = LLONG_MIN \<and> erange then None
      else if n = LLONG_MAX \<and> erange then None
      else Some n)"

definition xstr_to_num :: "string \<Rightarrow> exit + int" where
  "xstr_to_num str = (case str_to_num str of None \<Rightarrow> Inl (Exit 1) | Some n \<Rightarrow> Inr n)"

text \<open>The cast to \<^verbatim>\<open>int\<close>.\<close>

definition to_int :: "int \<Rightarrow> int" where
  "to_int n = sint (word_of_int n :: 32 word)"

section \<open>Options\<close>

record host_system =
  sys_uid :: nat
  sys_getpwnam :: "string \<Rightarrow> 32 word option"
  sys_getpwuid :: "32 word \<Rightarrow> 32 word option"
  sys_getgrnam :: "string \<Rightarrow> 32 word option"
  sys_getgrgid :: "32 word \<Rightarrow> 32 word option"
  sys_is_ip :: "string \<Rightarrow> bool"
  sys_file :: "string \<Rightarrow> string option"

definition octet_stream :: string where
  "octet_stream = ''application/octet-stream''"

text \<open>The initial values of the globals.\<close>

definition initial_config :: config where
  "initial_config = \<lparr>forward_map = [], forward_all_url = None, forward_to_https = False,
     mime = empty_mime_state, default_mimetype = octet_stream,
     timeout_secs = 30, keep_alive_field = [], bindaddr = None, bindport = 8080, max_connections = -1,
     index_name = ''index.html'', no_listing = False, humanize_sizes = False, inet6 = False,
     wwwroot = [], logfile_name = None, pidfile_name = None, want_chroot = False,
     want_daemon = False, want_accf = False, want_keepalive = True, want_server_id = True,
     want_single_file = False, want_hide_dotfiles = False, server_hdr = [], auth_key = None,
     custom_hdrs = [], trusted_ip = None, syslog_enabled = False, drop_uid = -1, drop_gid = -1\<rparr>"

definition add_forward_mapping :: "string \<Rightarrow> string \<Rightarrow> config \<Rightarrow> config" where
  "add_forward_mapping h url cfg = cfg\<lparr>forward_map := forward_map cfg @ [\<lparr>host = h, target_url = url\<rparr>]\<rparr>"

text \<open>An option with an argument: \<^verbatim>\<open>if (++i >= argc) errx(...)\<close>.\<close>

definition with_arg :: "string list \<Rightarrow> (string \<Rightarrow> exit + config) \<Rightarrow> exit + (string list \<times> config)" where
  "with_arg args f =
     (case args of [] \<Rightarrow> Inl (Exit 1)
      | v # args \<Rightarrow> (case f v of Inl e \<Rightarrow> Inl e | Inr cfg \<Rightarrow> Inr (args, cfg)))"

definition with_num :: "string \<Rightarrow> (int \<Rightarrow> config) \<Rightarrow> exit + config" where
  "with_num v f = (case xstr_to_num v of Inl e \<Rightarrow> Inl e | Inr n \<Rightarrow> Inr (f n))"

definition lookup_id ::
    "(string \<Rightarrow> 32 word option) \<Rightarrow> (32 word \<Rightarrow> 32 word option) \<Rightarrow> string \<Rightarrow> exit + 32 word" where
  "lookup_id by_name by_id v =
     (case by_name v of
        Some i \<Rightarrow> Inr i
      | None \<Rightarrow>
          (case xstr_to_num v of
             Inl e \<Rightarrow> Inl e
           | Inr n \<Rightarrow> (case by_id (word_of_int n) of None \<Rightarrow> Inl (Exit 1) | Some i \<Rightarrow> Inr i)))"

definition parse_option :: "host_system \<Rightarrow> string \<Rightarrow> string list \<Rightarrow> config \<Rightarrow> exit + (string list \<times> config)" where
  "parse_option sys arg args cfg =
     (if strcmp arg ''--port'' = 0 then
        with_arg args (\<lambda>v. with_num v (\<lambda>n. cfg\<lparr>bindport := word_of_int n\<rparr>))
      else if strcmp arg ''--addr'' = 0 then with_arg args (\<lambda>v. Inr (cfg\<lparr>bindaddr := Some v\<rparr>))
      else if strcmp arg ''--maxconn'' = 0 then
        with_arg args (\<lambda>v. with_num v (\<lambda>n. cfg\<lparr>max_connections := to_int n\<rparr>))
      else if strcmp arg ''--log'' = 0 then with_arg args (\<lambda>v. Inr (cfg\<lparr>logfile_name := Some v\<rparr>))
      else if strcmp arg ''--chroot'' = 0 then Inr (args, cfg\<lparr>want_chroot := True\<rparr>)
      else if strcmp arg ''--daemon'' = 0 then Inr (args, cfg\<lparr>want_daemon := True\<rparr>)
      else if strcmp arg ''--index'' = 0 then with_arg args (\<lambda>v. Inr (cfg\<lparr>index_name := v\<rparr>))
      else if strcmp arg ''--no-listing'' = 0 then Inr (args, cfg\<lparr>no_listing := True\<rparr>)
      else if strcmp arg ''--human-readable'' = 0 then Inr (args, cfg\<lparr>humanize_sizes := True\<rparr>)
      else if strcmp arg ''--mimetypes'' = 0 then
        with_arg args (\<lambda>v. case sys_file sys v of None \<Rightarrow> Inl (Exit 1)
          | Some contents \<Rightarrow> Inr (cfg\<lparr>mime := parse_extension_map_file contents 0 (mime cfg)\<rparr>))
      else if strcmp arg ''--default-mimetype'' = 0 then
        with_arg args (\<lambda>v. Inr (cfg\<lparr>default_mimetype := v\<rparr>))
      else if strcmp arg ''--uid'' = 0 then
        with_arg args (\<lambda>v. case lookup_id (sys_getpwnam sys) (sys_getpwuid sys) v of
          Inl e \<Rightarrow> Inl e | Inr i \<Rightarrow> Inr (cfg\<lparr>drop_uid := i\<rparr>))
      else if strcmp arg ''--gid'' = 0 then
        with_arg args (\<lambda>v. case lookup_id (sys_getgrnam sys) (sys_getgrgid sys) v of
          Inl e \<Rightarrow> Inl e | Inr i \<Rightarrow> Inr (cfg\<lparr>drop_gid := i\<rparr>))
      else if strcmp arg ''--pidfile'' = 0 then with_arg args (\<lambda>v. Inr (cfg\<lparr>pidfile_name := Some v\<rparr>))
      else if strcmp arg ''--no-keepalive'' = 0 then Inr (args, cfg\<lparr>want_keepalive := False\<rparr>)
      else if strcmp arg ''--accf'' = 0 then Inr (args, cfg\<lparr>want_accf := True\<rparr>)
      else if strcmp arg ''--syslog'' = 0 then Inr (args, cfg\<lparr>syslog_enabled := True\<rparr>)
      else if strcmp arg ''--single-file'' = 0 then Inr (args, cfg\<lparr>want_single_file := True\<rparr>)
      else if strcmp arg ''--hide-dotfiles'' = 0 then Inr (args, cfg\<lparr>want_hide_dotfiles := True\<rparr>)
      else if strcmp arg ''--forward'' = 0 then
        (case args of [] \<Rightarrow> Inl (Exit 1)
         | h # args \<Rightarrow> with_arg args (\<lambda>url. Inr (add_forward_mapping h url cfg)))
      else if strcmp arg ''--forward-all'' = 0 then with_arg args (\<lambda>v. Inr (cfg\<lparr>forward_all_url := Some v\<rparr>))
      else if strcmp arg ''--no-server-id'' = 0 then Inr (args, cfg\<lparr>want_server_id := False\<rparr>)
      else if strcmp arg ''--timeout'' = 0 then
        with_arg args (\<lambda>v. with_num v (\<lambda>n. cfg\<lparr>timeout_secs := to_int n\<rparr>))
      else if strcmp arg ''--auth'' = 0 then
        with_arg args (\<lambda>v. if strchr v (CHR '':'') = None then Inl (Exit 1)
          else Inr (cfg\<lparr>auth_key := Some (''Basic '' @ base64_encode v)\<rparr>))
      else if strcmp arg ''--trusted-ip'' = 0 then
        with_arg args (\<lambda>v. if \<not> sys_is_ip sys v then Inl (Exit 1) else Inr (cfg\<lparr>trusted_ip := Some v\<rparr>))
      else if strcmp arg ''--forward-https'' = 0 then Inr (args, cfg\<lparr>forward_to_https := True\<rparr>)
      else if strcmp arg ''--header'' = 0 then
        with_arg args (\<lambda>v. if strchr v LF \<noteq> None \<or> \<not> sublist '': '' v then Inl (Exit 1)
          else Inr (cfg\<lparr>custom_hdrs := custom_hdrs cfg @ v @ CRLF\<rparr>))
      else if strcmp arg ''--ipv6'' = 0 then Inr (args, cfg\<lparr>inet6 := True\<rparr>)
      else Inl (Exit 1))"

lemma with_arg_shorter: "with_arg args f = Inr (args', cfg') \<Longrightarrow> length args' \<le> length args"
  by (auto simp: with_arg_def split: list.splits sum.splits)

text \<open>One case per branch, without the conditions.\<close>

lemma if_eqE:
  assumes "(if b then x else y) = z"
  obtains "x = z" | "y = z"
  using assms by (cases b) simp_all

lemma parse_option_shorter: "parse_option sys arg args cfg = Inr (args', cfg') \<Longrightarrow> length args' \<le> length args"
  unfolding parse_option_def
  by (elim if_eqE) (auto split: list.splits dest: with_arg_shorter)

text \<open>The loop over the arguments that are left.\<close>

function parse_options :: "host_system \<Rightarrow> string list \<Rightarrow> config \<Rightarrow> exit + config" where
  "parse_options sys [] cfg = Inr cfg"
| "parse_options sys (arg # args) cfg =
     (case parse_option sys arg args cfg of
        Inl e \<Rightarrow> Inl e
      | Inr (args, cfg) \<Rightarrow> parse_options sys args cfg)"
  by pat_completeness auto
termination
  by (relation "measure (\<lambda>(sys, args, cfg). length args)") (auto dest: parse_option_shorter)

definition parse_commandline :: "host_system \<Rightarrow> string list \<Rightarrow> config \<Rightarrow> exit + config" where
  "parse_commandline sys argv cfg =
     (if length argv < 2 \<or> length argv = 2 \<and>
         (strcmp (argv ! 1) ''--help'' = 0 \<or> strcmp (argv ! 1) ''-h'' = 0) then Inl (Exit 0)
      else
        (let cfg = (if sys_uid sys = 0 then cfg\<lparr>bindport := 80\<rparr> else cfg);
             cfg = cfg\<lparr>custom_hdrs := [], wwwroot := argv ! 1\<rparr>;
             len = length (wwwroot cfg) in
         if len = 0 then Inl (Exit 1)
         else
           (let cfg = (if len > 1 \<and> wwwroot cfg ! (len - 1) = CHR ''/'' then
                cfg\<lparr>wwwroot := take (len - 1) (wwwroot cfg)\<rparr> else cfg)
            in parse_options sys (drop 2 argv) cfg)))"

text \<open>What \<^verbatim>\<open>main\<close> does before it opens the socket.\<close>

definition configure :: "host_system \<Rightarrow> string list \<Rightarrow> exit + config" where
  "configure sys argv =
     (let cfg = initial_config\<lparr>mime := parse_default_extension_map (mime initial_config)\<rparr> in
      case parse_commandline sys argv cfg of
        Inl e \<Rightarrow> Inl e
      | Inr cfg \<Rightarrow>
          Inr (cfg\<lparr>mime := sort_mime_map (mime cfg),
            keep_alive_field := ''Keep-Alive: timeout='' @ dec_int (timeout_secs cfg) @ CRLF,
            server_hdr := (if want_server_id cfg then ''Server: '' @ pkgname @ CRLF else [])\<rparr>))"

section \<open>Numbers are parsed exactly\<close>

lemma strtoll_digits:
  assumes "\<forall>c \<in> set ds. isdigit c" "ds \<noteq> []"
  shows "strtoll ds = (if int (digits_val ds) > LLONG_MAX then (LLONG_MAX, length ds, True)
    else (int (digits_val ds), length ds, False))"
    "strtoll (CHR ''-'' # ds) = (if int (digits_val ds) > 2 ^ 63 then (LLONG_MIN, Suc (length ds), True)
    else (- int (digits_val ds), Suc (length ds), False))"
proof -
  obtain d r where d: "ds = d # r" using assms(2) by (cases ds) auto
  have n: "\<not> isspace d" "d \<noteq> CHR ''-''" "d \<noteq> CHR ''+''"
    using assms(1) d by (auto simp: isdigit_def isspace_def byte_Char)
  then have ws: "scan isspace ds 0 = 0" and c: "c_at ds 0 = d"
    by (simp_all add: d scan.simps c_at_def)
  have tw: "takeWhile isdigit ds = ds" using assms(1) by (simp add: takeWhile_eq_all_conv)
  have en: "scan isdigit ds 0 = length ds" by (simp add: scan_takeWhile tw)
  show "strtoll ds = (if int (digits_val ds) > LLONG_MAX then (LLONG_MAX, length ds, True)
    else (int (digits_val ds), length ds, False))"
    using n(2,3) assms(2) by (simp add: strtoll_def Let_def ws c en)
  have m: "\<not> isspace (CHR ''-'')" by code_simp
  then have ws: "scan isspace (CHR ''-'' # ds) 0 = 0" by (simp add: scan.simps)
  have en: "scan isdigit (CHR ''-'' # ds) (Suc 0) = Suc (length ds)"
    by (simp add: scan_takeWhile tw)
  show "strtoll (CHR ''-'' # ds) = (if int (digits_val ds) > 2 ^ 63 then (LLONG_MIN, Suc (length ds), True)
    else (- int (digits_val ds), Suc (length ds), False))"
    using assms(2) by (simp add: strtoll_def Let_def ws en)
qed


lemma strtoll_range: "LLONG_MIN \<le> fst (strtoll s) \<and> fst (strtoll s) \<le> LLONG_MAX"
  by (auto simp: strtoll_def Let_def)

lemma str_to_num_dec_int:
  "str_to_num (dec_int n) = (if LLONG_MIN \<le> n \<and> n \<le> LLONG_MAX then Some n else None)"
proof (cases "n < 0")
  case True
  have d: "\<forall>c \<in> set (dec (nat (- n))). isdigit c" "dec (nat (- n)) \<noteq> []"
    using dec_digits by simp_all
  have "c_at (CHR ''-'' # dec (nat (- n))) (Suc (length (dec (nat (- n))))) = NUL" by (simp add: c_at_def)
  with True show ?thesis
    by (auto simp: str_to_num_def dec_int_def strtoll_digits(2) [OF d])
next
  case False
  have d: "\<forall>c \<in> set (dec (nat n)). isdigit c" "dec (nat n) \<noteq> []"
    using dec_digits by simp_all
  have "c_at (dec (nat n)) (length (dec (nat n))) = NUL" by (simp add: c_at_def)
  with False show ?thesis
    by (auto simp: str_to_num_def dec_int_def strtoll_digits(1) [OF d])
qed

lemma str_to_num_range:
  assumes "str_to_num s = Some n"
  shows "LLONG_MIN \<le> n \<and> n \<le> LLONG_MAX"
proof -
  from assms have "n = fst (strtoll s)" by (auto simp: str_to_num_def split: prod.splits if_splits)
  then show ?thesis using strtoll_range [of s] by simp
qed

text \<open>A number on the command line or in the pid file is read exactly: what \<^verbatim>\<open>%d\<close> prints is
  read back, also the two ends of the range, and a number that does not fit is refused, not
  truncated.\<close>

theorem str_to_num_print:
  "str_to_num (dec_int n) = (if LLONG_MIN \<le> n \<and> n \<le> LLONG_MAX then Some n else None)"
  by (rule str_to_num_dec_int)

section \<open>The configuration\<close>

text \<open>What every option keeps.\<close>

definition types_clean :: "mime_state \<Rightarrow> bool" where
  "types_clean st \<longleftrightarrow> mime_inv st \<and> (\<forall>m \<in> set (mime_map st). clean (mimetype m))"

definition options_ok :: "config \<Rightarrow> bool" where
  "options_ok cfg \<longleftrightarrow> hdr_block (custom_hdrs cfg) \<and> types_clean (mime cfg)"

lemma replace_mapping_types:
  "replace_mapping e mt ms = Some ms' \<Longrightarrow> m \<in> set ms' \<Longrightarrow> mimetype m = mt \<or> mimetype m \<in> mimetype ` set ms"
  by (induction ms arbitrary: ms') (auto split: if_splits)

lemma add_mime_mapping_types:
  "types_clean st \<Longrightarrow> clean mt \<Longrightarrow> types_clean (add_mime_mapping e mt st)"
proof -
  assume a: "types_clean st" "clean mt"
  have "clean (mimetype m)" if "m \<in> set (mime_map (add_mime_mapping e mt st))" for m
    using that a
    by (auto simp: add_mime_mapping_def Let_def types_clean_def split: option.splits if_splits
        dest!: replace_mapping_types)
  with a show ?thesis using mt.inv_add by (simp add: types_clean_def)
qed

lemma set_words: "w \<in> set (words s) \<Longrightarrow> set w \<subseteq> set s"
proof (induction s rule: words.induct)
  case (1 s)
  let ?t = "dropWhile blank s"
  have sub: "set ?t \<subseteq> set s" "set (dropWhile (\<lambda>c. \<not> blank c) ?t) \<subseteq> set s" "set (takeWhile (\<lambda>c. \<not> blank c) ?t) \<subseteq> set s"
    by (auto dest!: set_dropWhileD set_takeWhileD)
  show ?case
  proof (cases "?t = []")
    case True
    with "1.prems" show ?thesis by (simp add: words.simps [of s])
  next
    case False
    have "words s = takeWhile (\<lambda>c. \<not> blank c) ?t # words (dropWhile (\<lambda>c. \<not> blank c) ?t)"
      using False by (subst words.simps) (simp only: Let_def if_False)
    with "1.prems" have "w = takeWhile (\<lambda>c. \<not> blank c) ?t \<or> w \<in> set (words (dropWhile (\<lambda>c. \<not> blank c) ?t))"
      by simp
    with "1.IH" [OF refl False] sub show ?thesis by blast
  qed
qed

lemma parse_mimetype_line_types:
  assumes "types_clean st" "clean line"
  shows "types_clean (parse_mimetype_line line st)"
proof -
  have "types_clean (foldl (\<lambda>st e. add_mime_mapping e mt st) st exts)" if "clean mt" for mt exts
    using assms(1) that by (induction exts arbitrary: st) (simp_all add: add_mime_mapping_types)
  moreover have "clean mt" if "words line = mt # exts" for mt exts
    using set_words [of mt line] that assms(2) by (auto simp: clean_def)
  moreover have "nul_free_str line" using assms(2) by (simp add: clean_def)
  ultimately show ?thesis using assms(1) by (simp add: parse_mimetype_line_words split: list.split)
qed

lemma lines_of_no_LF: "l \<in> set (lines_of s) \<Longrightarrow> LF \<notin> set l"
proof (induction s rule: lines_of.induct)
  case (1 s)
  show ?case
  proof (cases "s = []")
    case True
    with "1.prems" show ?thesis by (simp add: lines_of.simps [of "[]"])
  next
    case False
    then have "lines_of s = takeWhile (\<lambda>c. c \<noteq> LF \<and> c \<noteq> CR) s #
        lines_of (strip_eol (dropWhile (\<lambda>c. c \<noteq> LF \<and> c \<noteq> CR) s))"
      by (subst lines_of.simps) simp
    with "1.prems" "1.IH" [OF False] show ?thesis by (auto dest: set_takeWhileD)
  qed
qed

lemma parse_extension_map_file_types:
  assumes "types_clean st"
  shows "types_clean (parse_extension_map_file fp 0 st)"
proof -
  have "clean (cstr l)" if "l \<in> set (lines_of fp)" for l
    using lines_of_no_LF [OF that] set_cstr [of l] by (auto simp: clean_def)
  then have "types_clean (foldl (\<lambda>st l. parse_mimetype_line (cstr l) st) st ls)" if "set ls \<subseteq> set (lines_of fp)" for ls
    using that assms by (induction ls arbitrary: st) (auto intro: parse_mimetype_line_types)
  then show ?thesis by (simp add: parse_file_lines)
qed

lemma parse_default_extension_map_types: "types_clean (parse_default_extension_map empty_mime_state)"
proof -
  have "\<forall>l \<in> set default_extension_map. clean l" by code_simp
  moreover have "types_clean empty_mime_state" by (simp add: types_clean_def) (simp add: empty_mime_state_def)
  moreover have "types_clean (foldl (\<lambda>st l. parse_mimetype_line l st) st ls)"
    if "types_clean st" "\<forall>l \<in> set ls. clean l" for st ls
    using that by (induction ls arbitrary: st) (auto intro: parse_mimetype_line_types)
  ultimately show ?thesis unfolding parse_default_extension_map_def by blast
qed

lemma sort_mime_map_types: "types_clean st \<Longrightarrow> m \<in> set (mime_map (sort_mime_map st)) \<Longrightarrow> clean (mimetype m)"
proof -
  assume "types_clean st" "m \<in> set (mime_map (sort_mime_map st))"
  moreover have "mset (mime_map (sort_mime_map st)) = mset (mime_map st)" by (simp add: sort_mime_map_def)
  then have "set (mime_map (sort_mime_map st)) = set (mime_map st)" by (rule mset_eq_setD)
  ultimately show ?thesis by (simp add: types_clean_def)
qed


lemma parse_option_keeps:
  assumes "parse_option sys arg args cfg = Inr (args', cfg')" "options_ok cfg" "\<forall>a \<in> set args. nul_free_str a"
  shows "options_ok cfg' \<and> (\<forall>a \<in> set args'. nul_free_str a)"
proof -
  have h: "hdr_block (custom_hdrs cfg @ v @ CRLF)" if "strchr v LF = None" "nul_free_str v" for v
  proof -
    have "clean v" using that by (auto simp: clean_def strchr_None)
    then show ?thesis using assms(2) hdr_block_append [OF _ hdr_block_line1] by (simp add: options_ok_def)
  qed
  from assms(1) show ?thesis
    unfolding parse_option_def
    using assms(2,3)
    by (elim if_eqE)
      (auto simp: with_arg_def with_num_def add_forward_mapping_def options_ok_def
        intro: parse_extension_map_file_types h [simplified] split: list.splits sum.splits option.splits if_splits)
qed

lemma parse_options_keeps:
  "parse_options sys args cfg = Inr cfg' \<Longrightarrow> options_ok cfg \<Longrightarrow> \<forall>a \<in> set args. nul_free_str a \<Longrightarrow> options_ok cfg'"
proof (induction sys args cfg rule: parse_options.induct)
  case (2 sys arg args cfg)
  from "2.prems"(1) obtain args1 cfg1 where p: "parse_option sys arg args cfg = Inr (args1, cfg1)"
    "parse_options sys args1 cfg1 = Inr cfg'" by (auto split: sum.splits)
  from parse_option_keeps [OF p(1) "2.prems"(2)] "2.prems"(3)
  have "options_ok cfg1 \<and> (\<forall>a \<in> set args1. nul_free_str a)" by simp
  with "2.IH" [OF p(1) refl p(2)] show ?case by blast
qed simp

lemma parse_commandline_keeps:
  assumes "parse_commandline sys argv cfg = Inr cfg'" "types_clean (mime cfg)" "\<forall>a \<in> set argv. nul_free_str a"
  shows "options_ok cfg'"
proof -
  have "\<forall>a \<in> set (drop 2 argv). nul_free_str a" using assms(3) by (auto dest: in_set_dropD)
  then have k: "options_ok cfg'" if "parse_options sys (drop 2 argv) d = Inr cfg'" "custom_hdrs d = []"
      "mime d = mime cfg" for d
    using parse_options_keeps [OF that(1)] that(2,3) assms(2) by (simp add: options_ok_def hdr_block_Nil)
  let ?c0 = "(if sys_uid sys = 0 then cfg\<lparr>bindport := 80\<rparr> else cfg)\<lparr>custom_hdrs := [], wwwroot := argv ! 1\<rparr>"
  from assms(1) have "parse_options sys (drop 2 argv)
      (if length (wwwroot ?c0) > 1 \<and> wwwroot ?c0 ! (length (wwwroot ?c0) - 1) = CHR ''/''
       then ?c0\<lparr>wwwroot := take (length (wwwroot ?c0) - 1) (wwwroot ?c0)\<rparr> else ?c0) = Inr cfg'"
    unfolding parse_commandline_def Let_def by (elim if_eqE) simp_all
  then show ?thesis by (rule k) simp_all
qed

text \<open>C40. Whatever the arguments are, in a configuration the program accepts the custom headers, the
  server line and the keep-alive line are complete header lines, and every content type of the
  table (from the built-in list and from any file) is a single line; so the conditions under which
  the answers are well-formed messages hold exactly if the type given with \<^verbatim>\<open>--default-mimetype\<close>, which
  is the one argument that is not looked at, is a single line too.\<close>

theorem configure_ok:
  assumes "configure sys argv = Inr cfg" "\<forall>a \<in> set argv. nul_free_str a"
  shows "config_ok cfg \<and> (\<forall>m \<in> set (mime_map (mime cfg)). clean (mimetype m)) \<and>
    (types_ok cfg \<longleftrightarrow> clean (default_mimetype cfg))"
proof -
  let ?cfg = "initial_config\<lparr>mime := parse_default_extension_map (mime initial_config)\<rparr>"
  from assms(1) obtain c where c: "parse_commandline sys argv ?cfg = Inr c"
    "cfg = c\<lparr>mime := sort_mime_map (mime c),
            keep_alive_field := ''Keep-Alive: timeout='' @ dec_int (timeout_secs c) @ CRLF,
            server_hdr := (if want_server_id c then ''Server: '' @ pkgname @ CRLF else [])\<rparr>"
    unfolding configure_def Let_def by (auto split: sum.splits)
  have "types_clean (mime ?cfg)"
    using parse_default_extension_map_types by (simp add: initial_config_def)
  with parse_commandline_keeps [OF c(1) _ assms(2)] have o: "options_ok c" by blast
  have "clean (''Server: '' @ pkgname)" "clean (''Keep-Alive: timeout='' @ dec_int i)" for i
    by (simp_all add: pkgname_def)
  from hdr_block_line1 [OF this(1)] hdr_block_line1 [OF this(2)] o
  have "config_ok cfg" by (simp add: c(2) config_ok_def options_ok_def hdr_block_Nil)
  moreover have "\<forall>m \<in> set (mime_map (mime cfg)). clean (mimetype m)"
    using o sort_mime_map_types [of "mime c"] by (auto simp: c(2) options_ok_def)
  ultimately show ?thesis by (simp add: types_ok_def)
qed


definition sample_system :: host_system where
  "sample_system = \<lparr>sys_uid = 0, sys_getpwnam = (\<lambda>n. if n = ''www'' then Some 80 else None),
     sys_getpwuid = (\<lambda>i. None), sys_getgrnam = (\<lambda>n. None), sys_getgrgid = Some, sys_is_ip = (\<lambda>s. True),
     sys_file = (\<lambda>f. None)\<rparr>"

theorem configure_ok_witness:
  "\<exists>cfg. configure sample_system [''darkhttpd'', ''/w/'', ''--header'', ''X: y'', ''--uid'', ''www''] = Inr cfg \<and>
     wwwroot cfg = ''/w'' \<and> custom_hdrs cfg = ''X: y'' @ CRLF \<and> drop_uid cfg = 80 \<and> types_ok cfg"
proof -
  let ?argv = "[''darkhttpd'', ''/w/'', ''--header'', ''X: y'', ''--uid'', ''www'']"
  have h: "parse_option sys ''--header'' (''X: y'' # args) c = Inr (args, c\<lparr>custom_hdrs := custom_hdrs c @ ''X: y'' @ CRLF\<rparr>)"
    for sys args c
  proof -
    have "sublist '': '' ''X: y''" by code_simp
    then show ?thesis by (simp add: parse_option_def with_arg_def)
  qed
  have u: "parse_option sample_system ''--uid'' [''www''] c = Inr ([], c\<lparr>drop_uid := 80\<rparr>)" for c
    by (simp add: parse_option_def with_arg_def lookup_id_def sample_system_def)
  obtain cfg where cfg: "configure sample_system ?argv = Inr cfg" "wwwroot cfg = ''/w''"
    "custom_hdrs cfg = ''X: y'' @ CRLF" "drop_uid cfg = 80" "default_mimetype cfg = octet_stream"
    by (simp add: configure_def parse_commandline_def Let_def h u initial_config_def)
  moreover have "clean octet_stream" by (simp add: octet_stream_def)
  ultimately have "types_ok cfg" using configure_ok [OF cfg(1)] by simp
  with cfg show ?thesis by blast
qed

text \<open>What the options let through: no digits at all are the number 0, a port is taken modulo 65536, a
  time-out may be negative, and a default type may have a line break, which then splits the header
  of an answer.\<close>

theorem empty_number_accepted: "str_to_num [] = Some 0"
  by code_simp

theorem port_wraps:
  "parse_option sys ''--port'' [dec 65616] cfg = Inr ([], cfg\<lparr>bindport := 80\<rparr>)"
proof -
  have "str_to_num (dec 65616) = Some 65616" using str_to_num_dec_int [of 65616] by (simp add: dec_int_def)
  then show ?thesis by (simp add: parse_option_def with_arg_def with_num_def xstr_to_num_def)
qed

theorem negative_timeout_accepted:
  "parse_option sys ''--timeout'' [''-1''] cfg = Inr ([], cfg\<lparr>timeout_secs := -1\<rparr>)"
proof -
  have "str_to_num ''-1'' = Some (-1)" by code_simp
  then show ?thesis by (simp add: parse_option_def with_arg_def with_num_def xstr_to_num_def to_int_def)
qed

theorem default_mimetype_newline:
  "parse_option sys ''--default-mimetype'' [''a'' @ LF # ''b''] cfg = Inr ([], cfg\<lparr>default_mimetype := ''a'' @ LF # ''b''\<rparr>) \<and>
   \<not> types_ok (cfg\<lparr>default_mimetype := ''a'' @ LF # ''b''\<rparr>)"
  by (simp add: parse_option_def with_arg_def types_ok_def clean_def)

end
