(* ===== verification/Calls.thy ===== *)
theory Calls
  imports Cmdline ConnList
begin

text \<open>
  The calls by which the process sets itself up: creating the listening socket, becoming a daemon
  and the pid file.  The calls are recorded in order; the kernel may refuse any of them, which
  ends the process unless the program only warns.
\<close>

section \<open>Calls that change the process\<close>

text \<open>The address a socket is bound to, with its port.\<close>

datatype sockaddr = Sin "32 word" "16 word" | Sin6 "8 word list" "16 word"

datatype call =
    Socket bool
  | Setsockopt fd string int
  | Bind fd sockaddr
  | Getsockname fd
  | Listen fd int
  | Fopen string
  | Pipe
  | Open_null
  | Fork
  | Waitpid
  | Signal string
  | Chdir string
  | Chroot string
  | Setgroups "32 word list"
  | Setgid "32 word"
  | Setuid "32 word"
  | Open_pidfile string
  | Ftruncate fd
  | Pwrite fd string
  | Unlink string
  | Setsid
  | Dup2 fd fd
  | Close fd

text \<open>Which calls are allowed, given those made before; what the other calls answer while the process
  starts: the descriptors, the process id, the side of the fork it is on, and the two functions of
  the library that read an address.\<close>

type_synonym kernel = "call list \<Rightarrow> call \<Rightarrow> bool"

datatype fork_result = Child | Parent "int option"

record boot =
  boot_sockin :: fd
  boot_pidfd :: fd
  boot_lifeline :: "fd \<times> fd"
  boot_null :: fd
  boot_pid :: int
  boot_fork :: fork_result
  boot_inet_pton :: "string \<Rightarrow> 8 word list option"
  boot_inet_addr :: "string \<Rightarrow> 32 word"

definition and_then :: "exit + 'a \<Rightarrow> ('a \<Rightarrow> exit + 'b) \<Rightarrow> exit + 'b" where
  "and_then r f = (case r of Inl e \<Rightarrow> Inl e | Inr x \<Rightarrow> f x)"

text \<open>A call that ends the process if the kernel refuses it.\<close>

definition call_or_die :: "kernel \<Rightarrow> call \<Rightarrow> call list \<Rightarrow> exit + call list" where
  "call_or_die allows c calls = (if allows calls c then Inr (calls @ [c]) else Inl (Exit 1))"

text \<open>A call whose failure is only reported.\<close>

definition call_or_warn :: "kernel \<Rightarrow> call \<Rightarrow> call list \<Rightarrow> call list" where
  "call_or_warn allows c calls = (if allows calls c then calls @ [c] else calls)"

section \<open>The listening socket\<close>

definition INADDR_NONE :: "32 word" where
  "INADDR_NONE = -1"

text \<open>The address, and the kind of socket.\<close>

definition bind_address :: "boot \<Rightarrow> config \<Rightarrow> exit + sockaddr" where
  "bind_address b cfg =
     (if inet6 cfg then
        (case boot_inet_pton b (case bindaddr cfg of Some a \<Rightarrow> a | None \<Rightarrow> ''::'') of
           None \<Rightarrow> Inl (Exit 1)
         | Some addr \<Rightarrow> Inr (Sin6 addr (bindport cfg)))
      else
        (let addr = (case bindaddr cfg of Some a \<Rightarrow> boot_inet_addr b a | None \<Rightarrow> 0) in
         if addr = INADDR_NONE then Inl (Exit 1) else Inr (Sin addr (bindport cfg))))"

definition init_sockin :: "kernel \<Rightarrow> boot \<Rightarrow> config \<Rightarrow> call list \<Rightarrow> exit + call list" where
  "init_sockin allows b cfg calls =
     (let sockin = boot_sockin b in
      and_then (bind_address b cfg) (\<lambda>addr.
      and_then (call_or_die allows (Socket (inet6 cfg)) calls) (\<lambda>calls.
      and_then (call_or_die allows (Setsockopt sockin ''SO_REUSEADDR'' 1) calls) (\<lambda>calls.
      and_then (call_or_die allows (Setsockopt sockin ''TCP_NODELAY'' 1) calls) (\<lambda>calls.
      and_then (if inet6 cfg then call_or_die allows (Setsockopt sockin ''IPV6_V6ONLY'' 0) calls else Inr calls) (\<lambda>calls.
      and_then (call_or_die allows (Bind sockin addr) calls) (\<lambda>calls.
      and_then (call_or_die allows (Getsockname sockin) calls) (\<lambda>calls.
        call_or_die allows (Listen sockin (max_connections cfg)) calls))))))))"

section \<open>Becoming a daemon\<close>

text \<open>The parent waits until the child cuts the lifeline or ends, and passes on how the child ended;
  it never goes on.\<close>

definition daemonize_start :: "kernel \<Rightarrow> boot \<Rightarrow> call list \<Rightarrow> exit + call list" where
  "daemonize_start allows b calls =
     and_then (call_or_die allows Pipe calls) (\<lambda>calls.
     and_then (call_or_die allows Open_null calls) (\<lambda>calls.
     and_then (call_or_die allows Fork calls) (\<lambda>calls.
       case boot_fork b of
         Child \<Rightarrow> Inr calls
       | Parent status \<Rightarrow>
           and_then (call_or_die allows Waitpid (call_or_warn allows (Close (snd (boot_lifeline b))) calls)) (\<lambda>calls.
             case status of None \<Rightarrow> Inl (Exit 0) | Some n \<Rightarrow> Inl (Exit n)))))"

definition daemonize_finish :: "kernel \<Rightarrow> boot \<Rightarrow> call list \<Rightarrow> exit + call list" where
  "daemonize_finish allows b calls =
     (if boot_null b = -1 then Inr calls
      else
        and_then (call_or_die allows Setsid calls) (\<lambda>calls.
          let calls = call_or_warn allows (Close (fst (boot_lifeline b))) calls;
              calls = call_or_warn allows (Close (snd (boot_lifeline b))) calls;
              calls = call_or_warn allows (Dup2 (boot_null b) 0) calls;
              calls = call_or_warn allows (Dup2 (boot_null b) 1) calls;
              calls = call_or_warn allows (Dup2 (boot_null b) 2) calls
          in Inr (if boot_null b > 2 then call_or_warn allows (Close (boot_null b)) calls else calls)))"

section \<open>The pid file\<close>

definition pidfile_remove :: "kernel \<Rightarrow> config \<Rightarrow> fd \<Rightarrow> call list \<Rightarrow> exit + call list" where
  "pidfile_remove allows cfg pidfd calls =
     and_then (call_or_die allows (Unlink (the (pidfile_name cfg))) calls) (call_or_die allows (Close pidfd))"

text \<open>What is read from a pid file with these contents.\<close>

definition pidfile_read :: "string \<Rightarrow> exit + int" where
  "pidfile_read contents =
     (let buf = cstr (take 15 contents) in
      case str_to_num buf of None \<Rightarrow> Inl (Exit 1) | Some pid \<Rightarrow> Inr (to_int pid))"

definition pidstr :: "int \<Rightarrow> string" where
  "pidstr pid = snprintf 16 (dec_int pid)"

text \<open>If opening fails the process ends in any case, with or without naming the other process; if a
  later call fails, the file is removed first.\<close>

definition pidfile_create :: "kernel \<Rightarrow> boot \<Rightarrow> config \<Rightarrow> call list \<Rightarrow> exit + call list" where
  "pidfile_create allows b cfg calls =
     and_then (call_or_die allows (Open_pidfile (the (pidfile_name cfg))) calls) (\<lambda>calls. let fd = boot_pidfd b in
       if \<not> allows calls (Ftruncate fd) then and_then (pidfile_remove allows cfg fd calls) (\<lambda>calls. Inl (Exit 1))
       else
         (let calls = calls @ [Ftruncate fd] in
          if \<not> allows calls (Pwrite fd (pidstr (boot_pid b))) then
            and_then (pidfile_remove allows cfg fd calls) (\<lambda>calls. Inl (Exit 1))
          else Inr (calls @ [Pwrite fd (pidstr (boot_pid b))])))"

lemma and_then_Inr: "and_then r f = Inr y \<longleftrightarrow> (\<exists>x. r = Inr x \<and> f x = Inr y)"
  by (cases r) (auto simp: and_then_def)

lemma and_then_simps [simp]: "and_then (Inl e) f = Inl e" "and_then (Inr x) f = f x"
  by (simp_all add: and_then_def)

lemma call_or_die_Inr: "call_or_die allows c calls = Inr calls' \<longleftrightarrow> allows calls c \<and> calls' = calls @ [c]"
  by (auto simp: call_or_die_def)

lemmas call_simps = and_then_Inr call_or_die_Inr

section \<open>The pid file is read back\<close>

lemma dec_int_length: "0 \<le> n \<Longrightarrow> n < 10 ^ k \<Longrightarrow> 0 < k \<Longrightarrow> length (dec_int n) \<le> k"
  by (simp add: dec_int_def length_dec nat_less_iff)

text \<open>What is written to the pid file is read back.\<close>

lemma pidfile_roundtrip:
  assumes "0 \<le> pid" "pid < 2 ^ 31"
  shows "pidfile_read (pidstr pid) = Inr pid"
proof -
  have "length (dec_int pid) \<le> 10" using assms by (intro dec_int_length) simp_all
  then have "pidstr pid = dec_int pid" "take 15 (dec_int pid) = dec_int pid"
    by (simp_all add: pidstr_def snprintf_def)
  moreover have "to_int pid = pid"
    using assms by (simp add: to_int_def sint_sbintrunc' signed_take_bit_int_eq_self)
  moreover have "LLONG_MIN \<le> pid \<and> pid \<le> LLONG_MAX" using assms by simp
  moreover have "cstr (dec_int pid) = dec_int pid" using clean_dec(2) [of pid] by (simp add: clean_def)
  ultimately show ?thesis by (simp add: pidfile_read_def str_to_num_dec_int)
qed

section \<open>Which calls are made\<close>

text \<open>The stages of the start, in the order that is safe: the socket, whose port may need the super
  user, is bound before it listens, and the log file, which may be outside the new root, is opened
  before the root is changed; the root before the privileges are dropped, for only the super user
  may change it; the groups before the user; then the pid file, which is emptied before it is
  written; the terminal is given up last, so that errors are still seen.\<close>

fun stage :: "call \<Rightarrow> nat" where
  "stage (Socket v6) = 0"
| "stage (Setsockopt s opt v) = 1"
| "stage (Bind s a) = 2"
| "stage (Getsockname s) = 3"
| "stage (Listen s n) = 4"
| "stage (Fopen f) = 5"
| "stage (Signal n) = 7"
| "stage (Chdir p) = 8"
| "stage (Chroot p) = 9"
| "stage (Setgroups g) = 10"
| "stage (Setgid g) = 11"
| "stage (Setuid u) = 12"
| "stage (Open_pidfile f) = 13"
| "stage (Ftruncate fd) = 14"
| "stage (Pwrite fd t) = 15"
| "stage Setsid = 16"
| "stage (Close fd) = 17"
| "stage (Dup2 a b) = 17"
| "stage (Unlink f) = 17"
| "stage _ = 6"

text \<open>What an operation adds to the calls.\<close>

definition adds :: "(call list \<Rightarrow> bool) \<Rightarrow> call list \<Rightarrow> call list \<Rightarrow> bool" where
  "adds P calls calls' \<longleftrightarrow> (\<exists>new. calls' = calls @ new \<and> P new)"

definition at_stages :: "nat set \<Rightarrow> call list \<Rightarrow> bool" where
  "at_stages A new \<longleftrightarrow> sorted (map stage new) \<and> stage ` set new \<subseteq> A"

lemma at_stages_Nil [simp]: "at_stages A []"
  by (simp add: at_stages_def)

lemma at_stages_Cons:
  "at_stages A (c # cs) \<longleftrightarrow> stage c \<in> A \<and> (\<forall>d \<in> set cs. stage c \<le> stage d) \<and> at_stages A cs"
  by (auto simp: at_stages_def)

lemma at_stages_append:
  "at_stages A (a @ b) \<longleftrightarrow> at_stages A a \<and> at_stages A b \<and> (\<forall>c \<in> set a. \<forall>d \<in> set b. stage c \<le> stage d)"
  by (auto simp: at_stages_def sorted_append)

lemma at_stages_join:
  assumes "at_stages A a" "at_stages B b" "\<And>x y. x \<in> A \<Longrightarrow> y \<in> B \<Longrightarrow> x \<le> y"
  shows "at_stages (A \<union> B) (a @ b)"
  using assms by (fastforce simp: at_stages_def sorted_append)

lemma init_sockin_calls:
  assumes "init_sockin allows b cfg calls = Inr calls'"
  shows "adds (\<lambda>new. at_stages {0..4} new \<and> (\<exists>a. bind_address b cfg = Inr a \<and>
    {Socket (inet6 cfg), Bind (boot_sockin b) a, Listen (boot_sockin b) (max_connections cfg)} \<subseteq> set new)) calls calls'"
  using assms by (auto simp: init_sockin_def Let_def call_simps adds_def at_stages_Cons split: if_splits)

lemma daemonize_start_calls:
  assumes "daemonize_start allows b calls = Inr calls'"
  shows "adds (\<lambda>new. at_stages {6} new \<and> {Pipe, Open_null, Fork} \<subseteq> set new) calls calls' \<and> boot_fork b = Child"
  using assms by (auto simp: daemonize_start_def call_simps adds_def at_stages_Cons
      split: fork_result.splits option.splits)

text \<open>A call whose failure is only reported is made unless the kernel refuses it.\<close>

definition tried :: "kernel \<Rightarrow> call list \<Rightarrow> call \<Rightarrow> bool" where
  "tried allows calls c \<longleftrightarrow> c \<in> set calls \<or> (\<exists>before. \<not> allows before c)"

lemma call_or_warn_tried:
  "tried allows (call_or_warn allows c calls) c"
  "tried allows calls d \<Longrightarrow> tried allows (call_or_warn allows c calls) d"
  by (auto simp: call_or_warn_def tried_def)

lemma call_or_warn_adds:
  "adds (at_stages {16..17}) calls calls' \<Longrightarrow> stage c = 17 \<Longrightarrow>
   adds (at_stages {16..17}) calls (call_or_warn allows c calls')"
  by (auto simp: call_or_warn_def adds_def at_stages_def sorted_append image_subset_iff)

lemma call_or_warn_keeps: "c \<in> set calls \<Longrightarrow> c \<in> set (call_or_warn allows d calls)"
  by (simp add: call_or_warn_def)

text \<open>What cuts the daemon off from the terminal and from its parent.\<close>

definition detaching :: "boot \<Rightarrow> call list" where
  "detaching b = [Close (fst (boot_lifeline b)), Close (snd (boot_lifeline b)),
     Dup2 (boot_null b) 0, Dup2 (boot_null b) 1, Dup2 (boot_null b) 2] @
     (if boot_null b > 2 then [Close (boot_null b)] else [])"

lemma daemonize_finish_calls:
  assumes "daemonize_finish allows b calls = Inr calls'"
  shows "adds (at_stages {16..17}) calls calls'"
    "boot_null b \<noteq> -1 \<Longrightarrow> Setsid \<in> set calls' \<and> (\<forall>c \<in> set (detaching b). tried allows calls' c)"
proof -
  have "adds (at_stages {16..17}) calls calls" "adds (at_stages {16..17}) calls (calls @ [Setsid])"
    by (auto simp: adds_def at_stages_Cons)
  then show "adds (at_stages {16..17}) calls calls'" using assms
    by (auto simp: daemonize_finish_def Let_def call_simps split: if_splits intro!: call_or_warn_adds)
  assume n: "boot_null b \<noteq> -1"
  show "Setsid \<in> set calls' \<and> (\<forall>c \<in> set (detaching b). tried allows calls' c)"
  proof (cases "boot_null b > 2")
    case True
    with assms n show ?thesis
      by (auto simp: daemonize_finish_def Let_def call_simps detaching_def intro!: call_or_warn_tried call_or_warn_keeps)
  next
    case False
    with assms n show ?thesis
      by (auto simp: daemonize_finish_def Let_def call_simps detaching_def intro!: call_or_warn_tried call_or_warn_keeps)
  qed
qed

lemma pidfile_create_calls:
  assumes "pidfile_create allows b cfg calls = Inr calls'"
  shows "adds (\<lambda>new. at_stages {13..15} new \<and> {Open_pidfile (the (pidfile_name cfg)), Ftruncate (boot_pidfd b),
    Pwrite (boot_pidfd b) (pidstr (boot_pid b))} \<subseteq> set new) calls calls'"
  using assms by (auto simp: pidfile_create_def call_simps Let_def adds_def at_stages_Cons split: if_splits)

text \<open>The parent of a daemon never serves: it ends with 0 while the child runs, and as the child did
  if the child has ended.\<close>

lemma daemonize_parent:
  assumes "boot_fork b = Parent status" "\<And>calls c. allows calls c"
  shows "daemonize_start allows b calls = Inl (Exit (case status of None \<Rightarrow> 0 | Some n \<Rightarrow> n))"
  using assms by (simp add: daemonize_start_def call_or_die_def split: option.split)

end
