(* ===== verification/Startup.thy ===== *)
theory Startup
  imports Calls
begin

text \<open>
  The life of the process: what \<open>main\<close> does before the loop (the socket, the log file, becoming a
  daemon, signals, changing the root directory, dropping privileges, the pid file), the loop, and
  the shutdown.
\<close>

section \<open>Changing the root\<close>

text \<open>The search for the last slash, from the end.\<close>

fun last_slash :: "string \<Rightarrow> nat \<Rightarrow> nat option" where
  "last_slash s 0 = None"
| "last_slash s (Suc n) = (if s ! n = CHR ''/'' then Some n else last_slash s n)"

definition change_root :: "kernel \<Rightarrow> config \<Rightarrow> call list \<Rightarrow> exit + (config \<times> call list)" where
  "change_root allows cfg calls =
     (if want_single_file cfg then
        (case last_slash (wwwroot cfg) (length (wwwroot cfg)) of
           Some ofs \<Rightarrow>
             (let path = take (ofs + 1) (wwwroot cfg) in
              and_then (call_or_die allows (Chdir path) calls) (\<lambda>calls.
                let cfg = cfg\<lparr>wwwroot := drop ofs (wwwroot cfg)\<rparr> in
                and_then (call_or_die allows (Chroot path) calls) (\<lambda>calls. Inr (cfg, calls))))
         | None \<Rightarrow>
             and_then (call_or_die allows (Chroot ''.'') calls) (\<lambda>calls. Inr (cfg, calls)))
      else
        and_then (call_or_die allows (Chdir (wwwroot cfg)) calls) (\<lambda>calls.
          and_then (call_or_die allows (Chroot ''.'') calls) (\<lambda>calls.
            Inr (cfg\<lparr>wwwroot := []\<rparr>, calls))))"

section \<open>Before the loop\<close>

definition INVALID_ID :: "32 word" where
  "INVALID_ID = -1"

definition drop_privileges :: "kernel \<Rightarrow> config \<Rightarrow> call list \<Rightarrow> exit + call list" where
  "drop_privileges allows cfg calls =
     and_then
       (if drop_gid cfg \<noteq> INVALID_ID then
          and_then (call_or_die allows (Setgroups [drop_gid cfg]) calls) (\<lambda>calls.
            call_or_die allows (Setgid (drop_gid cfg)) calls)
        else Inr calls) (\<lambda>calls.
       if drop_uid cfg \<noteq> INVALID_ID then call_or_die allows (Setuid (drop_uid cfg)) calls else Inr calls)"

definition startup :: "kernel \<Rightarrow> boot \<Rightarrow> config \<Rightarrow> call list \<Rightarrow> exit + (config \<times> call list)" where
  "startup allows b cfg calls =
     and_then (init_sockin allows b cfg calls) (\<lambda>calls.
     and_then (case logfile_name cfg of None \<Rightarrow> Inr calls | Some f \<Rightarrow> call_or_die allows (Fopen f) calls) (\<lambda>calls.
     and_then (if want_daemon cfg then daemonize_start allows b calls else Inr calls) (\<lambda>calls.
     and_then (call_or_die allows (Signal ''PIPE'') calls) (\<lambda>calls.
     and_then (call_or_die allows (Signal ''INT'') calls) (\<lambda>calls.
     and_then (call_or_die allows (Signal ''TERM'') calls) (\<lambda>calls.
     and_then (if want_chroot cfg then change_root allows cfg calls else Inr (cfg, calls)) (\<lambda>(cfg, calls).
     and_then (drop_privileges allows cfg calls) (\<lambda>calls.
     and_then (if pidfile_name cfg \<noteq> None then pidfile_create allows b cfg calls else Inr calls) (\<lambda>calls.
     and_then (if want_daemon cfg then daemonize_finish allows b calls else Inr calls) (\<lambda>calls.
       Inr (cfg, calls)))))))))))"

section \<open>The loop and the shutdown\<close>

text \<open>The server when the loop begins: the log goes to the log file or to the standard output.\<close>

definition initial_server :: "int \<Rightarrow> server" where
  "initial_server t = \<lparr>now = t, accepting = True, running = True, num_requests = 0, total_in = 0,
     total_out = 0, logfile = Log_open, recvs = [], sends = [], trace = []\<rparr>"

text \<open>A turn of the loop: what the network answers, whether a signal arrives, what wakes \<^verbatim>\<open>select\<close>.
  The signal handler only clears \<open>running\<close>, which is read between two turns, so a signal that
  arrives in a turn takes effect at its end.\<close>

record turn =
  t_recvs :: "recv_result list"
  t_sends :: "send_result list"
  t_signal :: bool
  t_wakeup :: wakeup

fun main_loop :: "config \<Rightarrow> os \<Rightarrow> fd \<Rightarrow> turn list \<Rightarrow> connection list \<times> server \<Rightarrow> exit + (connection list \<times> server)" where
  "main_loop cfg os sockin [] st = Inr st"
| "main_loop cfg os sockin (t # ts) (conns, s) =
     (if \<not> running s then Inr (conns, s)
      else
        and_then (httpd_poll cfg os sockin (t_wakeup t) (conns, s\<lparr>recvs := t_recvs t, sends := t_sends t\<rparr>))
          (\<lambda>(conns, s). main_loop cfg os sockin ts (conns, if t_signal t then stop_running s else s)))"

fun free_connections :: "config \<Rightarrow> os \<Rightarrow> connection list \<Rightarrow> server \<Rightarrow> exit + server" where
  "free_connections cfg os [] s = Inr s"
| "free_connections cfg os (conn # conns) s =
     and_then (free_connection cfg os conn s) (free_connections cfg os conns)"

definition shutdown ::
    "config \<Rightarrow> os \<Rightarrow> kernel \<Rightarrow> fd \<Rightarrow> fd \<Rightarrow> connection list \<times> server \<Rightarrow> call list \<Rightarrow> exit + (server \<times> call list)" where
  "shutdown cfg os allows sockin pidfd = (\<lambda>(conns, s) calls.
     and_then (xclose os sockin s) (\<lambda>s.
       let s = (if logfile s \<noteq> Log_null then s\<lparr>logfile := Log_closed\<rparr> else s) in
       and_then (if pidfile_name cfg \<noteq> None then pidfile_remove allows cfg pidfd calls else Inr calls) (\<lambda>calls.
         and_then (free_connections cfg os conns s) (\<lambda>s. Inr (s, calls)))))"

definition main :: "host_system \<Rightarrow> os \<Rightarrow> kernel \<Rightarrow> boot \<Rightarrow> int \<Rightarrow> string list \<Rightarrow> turn list \<Rightarrow> exit + (server \<times> call list)" where
  "main sys os allows b t argv turns =
     and_then (configure sys argv) (\<lambda>cfg.
     and_then (startup allows b cfg []) (\<lambda>(cfg, calls).
     and_then (main_loop cfg os (boot_sockin b) turns ([], initial_server t)) (\<lambda>st.
       shutdown cfg os allows (boot_sockin b) (boot_pidfd b) st calls)))"

section \<open>The new root\<close>

lemma last_slash_SomeD:
  "last_slash s n = Some k \<Longrightarrow> k < n \<and> s ! k = CHR ''/'' \<and> (\<forall>i. k < i \<longrightarrow> i < n \<longrightarrow> s ! i \<noteq> CHR ''/'')"
  by (induction n) (auto split: if_splits simp: less_Suc_eq)

text \<open>What is served in the new root: a directory becomes the root itself; a single file is split at its
  last slash, the part before it (with the slash) becomes the root, and the name is what follows.\<close>

lemma change_root_splits:
  assumes "change_root allows cfg calls = Inr (cfg', calls')"
  shows "if \<not> want_single_file cfg then
      wwwroot cfg' = [] \<and> calls' = calls @ [Chdir (wwwroot cfg), Chroot ''.'']
    else if CHR ''/'' \<in> set (wwwroot cfg) then
      \<exists>dir name. wwwroot cfg = dir @ ''/'' @ name \<and> CHR ''/'' \<notin> set name \<and> wwwroot cfg' = ''/'' @ name \<and>
        calls' = calls @ [Chdir (dir @ ''/''), Chroot (dir @ ''/'')]
    else wwwroot cfg' = wwwroot cfg \<and> calls' = calls @ [Chroot ''.'']"
proof (cases "want_single_file cfg")
  case False
  with assms show ?thesis by (auto simp: change_root_def call_simps)
next
  case True
  have none: "last_slash s n = None \<Longrightarrow> i < n \<Longrightarrow> s ! i \<noteq> CHR ''/''" for s n i
    by (induction n) (auto split: if_splits simp: less_Suc_eq)
  show ?thesis
  proof (cases "last_slash (wwwroot cfg) (length (wwwroot cfg))")
    case None
    then have "CHR ''/'' \<notin> set (wwwroot cfg)" using none by (metis in_set_conv_nth)
    with None True assms show ?thesis by (auto simp: change_root_def call_simps)
  next
    case (Some k)
    let ?w = "wwwroot cfg"
    note k = last_slash_SomeD [OF Some]
    have w: "?w = take k ?w @ ''/'' @ drop (Suc k) ?w" "drop k ?w = ''/'' @ drop (Suc k) ?w"
      "take (k + 1) ?w = take k ?w @ ''/''"
      using k id_take_nth_drop [of k ?w] Cons_nth_drop_Suc [of k ?w] by (simp_all add: take_Suc_conv_app_nth)
    have "CHR ''/'' \<in> set ?w" using k nth_mem by metis
    moreover have "CHR ''/'' \<notin> set (drop (Suc k) ?w)" using k by (auto simp: in_set_conv_nth)
    moreover have "wwwroot cfg' = drop k ?w \<and> calls' = calls @ [Chdir (take (k + 1) ?w), Chroot (take (k + 1) ?w)]"
      using assms True Some by (auto simp: change_root_def call_simps Let_def)
    ultimately have "\<exists>dir name. ?w = dir @ ''/'' @ name \<and> CHR ''/'' \<notin> set name \<and> wwwroot cfg' = ''/'' @ name \<and>
        calls' = calls @ [Chdir (dir @ ''/''), Chroot (dir @ ''/'')]"
      using w by (intro exI [of _ "take k ?w"] exI [of _ "drop (Suc k) ?w"]) simp
    with True \<open>CHR ''/'' \<in> set ?w\<close> show ?thesis by simp
  qed
qed

text \<open>A relative path with a directory is taken twice: the process goes to the directory of the file
  and then changes its root to that path, which is now relative to it.\<close>

theorem relative_single_file_root:
  assumes "want_single_file cfg" "wwwroot cfg = ''d/f''"
  shows "change_root (\<lambda>_ _. True) cfg [] = Inr (cfg\<lparr>wwwroot := ''/f''\<rparr>, [Chdir ''d/'', Chroot ''d/''])"
  using assms by (simp add: change_root_def call_or_die_def numeral_2_eq_2 Let_def)

section \<open>The order of the calls\<close>







section \<open>The shutdown\<close>









text \<open>The log file is closed before the connections are freed, and freeing a connection writes its
  line to the log: a server that is stopped while it answers writes to a closed file.\<close>

theorem shutdown_logs_to_closed_file:
  assumes "shutdown cfg os allows sockin pidfd ([c], s) calls = Inr (s', calls')"
    "logfile s = Log_open" "\<not> syslog_enabled cfg" "c_http_code c \<noteq> 0" "c_method c \<noteq> None"
  shows "\<exists>l. Bad_log l \<in> set (trace s')"
proof -
  from assms(1,2) obtain u where f: "free_connection cfg os c u = Inr s'" "logfile u = Log_closed"
    by (auto simp: shutdown_def and_then_Inr xclose_def emit_def Let_def split: if_splits)
  obtain m where "c_method c = Some m" using assms(5) by blast
  then have "\<exists>l c'. log_connection cfg os c u = (c', emit (Bad_log l) u)"
    using f(2) assms(3,4) by (auto simp: log_connection_def Let_def)
  then obtain l c' where "log_connection cfg os c u = (c', emit (Bad_log l) u)" by blast
  with f(1) show ?thesis
    by (auto simp: free_connection_def xclose_def emit_def Let_def split: if_splits)
qed

end
