(* ===== verification/Messages.thy ===== *)
theory Messages
  imports Startup
begin

text \<open>
  What the program prints for its user: the usage text, which is compared with the options that
  \<open>parse_commandline\<close> accepts, and the statistics at the end of \<open>main\<close>.
\<close>

section \<open>The usage text\<close>

text \<open>One option: its name, argument and default, and what it does.  The text is that of the build
  for Linux with IPv6.\<close>

definition option_help :: "config \<Rightarrow> (string \<times> string list) list" where
  "option_help cfg =
    [(''--port number (default: '' @ dec (unat (bindport cfg)) @ '', or 80 if running as root)'',
       [''Specifies which port to listen on for connections.'',
        ''Pass 0 to let the system choose any free port for you.'']),
     (''--addr ip (default: all)'',
       [''If multiple interfaces are present, specifies'',
        ''which one to bind the listening port to.'']),
     (''--ipv6'',
       [''Listen on IPv6 address.'']),
     (''--daemon (default: don't daemonize)'',
       [''Detach from the controlling terminal and run in the background.'']),
     (''--pidfile filename (default: no pidfile)'',
       [''Write PID to the specified file. Note that if you are'',
        ''using --chroot, then the pidfile must be relative to,'',
        ''and inside the wwwroot.'']),
     (''--maxconn number (default: system maximum)'',
       [''Specifies how many concurrent connections to accept.'']),
     (''--log filename (default: stdout)'',
       [''Specifies which file to append the request log to.'']),
     (''--syslog'',
       [''Use syslog for request log.'']),
     (''--index filename (default: '' @ index_name cfg @ '')'',
       [''Default file to serve when a directory is requested.'']),
     (''--no-listing'',
       [''Do not serve listing if directory is requested.'']),
     (''--human-readable'',
       [''Show file sizes in directory listings as human-readable'',
        ''(e.g. 4.2M) instead of exact byte counts.'']),
     (''--mimetypes filename (optional)'',
       [''Parses specified file for extension-MIME associations.'']),
     (''--default-mimetype string (optional, default: '' @ octet_stream @ '')'',
       [''Files with unknown extensions are served as this mimetype.'']),
     (''--uid uid/uname, --gid gid/gname (default: don't privdrop)'',
       [''Drops privileges to given uid:gid after initialization.'']),
     (''--chroot (default: don't chroot)'',
       [''Locks server into wwwroot directory for added security.'']),
     (''--no-keepalive'',
       [''Disables HTTP Keep-Alive functionality.'']),
     (''--single-file'',
       [''Only serve a single file provided as /path/to/file instead'',
        ''of a whole directory.'']),
     (''--hide-dotfiles'',
       [''Don't serve dotfiles.'']),
     (''--forward host url (default: don't forward)'',
       [''Web forward (301 redirect).'',
        ''Requests to the host are redirected to the corresponding url.'',
        ''The option may be specified multiple times, in which case'',
        ''the host is matched in order of appearance.'']),
     (''--forward-all url (default: don't forward)'',
       [''Web forward (301 redirect).'',
        ''All requests are redirected to the corresponding url.'']),
     (''--forward-https (default: don't)'',
       [''If X-Forwarded-Proto isn't https, redirect to HTTPS.'',
        ''This is useful if darkhttpd is behind a reverse proxy'',
        ''that supports SSL.'']),
     (''--no-server-id'',
       [''Don't identify the server type in headers'',
        ''or directory listings.'']),
     (''--timeout secs (default: '' @ dec_int (timeout_secs cfg) @ '')'',
       [''If a connection is idle for more than this many seconds,'',
        ''it will be closed. Set to zero to disable timeouts.'']),
     (''--auth username:password'',
       [''Enable basic authentication. This is *INSECURE*: passwords'',
        ''are sent unencrypted over HTTP, plus the password is visible'',
        ''in ps(1) to other users on the system.'']),
     (''--trusted-ip ip'',
       [''If the request comes from this IP, the X-Forwarded-For header'',
        ''content is used in the log instead of the connection peer IP.'']),
     (''--header 'Header: Value'' @ [CHR 0x27],
       [''Add a custom header to all responses.'',
        ''This option can be specified multiple times, in which case'',
        ''the headers are added in order of appearance.''])]"

definition print_help :: "string \<times> string list \<Rightarrow> string" where
  "print_help = (\<lambda>(flag, about).
     TAB # flag @ [LF] @ concat (map (\<lambda>l. TAB # TAB # l @ [LF]) about) @ [LF])"

definition usage :: "config \<Rightarrow> string \<Rightarrow> string" where
  "usage cfg argv0 =
     ''usage:'' @ [TAB] @ argv0 @ '' /path/to/wwwroot [flags]'' @ [LF, LF] @ ''flags:'' @
     concat (map print_help (option_help cfg))"

section \<open>The options that are documented are those that are accepted\<close>

text \<open>The options a text names: the words that begin with two dashes, in the lines that have such a
  word right after their first tab (other lines mention options in passing).\<close>

definition after_tab :: "string \<Rightarrow> string" where
  "after_tab l = drop 1 (dropWhile (\<lambda>c. c \<noteq> TAB) l)"

definition long_option :: "string \<Rightarrow> bool" where
  "long_option w \<longleftrightarrow> take 2 w = ''--''"

definition documented_options :: "string \<Rightarrow> string list" where
  "documented_options text =
     concat (map (filter long_option \<circ> words) (filter long_option (map after_tab (lines_of text))))"

definition line_of_text :: "string \<Rightarrow> bool" where
  "line_of_text l \<longleftrightarrow> list_all (\<lambda>c. c \<noteq> LF \<and> c \<noteq> CR) l"

lemma line_of_text_simps [simp]:
  "line_of_text []"
  "line_of_text (c # l) \<longleftrightarrow> c \<noteq> LF \<and> c \<noteq> CR \<and> line_of_text l"
  "line_of_text (l @ m) \<longleftrightarrow> line_of_text l \<and> line_of_text m"
  by (simp_all add: line_of_text_def)

lemma lines_of_line:
  assumes "line_of_text l"
  shows "lines_of (l @ LF # t) = l # lines_of t"
proof -
  have "\<forall>c \<in> set l. c \<noteq> LF \<and> c \<noteq> CR" using assms by (simp add: line_of_text_def list_all_iff)
  then show ?thesis by (subst lines_of.simps) (simp add: takeWhile_append dropWhile_append strip_eol_def)
qed

lemma long_option_Nil [simp]: "\<not> long_option []"
  by (simp add: long_option_def)

lemma documented_options_line:
  "line_of_text l \<Longrightarrow> documented_options (l @ LF # t) =
     (if long_option (after_tab l) then filter long_option (words (after_tab l)) else []) @ documented_options t"
  by (simp add: documented_options_def lines_of_line)

lemma documented_options_about:
  "list_all line_of_text about \<Longrightarrow>
   documented_options (concat (map (\<lambda>l. TAB # TAB # l @ [LF]) about) @ t) = documented_options t"
proof (induction about)
  case (Cons l about)
  then show ?case
    using documented_options_line [of "TAB # TAB # l"] by (simp add: after_tab_def long_option_def)
qed simp

lemma documented_options_entries:
  assumes "list_all (\<lambda>(flag, about). line_of_text flag \<and> long_option flag \<and> list_all line_of_text about) es"
  shows "documented_options (concat (map print_help es)) = concat (map (filter long_option \<circ> words \<circ> fst) es)"
  using assms
proof (induction es)
  case Nil
  show ?case by (simp add: documented_options_def lines_of.simps)
next
  case (Cons e es)
  then show ?case
    using documented_options_line [of "TAB # fst e"] documented_options_line [of "[]"]
      documented_options_about [of "snd e"]
    by (simp add: print_help_def after_tab_def split_beta)
qed

lemma documented_options_flags:
  assumes "list_all (\<lambda>(flag, about). line_of_text flag \<and> long_option flag \<and> list_all line_of_text about) es"
    "es \<noteq> []"
  shows "documented_options (''flags:'' @ concat (map print_help es)) = documented_options (concat (map print_help es))"
proof (cases es)
  case Nil
  with assms(2) show ?thesis by blast
next
  case (Cons e es')
  then show ?thesis
    using assms documented_options_line [of "''flags:'' @ TAB # fst e"] documented_options_line [of "TAB # fst e"]
    by (simp add: print_help_def after_tab_def split_beta)
qed

definition options_named :: "string list" where
  "options_named =
  [''--port'', ''--addr'', ''--ipv6'', ''--daemon'', ''--pidfile'', ''--maxconn'', ''--log'', ''--syslog'', ''--index'',
   ''--no-listing'', ''--human-readable'', ''--mimetypes'', ''--default-mimetype'', ''--uid'', ''--gid'', ''--chroot'',
   ''--no-keepalive'', ''--single-file'', ''--hide-dotfiles'', ''--forward'', ''--forward-all'', ''--forward-https'',
   ''--no-server-id'', ''--timeout'', ''--auth'', ''--trusted-ip'', ''--header'']"

lemma initial_numbers: "dec 8080 = ''8080''" "dec_int 30 = ''30''"
proof -
  have "digit_char 8 = CHR ''8''" "digit_char 3 = CHR ''3''" "digit_char 0 = CHR ''0''" by code_simp+
  then show "dec 8080 = ''8080''" "dec_int 30 = ''30''" by (simp_all add: dec_int_def dec.simps)
qed

lemma usage_options:
  assumes "line_of_text argv0" "\<not> long_option argv0"
  shows "documented_options (usage initial_config argv0) = options_named"
proof -
  have entries: "list_all (\<lambda>(flag, about). line_of_text flag \<and> long_option flag \<and> list_all line_of_text about)
      (option_help initial_config)"
    by (simp add: option_help_def initial_config_def initial_numbers octet_stream_def long_option_def)
  have "line_of_text (''usage:'' @ TAB # argv0 @ '' /path/to/wwwroot [flags]'')" using assms(1)
    by simp
  moreover have "\<not> long_option (argv0 @ '' /path/to/wwwroot [flags]'')" using assms(2)
    by (cases argv0 rule: list.exhaust; cases "tl argv0") (auto simp: long_option_def)
  ultimately have "documented_options (usage initial_config argv0) =
      documented_options (''flags:'' @ concat (map print_help (option_help initial_config)))"
    using documented_options_line [of "''usage:'' @ TAB # argv0 @ '' /path/to/wwwroot [flags]''"]
      documented_options_line [of "[]"] by (simp add: usage_def after_tab_def long_option_def)
  also have "\<dots> = documented_options (concat (map print_help (option_help initial_config)))"
    by (rule documented_options_flags [OF entries]) (simp add: option_help_def)
  also have "\<dots> = concat (map (filter long_option \<circ> words \<circ> fst) (option_help initial_config))"
    by (rule documented_options_entries [OF entries])
  also have "\<dots> = options_named"
    by (simp add: option_help_def initial_config_def initial_numbers octet_stream_def words.simps blank_def
        long_option_def options_named_def)
  finally show ?thesis .
qed

text \<open>A system that knows every user, group, address and file.\<close>

definition generous_system :: host_system where
  "generous_system = \<lparr>sys_uid = 0, sys_getpwnam = (\<lambda>n. Some 1), sys_getpwuid = Some,
     sys_getgrnam = (\<lambda>n. Some 1), sys_getgrgid = Some, sys_is_ip = (\<lambda>s. True), sys_file = (\<lambda>f. Some [])\<rparr>"

definition option_argument :: "string \<Rightarrow> string" where
  "option_argument arg = (if arg \<in> {''--port'', ''--maxconn'', ''--timeout''} then ''1'' else '': '')"

lemma documented_option_accepted:
  assumes "arg \<in> set options_named \<or> arg = ''--accf''"
  shows "\<exists>r. parse_option generous_system arg [option_argument arg, option_argument arg] cfg = Inr r"
proof -
  have n: "xstr_to_num ''1'' = Inr 1" by code_simp
  have h: "sublist '': '' '': ''" "strchr '': '' (CHR '':'') = Some 0" "strchr '': '' LF = None" by code_simp+
  show ?thesis using assms
    unfolding options_named_def list.set insert_iff empty_iff
    by (elim disjE) (simp_all add: parse_option_def with_arg_def with_num_def option_argument_def n h lookup_id_def
        generous_system_def)
qed

lemma if_condE:
  assumes "(if b then x else y) = z"
  obtains b | "y = z"
  using assms by (cases b) simp_all

lemma accepted_option_documented:
  assumes "parse_option sys arg args cfg = Inr r"
  shows "arg \<in> set options_named \<or> arg = ''--accf''"
  using assms unfolding parse_option_def strcmp_eq_0
  by (elim if_condE) (simp_all add: options_named_def)

lemma accepted_options:
  "{arg. \<exists>sys args cfg r. parse_option sys arg args cfg = Inr r} = insert ''--accf'' (set options_named)"
proof (intro set_eqI iffI)
  fix arg
  assume "arg \<in> {arg. \<exists>sys args cfg r. parse_option sys arg args cfg = Inr r}"
  then show "arg \<in> insert ''--accf'' (set options_named)"
    using accepted_option_documented [of _ arg] unfolding mem_Collect_eq insert_iff by metis
next
  fix arg
  assume "arg \<in> insert ''--accf'' (set options_named)"
  then have "arg \<in> set options_named \<or> arg = ''--accf''" unfolding insert_iff by (simp only: disj_commute)
  from documented_option_accepted [OF this] obtain r where
    "parse_option generous_system arg [option_argument arg, option_argument arg] initial_config = Inr r" by blast
  then show "arg \<in> {arg. \<exists>sys args cfg r. parse_option sys arg args cfg = Inr r}" by (intro CollectI exI)
qed

text \<open>C38. The usage text is complete and true: the options named in the text that is printed, for a
  program name that is one line and not an option itself, and \<^verbatim>\<open>--accf\<close>, which the text names on
  FreeBSD only, are exactly those that the parser of the command line accepts with some arguments on some system.\<close>

theorem usage_documents_options:
  assumes "line_of_text argv0" "\<not> long_option argv0"
  shows "{arg. \<exists>sys args cfg r. parse_option sys arg args cfg = Inr r} =
    insert ''--accf'' (set (documented_options (usage initial_config argv0)))"
  unfolding usage_options [OF assms] by (rule accepted_options)

theorem usage_documents_options_witness:
  "\<exists>sys args cfg r. parse_option sys ''--ipv6'' args cfg = Inr r"
proof -
  have "line_of_text ''darkhttpd''" "\<not> long_option ''darkhttpd''" by code_simp+
  note named = usage_documents_options [OF this, unfolded usage_options [OF this]]
  have "''--ipv6'' \<in> set options_named" by (simp add: options_named_def)
  then have "''--ipv6'' \<in> insert ''--accf'' (set options_named)" by (rule insertI2)
  then show ?thesis unfolding named [symmetric] mem_Collect_eq .
qed

section \<open>The statistics\<close>

text \<open>Seconds and microseconds of user and system time.\<close>

record rusage =
  ru_utime :: "int \<times> int"
  ru_stime :: "int \<times> int"

definition print_uint :: "int \<Rightarrow> nat" where
  "print_uint n = unat (word_of_int n :: 32 word)"

text \<open>The conversion \<^verbatim>\<open>%02u\<close>.\<close>

definition dec_02 :: "nat \<Rightarrow> string" where
  "dec_02 n = replicate (2 - length (dec n)) (CHR ''0'') @ dec n"

definition cpu_time :: "int \<times> int \<Rightarrow> string" where
  "cpu_time = (\<lambda>(tv_sec, tv_usec). dec (print_uint tv_sec) @ ''.'' @ dec_02 (print_uint (tv_usec div 10000)))"

definition usage_stats :: "rusage \<Rightarrow> server \<Rightarrow> string" where
  "usage_stats r s =
     ''CPU time used: '' @ cpu_time (ru_utime r) @ '' user, '' @ cpu_time (ru_stime r) @ '' system'' @ [LF] @
     ''Requests: '' @ dec (unat (num_requests s)) @ [LF] @
     ''Bytes: '' @ dec (unat (total_in s)) @ '' in, '' @ dec (unat (total_out s)) @ '' out'' @ [LF]"

text \<open>The times are printed to the hundredth of a second, rounded down.\<close>

lemma dec_02_two_digits: "n < 100 \<Longrightarrow> dec_02 n = two_digits (int n)"
proof -
  assume n: "n < 100"
  have z: "digit_char 0 = CHR ''0''" by code_simp
  show ?thesis
  proof (cases "n < 10")
    case True
    then show ?thesis by (simp add: dec_02_def two_digits_def dec.simps [of n] z numeral_2_eq_2)
  next
    case False
    with n have "n div 10 < 10" by simp
    with False show ?thesis
      by (simp add: dec_02_def two_digits_def dec.simps [of n] dec.simps [of "n div 10"] nat_div_distrib nat_mod_distrib)
  qed
qed

theorem cpu_time_hundredths:
  assumes "0 \<le> sec" "sec < 2 ^ 32" "0 \<le> usec" "usec < 1000000"
  shows "cpu_time (sec, usec) = dec (nat sec) @ ''.'' @ two_digits (usec div 10000)"
proof -
  have u: "print_uint n = nat n" if "0 \<le> n" "n < 2 ^ 32" for n
    using that by (simp add: print_uint_def unat_eq_nat_uint uint_word_of_int)
  have "0 \<le> usec div 10000" "usec div 10000 < 100" using assms by simp_all
  then have "dec_02 (print_uint (usec div 10000)) = two_digits (usec div 10000)"
    using u [of "usec div 10000"] by (simp add: dec_02_two_digits)
  with u [OF assms(1,2)] show ?thesis by (simp add: cpu_time_def)
qed

end
