(* ===== verification/FuzzRequest.thy ===== *)
theory FuzzRequest
  imports Cmdline
begin

text \<open>
  The fuzz target of the request parser (\<^verbatim>\<open>src/devel/fuzz_parse_request.c\<close>): the fuzzer's bytes with two
  newlines and a NUL behind them are parsed as a request, and the connection is logged and freed.
  Unlike the server, the target counts the NUL in \<open>c_request_length\<close>, so nothing readable follows
  the counted bytes.
\<close>

section \<open>The target\<close>

definition fuzz_request :: "string \<Rightarrow> string" where
  "fuzz_request data = data @ [LF, LF, NUL]"

text \<open>The globals the target sets; the others have their initial values.\<close>

definition fuzz_config :: config where
  "fuzz_config = initial_config\<lparr>trusted_ip := Some ''0.0.0.0''\<rparr>"

text \<open>\<open>None\<close> is a read that leaves the buffer.\<close>

definition fuzz_parse_request :: "os \<Rightarrow> string \<Rightarrow> server \<Rightarrow> (exit + server) option" where
  "fuzz_parse_request os data s =
     (let s = s\<lparr>logfile := Log_open\<rparr>;
          conn = new_connection s;
          conn = conn\<lparr>c_request := Some (fuzz_request data), c_request_length := length data + 3,
            c_state := RECV_REQUEST\<rparr>;
          (r, conn) = parse_request fuzz_config conn;
          conn = (if r = Parsed then conn\<lparr>c_state := SEND_HEADER\<rparr> else conn);
          conn = conn\<lparr>c_http_code := 200\<rparr>
      in if r = Bad_read then None else Some (free_connection fuzz_config os conn s))"

section \<open>The parser stays in the buffer\<close>

lemma scan_stops_by:
  assumes "i \<le> k" "k < length s" "\<not> p (s ! k)"
  shows "scan p s i \<le> k"
proof (rule ccontr)
  assume "\<not> scan p s i \<le> k"
  then have "p (s ! k)" using scan_between [of i k p s] assms(1) by simp
  with assms(3) show False by simp
qed

lemma fuzz_request_nth:
  "length (fuzz_request data) = length data + 3"
  "fuzz_request data ! length data = LF" "fuzz_request data ! Suc (length data) = LF"
  by (simp_all add: fuzz_request_def nth_append)

text \<open>After the spaces behind a token, the first newline of the tail is reached at the latest, and the
  next token ends at the second one at the latest.\<close>

lemma fuzz_scan:
  assumes "i \<le> length data"
  shows "scan (\<lambda>c. c = CHR '' '') (fuzz_request data) i \<le> length data"
    "\<not> p LF \<Longrightarrow> scan p (fuzz_request data) (Suc i) \<le> Suc (length data)"
  using assms by (auto intro!: scan_stops_by simp: fuzz_request_nth)

text \<open>The bounds at which the parser reads a byte without comparing them with the length: both are
  inside the buffer, on any bytes.\<close>

theorem fuzz_reads_in_buffer:
  fixes data :: string
  defines "R \<equiv> fuzz_request data"
  defines "url_start \<equiv> scan (\<lambda>c. c = CHR '' '') R (scan (\<lambda>c. c \<noteq> CHR '' '') R 0)"
  defines "url_end \<equiv> scan (\<lambda>c. c \<noteq> CHR '' '' \<and> c \<noteq> CR \<and> c \<noteq> LF \<and> c \<noteq> NUL) R (url_start + 1)"
  defines "proto_start \<equiv> scan (\<lambda>c. c = CHR '' '') R url_end"
  defines "proto_end \<equiv> scan (\<lambda>c. c \<noteq> CHR '' '' \<and> c \<noteq> CR \<and> c \<noteq> LF) R (proto_start + 1)"
  shows "url_start = length R \<or>
    url_end < length R \<and> (R ! url_end = CHR '' '' \<longrightarrow> proto_end < length R)"
proof (cases "scan (\<lambda>c. c \<noteq> CHR '' '') R 0 < length R")
  case False
  then have "scan (\<lambda>c. c \<noteq> CHR '' '') R 0 = length R"
    using scan_le [of 0 R "\<lambda>c. c \<noteq> CHR '' ''"] by simp
  then show ?thesis by (simp add: url_start_def scan_outside)
next
  case True
  then have "R ! scan (\<lambda>c. c \<noteq> CHR '' '') R 0 = CHR '' ''" using scan_stop by blast
  have space: "i \<le> length data" if "i < length R" "R ! i = CHR '' ''" for i
  proof (rule ccontr)
    assume "\<not> i \<le> length data"
    with that have "i = Suc (length data) \<or> i = Suc (Suc (length data))"
      by (auto simp: R_def fuzz_request_nth)
    with that(2) show False by (auto simp: R_def fuzz_request_def nth_append)
  qed
  have "url_start \<le> length data" unfolding url_start_def R_def
    using fuzz_scan(1) [OF space [OF True scan_stop [OF True, simplified]], unfolded R_def] .
  then have u: "url_end \<le> Suc (length data)"
    unfolding url_end_def R_def Suc_eq_plus1 [symmetric] by (intro fuzz_scan(2)) simp_all
  then have ul: "url_end < length R" by (simp add: R_def fuzz_request_nth)
  moreover have "proto_end < length R" if "R ! url_end = CHR '' ''"
  proof -
    have "proto_start \<le> length data"
      unfolding proto_start_def R_def using fuzz_scan(1) space [OF ul that] by blast
    then have "proto_end \<le> Suc (length data)"
      unfolding proto_end_def R_def Suc_eq_plus1 [symmetric] by (intro fuzz_scan(2)) simp_all
    then show ?thesis by (simp add: R_def fuzz_request_nth)
  qed
  ultimately show ?thesis by blast
qed

lemma fuzz_parse_in_bounds:
  assumes "request_bytes conn = fuzz_request data"
  shows "fst (parse_request cfg conn) \<noteq> Bad_read"
proof -
  note b = fuzz_reads_in_buffer [of data]
  have at: "c_at (fuzz_request data) n = CHR '' '' \<Longrightarrow> fuzz_request data ! n = CHR '' ''" for n
    by (auto simp: c_at_def split: if_splits)
  show ?thesis
    unfolding parse_request_def parse_protocol_def assms Let_def request_bytes_update
    using b by (auto simp: at)
qed

section \<open>What the target does\<close>

lemma fuzz_log:
  assumes "os_ok os" "c_method conn \<noteq> None" "c_http_code conn = 200" "logfile s = Log_open"
    "c_socket conn = -1" "c_reply_fd conn = -1"
  shows "\<exists>line. single_record line \<and> free_connection fuzz_config os conn s =
    Inr (s\<lparr>trace := trace s @ [Log line], accepting := True\<rparr>)"
proof -
  have cfg: "\<not> syslog_enabled fuzz_config" by (simp add: fuzz_config_def initial_config_def)
  obtain conn' s' where l: "log_connection fuzz_config os conn s = (conn', s')" by fastforce
  have "s' \<noteq> s" using l assms(2-4)
    by (auto simp: log_connection_def Let_def emit_def cfg dest!: arg_cong [of _ _ trace])
  with log_connection_trace [OF assms(1) l] obtain line where
    "single_record line" "s' = emit (Log line) s" by (auto simp: cfg assms(4))
  with l assms(5,6) log_connection_fds [OF l] show ?thesis
    by (auto simp: free_connection_def Let_def emit_def)
qed

text \<open>On any bytes the target ends without reading outside the buffer; it closes nothing, and it logs
  the request as one record that the bytes cannot break up, whether or not they parse.\<close>

theorem fuzz_parse_request_ok:
  assumes "os_ok os"
  shows "\<exists>line. single_record line \<and> fuzz_parse_request os data s =
    Some (Inr (s\<lparr>logfile := Log_open, trace := trace s @ [Log line], accepting := True\<rparr>))"
proof -
  let ?s = "s\<lparr>logfile := Log_open\<rparr>"
  let ?c = "(new_connection ?s)\<lparr>c_request := Some (fuzz_request data), c_request_length := length data + 3,
    c_state := RECV_REQUEST\<rparr>"
  obtain r d where p: "parse_request fuzz_config ?c = (r, d)" by fastforce
  have "request_bytes ?c = fuzz_request data" by (simp add: request_bytes_def fuzz_request_nth)
  from fuzz_parse_in_bounds [OF this, of fuzz_config] p have r: "r \<noteq> Bad_read" by simp
  have d: "c_method d \<noteq> None" "c_socket d = -1" "c_reply_fd d = -1"
    using p by (atomize (full), elim parse_request_cases) (simp_all add: parse_fields_eq new_connection_def)
  let ?d = "(if r = Parsed then d\<lparr>c_state := SEND_HEADER\<rparr> else d)\<lparr>c_http_code := 200\<rparr>"
  from d have "c_method ?d \<noteq> None" "c_http_code ?d = 200" "c_socket ?d = -1" "c_reply_fd ?d = -1"
    by (cases "r = Parsed"; simp)+
  then obtain line where "single_record line"
    "free_connection fuzz_config os ?d ?s = Inr (?s\<lparr>trace := trace ?s @ [Log line], accepting := True\<rparr>)"
    using fuzz_log [OF assms, of ?d ?s] by auto
  with p r show ?thesis by (auto simp: fuzz_parse_request_def Let_def)
qed

theorem fuzz_parse_request_ok_witness:
  "\<exists>line. fuzz_parse_request sample_os [NUL] sample_server =
     Some (Inr (sample_server\<lparr>trace := [Log line]\<rparr>))"
  using fuzz_parse_request_ok [OF os_ok_sample, of "[NUL]" sample_server]
  by (auto simp: sample_server_def)

end
