(* ===== verification/Spec2Isabelle.thy ===== *)
theory Spec2Isabelle
  imports SafeUrl SafeUrlOld Apbuf Mime Auth Dates Conn Request Reply DirList ProcessGet Poll
    EventLoop Lifecycle ConnList Exchange Isolation Cmdline Calls Startup Messages FuzzRequest
begin

text \<open>
  A verification development for darkhttpd (\<^verbatim>\<open>src/darkhttpd.c\<close>), a single-threaded web server that
  serves static files, and for the fuzz targets of its path resolver and of its request parser
  (\<^verbatim>\<open>src/devel/fuzz_make_safe_uri.c\<close>, \<^verbatim>\<open>src/devel/fuzz_parse_request.c\<close>).

  \<^bold>\<open>The program.\<close>  \<open>main\<close> reads the command line into global variables, creates the listening socket,
  sets the process up (log file, daemon, signals, root directory, user and group, pid file) and then
  calls \<open>httpd_poll\<close> until a signal clears \<open>running\<close>.  An iteration waits in \<^verbatim>\<open>select\<close>, accepts a
  connection, and goes through the linked list of connections; each is in one of the states
  \<open>RECV_REQUEST\<close>, \<open>SEND_HEADER\<close>, \<open>SEND_REPLY\<close>, \<open>DONE\<close>.  A request is collected until it ends with an
  empty line, parsed, and answered by \<open>process_request\<close>: with a file or a part of it, a listing of a
  directory, a redirect or an error page.  Header and body are then sent as the kernel takes them.
  A connection that is done is freed, or recycled for the next request.

  \<^bold>\<open>Theories and code.\<close>  Function names are those of the code, and a function that changes a
  structure or a global takes it as an argument and returns it.
  \<^item> \<open>Prelude\<close>: characters as bytes, C strings (lists without NUL, as \<open>cstr\<close> reads them from a
    buffer), the index loop \<open>scan\<close> that the parsers are made of, the hint collections.
  \<^item> \<open>Libc\<close>: the functions of the C library the program uses, from their documentation: character
    classes, comparison, search, \<^verbatim>\<open>strtoll\<close>, the conversions of \<^verbatim>\<open>printf\<close>, \<^verbatim>\<open>qsort\<close>, \<^verbatim>\<open>bsearch\<close>.
  \<^item> \<open>SafeUrl\<close>: \<open>make_safe_url\<close>, its fast scan and its two-cursor loop in the buffer, refined to a
    specification on lists of path components.  \<open>SafeUrlOld\<close>: the older resolver of the fuzz target,
    with its table of chunks and its assertions, and the target itself.
  \<^item> \<open>Codec\<close>: \<open>urldecode\<close>, \<open>urlencode\<close>, \<open>logencode\<close>, \<open>normalize_path\<close>.  \<open>Apbuf\<close>: \<^verbatim>\<open>struct apbuf\<close> and
    \<open>append_escaped\<close>.  \<open>Mime\<close>: the table of extensions, its parsers and look-up.  \<open>Auth\<close>: base64 and
    the comparison of passwords.  \<open>Dates\<close>: \<^verbatim>\<open>gmtime\<close> and the three date formats.
  \<^item> \<open>Conn\<close>: \<^verbatim>\<open>struct connection\<close> is the record \<open>connection\<close>, the globals set by the command line are
    \<open>config\<close>, those the loop changes are \<open>server\<close>, the operating system is \<open>os\<close>; creating, logging,
    freeing, recycling and timing out connections.
  \<^item> \<open>Request\<close>: \<open>parse_field\<close>, \<open>parse_range_field\<close>, \<open>parse_request\<close>.  \<open>Reply\<close>: \<open>default_reply\<close>, \<open>redirect\<close>
    and \<open>redirect_https\<close>.  \<open>DirList\<close>: directories and their listings.  \<open>ProcessGet\<close>: \<open>process_get\<close> and
    \<open>process_request\<close>.
  \<^item> \<open>Poll\<close>: the three handlers \<open>poll_recv_request\<close>, \<open>poll_send_header\<close>, \<open>poll_send_reply\<close>.  \<open>EventLoop\<close>:
    \<open>accept_connection\<close> and \<open>httpd_poll\<close>, where the list of connections is a list.  \<open>Lifecycle\<close>: the
    states of a connection as an automaton with an order on them.  \<open>ConnList\<close>: the
    \<^verbatim>\<open>LIST_\<close> macros on pointers, and that the loops over the pointers are those over the list.
    \<open>Exchange\<close>: a whole request with its answer.  \<open>Isolation\<close>: connections do not disturb each other.
  \<^item> \<open>Cmdline\<close>: \<open>parse_commandline\<close>.  \<open>Calls\<close>: \<open>init_sockin\<close>, the daemon and the pid file as the calls they
    make.  \<open>Startup\<close>: \<open>change_root\<close>, the order of the start, the main loop, the shutdown and \<open>main\<close>.
    \<open>Messages\<close>: the text of \<open>usage\<close> and the statistics at the end.
  \<^item> \<open>FuzzRequest\<close>: the fuzz target of the request parser.

  \<^bold>\<open>What the lemmas show.\<close>
  \<^item> Paths: the resolver is equivalent to its specification and to the older resolver; nothing it
    lets through has a dot directory; no request touches a path outside the root; with
    \<^verbatim>\<open>--hide-dotfiles\<close> no resolved path and no entry that is examined has a component with a leading
    dot (the index file has the name it was given); without the right credentials no file is touched
    at all.
  \<^item> Data: the encoders and base64 have their inverses, escaped text has no markup, dates are
    faithful, the table of types is a map on extensions, passwords are compared exactly, sizes are
    shown to half a tenth of their unit and the rounding of a double.
  \<^item> Requests and answers: parsing inverts printing, the range and the fields that are looked up later
    included; it stays in the buffer, for the requests that end in a newline, which are those that
    are parsed; every answer that is
    not a redirect is a well-formed message with the right length; a range is exactly the bytes
    asked for.
  \<^item> Sending: what reaches the client is a prefix of header and body, each byte once; all of it
    arrives if the kernel makes progress; the cutting of a request into packets does not matter; a
    whole exchange through the dispatch of the loop, after which the connection can be reused.
  \<^item> The loop, over the reachable states (\<open>reachable\<close>, an inductive set): connections are well-formed,
    descriptors are neither lost nor closed twice, idle connections go, and a connection on which
    nothing happens is left alone.  No client ends the process, if descriptors are limited to what an
    \<^verbatim>\<open>fd_set\<close> holds, the time-out is not negative and \<^verbatim>\<open>select\<close> fails only as documented
    (\<open>select_ok\<close>); theorems beside it show that the first two conditions are needed.  The handlers only move a connection
    forward through its states; the way back is to be recycled.
    The contract of a handler is the locale \<open>poll_handler\<close>, the contract of the pointer list is
    \<open>linked_list\<close>; both are interpreted on the code's definitions, as are the smaller contracts of the
    encoders, the string buffer and the table of types.
  \<^item> The process: an accepted configuration meets the conditions of the theorems on answers exactly
    if the type given with \<^verbatim>\<open>--default-mimetype\<close> is a single line; a start that succeeds has made
    the calls for everything configured, in the safe order; after the loop the process ends, the
    listening socket and all that the loop opened are closed once, the log is closed and the pid file
    removed, and a line is written to the closed log only if the server was stopped while it
    answered.  The options the printed usage text names are those that are accepted.

  \<^bold>\<open>Parameters and bounds.\<close>  The file system is a function from paths to what \<^verbatim>\<open>open\<close>, \<^verbatim>\<open>stat\<close>,
  \<^verbatim>\<open>opendir\<close> and \<^verbatim>\<open>fstat\<close> answer (\<open>os\<close>); it is the same for a whole run, so the files do not change between two requests
  and \<^verbatim>\<open>open\<close> always gives the same descriptor for a path.  \<open>os_ok\<close>, \<open>os_files_ok\<close> and \<open>calls_ok\<close> say
  what the system calls promise.  What \<^verbatim>\<open>recv\<close> and \<^verbatim>\<open>send\<close> answer to
  successive calls is a script in the state (\<open>recvs\<close>, \<open>sends\<close>), and what \<^verbatim>\<open>select\<close>, \<^verbatim>\<open>time\<close> and \<^verbatim>\<open>accept\<close>
  answer is the argument \<open>wakeup\<close> of an iteration; the theorems hold for all scripts, so nothing is
  bounded by them, and when a script is used up a call would block.  No definition has fuel: the
  loops of the code are structural or have a measure, and the loop over the pointers, which need not
  end on a circular list, is a partial function that is proved to return on well-formed lists.
  Calls that are visible from outside are recorded in \<open>trace\<close>, those that set the process up in a list
  of \<open>call\<close>.  Counters have 64 bits and wrap, ports have 16 bits, user ids 32 bits; file offsets and
  lengths are integers, and the theorems on ranges and replies show that they do not overflow.
  Plain \<^verbatim>\<open>char\<close> is signed.  The model is of the build for Linux with IPv6 and \<^verbatim>\<open>sendfile\<close>.

  \<^bold>\<open>Not modelled.\<close>  The order of what is printed on the terminal (the usage text and the statistics are
  functions of their own, which \<open>main\<close> does not call) and the other messages; running out of
  memory (\<open>xmalloc\<close> and the like end the process); the branches for other systems and for the
  \<^verbatim>\<open>TORTURE\<close> build; the frees at the end of \<open>main\<close>; how the kernel resolves paths,
  links and the changed root included; the clients
  \<^verbatim>\<open>bench.c\<close> and \<^verbatim>\<open>fuzz_socket.cc\<close>, which only do network input and output, and the tests.

  \<^bold>\<open>What modelling showed.\<close>  Theorems outside the properties record defects: a decoded URL can split
  the header of a redirect (\<open>forwarded_url_splits_header\<close>), a redirect to a directory can leave the
  site (\<open>directory_redirect_leaves_site\<close>), a failed \<^verbatim>\<open>accept\<close> without connections is final
  (\<open>accept_failure_stuck\<close>), a relative single file is chrooted twice (\<open>relative_single_file_root\<close>), the
  shutdown logs to a closed file (\<open>shutdown_logs_to_closed_file\<close>), numbers may be empty and ports wrap
  (\<open>empty_number_accepted\<close>, \<open>port_wraps\<close>), a negative time-out is accepted and the first client then
  ends the server (\<open>negative_timeout_accepted\<close>, \<open>negative_timeout_fatal\<close>), a descriptor too large for an
  \<^verbatim>\<open>fd_set\<close> is put into one (\<open>large_descriptor_overflows\<close>), and a default type may hold a line break
  (\<open>default_mimetype_newline\<close>).
\<close>

end
